(* ===== verification/Prelude.thy ===== *)
theory Prelude
  imports Main "HOL-Library.Word"
begin

unbundle bit_operations_syntax

text \<open>
  Shared vocabulary of the development: the fixed-width integers of the C and C++ sources, the
  faults a run can end in (undefined behaviour of C and C++ is a value here, never an unspecified
  result), byte buffers with checked loads and stores, and little-endian encodings with their
  round trips. The collections \<^verbatim>\<open>mem_simps\<close> (what a run of stores leaves in a buffer) and
  \<^verbatim>\<open>wire_simps\<close> (constants of the wire format) carry the component proofs.
\<close>

named_theorems mem_simps \<open>loads and stores on byte buffers\<close>
named_theorems wire_simps \<open>constants of the wire format\<close>

section \<open>Integers and faults\<close>

type_synonym u8 = "8 word"
type_synonym u16 = "16 word"
type_synonym u32 = "32 word"
type_synonym u64 = "64 word"
type_synonym byte = "8 word"

text \<open>
  What a run can do that the language leaves undefined: touch memory outside an object, divide by
  zero, load an enumeration object that holds no enumerator, or convert a floating value to an
  integer type that cannot hold it.
\<close>

datatype fault = OutOfBounds | DivByZero | InvalidEnum | BadConversion

type_synonym 'a res = "fault + 'a"

primrec bindr :: "'a res \<Rightarrow> ('a \<Rightarrow> 'b res) \<Rightarrow> 'b res" where
  "bindr (Inl e) f = Inl e"
| "bindr (Inr x) f = f x"

lemma bindr_Inr_iff: "bindr m f = Inr y \<longleftrightarrow> (\<exists>x. m = Inr x \<and> f x = Inr y)"
  by (cases m) auto

lemma bindr_Inr_right [simp]: "bindr m Inr = m"
  by (cases m) auto

lemma bindr_assoc: "bindr (bindr m f) g = bindr m (\<lambda>x. bindr (f x) g)"
  by (cases m) auto

section \<open>Byte buffers\<close>

text \<open>
  A buffer is the list of the bytes of the object a pointer points into. A load or store beyond
  its last byte is the fault \<^const>\<open>OutOfBounds\<close>.
\<close>

definition load :: "byte list \<Rightarrow> nat \<Rightarrow> byte res" where
  "load m i = (if i < length m then Inr (m ! i) else Inl OutOfBounds)"

definition store :: "byte list \<Rightarrow> nat \<Rightarrow> byte \<Rightarrow> byte list res" where
  "store m i b = (if i < length m then Inr (m[i := b]) else Inl OutOfBounds)"

text \<open>\<open>copy_loop n i dst off src\<close> is the loop \<^verbatim>\<open>for (; n > 0; ++i, --n) dst[off + i] = src[i]\<close>.\<close>

fun copy_loop :: "nat \<Rightarrow> nat \<Rightarrow> byte list \<Rightarrow> nat \<Rightarrow> byte list \<Rightarrow> byte list res" where
  "copy_loop 0 i dst off src = Inr dst"
| "copy_loop (Suc n) i dst off src =
     bindr (load src i) (\<lambda>b.
     bindr (store dst (off + i) b) (\<lambda>dst'. copy_loop n (Suc i) dst' off src))"

text \<open>\<open>memcpy_at dst off src n\<close> is \<^verbatim>\<open>memcpy(dst + off, src, n)\<close> between distinct objects.\<close>

definition memcpy_at :: "byte list \<Rightarrow> nat \<Rightarrow> byte list \<Rightarrow> nat \<Rightarrow> byte list res" where
  "memcpy_at dst off src n =
     (if n \<le> length src \<and> off + n \<le> length dst
      then Inr (take off dst @ take n src @ drop (off + n) dst) else Inl OutOfBounds)"

text \<open>\<open>patch m off bs\<close>: the buffer \<open>m\<close> with the bytes \<open>bs\<close> written at \<open>off\<close>.\<close>

definition patch :: "byte list \<Rightarrow> nat \<Rightarrow> byte list \<Rightarrow> byte list" where
  "patch m off bs = take off m @ bs @ drop (off + length bs) m"

lemma patch_Nil [simp]: "patch m off [] = m"
  by (simp add: patch_def)

lemma length_patch: "off + length bs \<le> length m \<Longrightarrow> length (patch m off bs) = length m"
  by (simp add: patch_def)

lemma store_patch_next [mem_simps]:
  assumes "k = off + length bs" and "k < length m"
  shows "store (patch m off bs) k b = Inr (patch m off (bs @ [b]))"
proof -
  have d: "drop (off + length bs) m = m ! (off + length bs) # drop (Suc (off + length bs)) m"
    using assms by (simp add: Cons_nth_drop_Suc)
  have "(take off m @ bs @ drop (off + length bs) m)[off + length bs := b]
      = take off m @ bs @ b # drop (Suc (off + length bs)) m"
    using assms by (simp add: list_update_append d)
  then show ?thesis
    using assms by (simp add: store_def patch_def)
qed

lemma store_start [mem_simps]: "0 < length m \<Longrightarrow> store (patch m 0 []) 0 b = Inr (patch m 0 [b])"
  using store_patch_next [of 0 0 "[]" m b] by simp

lemma memcpy_patch_next:
  assumes "k = off + length bs" and "k + n \<le> length m" and "n \<le> length src"
  shows "memcpy_at (patch m off bs) k src n = Inr (patch m off (bs @ take n src))"
proof -
  have "min (length m) off = off" using assms by simp
  then show ?thesis
    using assms by (simp add: memcpy_at_def patch_def algebra_simps)
qed

lemma copy_loop_patch:
  "i + n \<le> length src \<Longrightarrow> off + i + n \<le> length m \<Longrightarrow> off + i = base + length bs \<Longrightarrow>
   copy_loop n i (patch m base bs) off src
     = Inr (patch m base (bs @ take n (drop i src)))"
proof (induction n arbitrary: i bs)
  case 0
  then show ?case by simp
next
  case (Suc n)
  have hd: "drop i src = src ! i # drop (Suc i) src"
    using Suc.prems by (simp add: Cons_nth_drop_Suc)
  have st: "store (patch m base bs) (off + i) (src ! i) = Inr (patch m base (bs @ [src ! i]))"
    using Suc.prems by (intro store_patch_next) auto
  have "copy_loop n (Suc i) (patch m base (bs @ [src ! i])) off src
      = Inr (patch m base ((bs @ [src ! i]) @ take n (drop (Suc i) src)))"
    using Suc.prems by (intro Suc.IH) auto
  with Suc.prems st show ?case
    by (simp add: load_def hd)
qed

lemma patch_prefix: "length bs \<le> length m \<Longrightarrow> take (length bs) (patch m 0 bs) = bs"
  by (simp add: patch_def)

lemma patch_nth_beyond:
  "off + length bs \<le> i \<Longrightarrow> i < length m \<Longrightarrow> patch m off bs ! i = m ! i"
  by (auto simp: patch_def nth_append)

lemma patch_nth_low: "j < length bs \<Longrightarrow> length bs \<le> length m \<Longrightarrow> patch m 0 bs ! j = bs ! j"
  by (simp add: patch_def nth_append)

section \<open>Little-endian encodings\<close>

primrec le_bytes :: "nat \<Rightarrow> nat \<Rightarrow> byte list" where
  "le_bytes 0 k = []"
| "le_bytes (Suc n) k = of_nat (k mod 256) # le_bytes n (k div 256)"

primrec le_nat :: "byte list \<Rightarrow> nat" where
  "le_nat [] = 0"
| "le_nat (b # bs) = unat b + 256 * le_nat bs"

lemma length_le_bytes [simp]: "length (le_bytes n k) = n"
  by (induction n arbitrary: k) auto

lemma unat_of_nat_byte: "unat (of_nat (k mod 256) :: byte) = k mod 256"
  by (simp add: unat_of_nat)

lemma le_nat_le_bytes: "k < 256 ^ n \<Longrightarrow> le_nat (le_bytes n k) = k"
proof (induction n arbitrary: k)
  case 0
  then show ?case by simp
next
  case (Suc n)
  have "k div 256 < 256 ^ n"
    using Suc.prems by (simp add: less_mult_imp_div_less mult.commute)
  then show ?case
    using Suc.IH by (simp add: unat_of_nat_byte)
qed

lemma le_nat_bound: "le_nat bs < 256 ^ length bs"
proof (induction bs)
  case Nil
  then show ?case by simp
next
  case (Cons b bs)
  have "unat b < 256"
    using unsigned_less [of b] by simp
  with Cons show ?case by simp
qed

lemma le_bytes_le_nat: "le_bytes (length bs) (le_nat bs) = bs"
proof (induction bs)
  case Nil
  then show ?case by simp
next
  case (Cons b bs)
  have b: "unat b < 256"
    using unsigned_less [of b] by simp
  then have "(unat b + 256 * le_nat bs) mod 256 = unat b"
    and "(unat b + 256 * le_nat bs) div 256 = le_nat bs"
    by simp_all
  with Cons show ?case by simp
qed

text \<open>The two spellings of a byte of an integer: the sources' shift and mask, and arithmetic.\<close>

lemma low_byte_eq:
  fixes v :: "'a::len word"
  assumes "8 \<le> LENGTH('a)"
  shows "(ucast (drop_bit n v AND 0xFF) :: byte) = of_nat ((unat v div 2 ^ n) mod 256)"
proof -
  have "(0xFF :: 'a word) = mask 8"
    by (simp add: mask_eq_exp_minus_1)
  then have "(ucast (drop_bit n v AND 0xFF) :: byte) = ucast (take_bit 8 (drop_bit n v))"
    by (simp add: take_bit_eq_mask)
  also have "\<dots> = of_nat (unat (take_bit 8 (drop_bit n v)))"
    by simp
  also have "unat (take_bit 8 (drop_bit n v)) = take_bit 8 (drop_bit n (unat v))"
    by (simp only: unsigned_take_bit_eq unat_drop_bit_eq)
  also have "\<dots> = (unat v div 2 ^ n) mod 256"
    by (simp add: take_bit_eq_mod drop_bit_eq_div)
  finally show ?thesis .
qed

lemmas low_byte_eq0 = low_byte_eq [where n = 0, simplified]

lemma or_push_bit_add:
  fixes a b :: "'a::len word"
  assumes "unat a < 2 ^ n"
  shows "a OR push_bit n b = a + b * 2 ^ n"
proof -
  have "take_bit n (unat a) = unat a"
    using assms by (simp add: take_bit_nat_eq_self_iff)
  then have "unat (take_bit n a) = unat a"
    by (simp only: unsigned_take_bit_eq)
  then have "take_bit n a = a"
    by (simp only: word_unat_eq_iff)
  then have "\<not> bit a i" if "n \<le> i" for i
    using that by (metis bit_take_bit_iff not_less)
  then have "a AND push_bit n b = 0"
    by (intro bit_word_eqI) (auto simp: bit_simps)
  then show ?thesis
    by (simp add: disjunctive_add_eq_or [symmetric] push_bit_eq_mult)
qed

lemma unat_u64_less: "unat (w :: u64) < 18446744073709551616"
  using unsigned_less [of w, where ?'a = nat] by simp

lemma unat_u32_less: "unat (w :: u32) < 4294967296"
  using unsigned_less [of w, where ?'a = nat] by simp

lemma unat_byte_less: "unat (b :: byte) < 256"
  using unsigned_less [of b] by simp

lemma unat_ucast_byte:
  "8 \<le> LENGTH('a::len) \<Longrightarrow> unat (ucast (b :: byte) :: 'a word) = unat b"
proof -
  assume "8 \<le> LENGTH('a)"
  then have "(2 :: nat) ^ 8 \<le> 2 ^ LENGTH('a)"
    by (rule power_increasing) simp
  with unat_byte_less [of b] show ?thesis
    by (simp add: unsigned_ucast_eq take_bit_nat_eq_self_iff)
qed

lemma unat_of_nat_id: "n < 2 ^ LENGTH('a) \<Longrightarrow> unat (of_nat n :: 'a::len word) = n"
  by (simp add: unat_of_nat)

lemma get16_bits:
  "(ucast (ucast (a :: byte) OR push_bit 8 (ucast (b :: byte)) :: u32) :: u16)
     = of_nat (le_nat [a, b])"
proof -
  have "(ucast a OR push_bit 8 (ucast b) :: u32) = ucast a + ucast b * 2 ^ 8"
    using unat_byte_less [of a] by (intro or_push_bit_add) (simp add: unat_ucast_byte)
  also have "\<dots> = of_nat (unat a + unat b * 256)"
    by (simp add: of_nat_add of_nat_mult)
  also have "unat a + unat b * 256 = le_nat [a, b]"
    by simp
  finally have e: "(ucast a OR push_bit 8 (ucast b) :: u32) = of_nat (le_nat [a, b])" .
  have "le_nat [a, b] < 2 ^ LENGTH(32)"
    using le_nat_bound [of "[a, b]"] by simp
  then show ?thesis
    unfolding e by (simp only: unsigned_of_nat take_bit_nat_eq_self)
qed

lemma get32_bits:
  "((ucast (a :: byte) OR push_bit 8 (ucast (b :: byte))) OR push_bit 16 (ucast (c :: byte)))
     OR push_bit 24 (ucast (d :: byte)) = (of_nat (le_nat [a, b, c, d]) :: u32)"
proof -
  note lt = unat_byte_less [of a] unat_byte_less [of b] unat_byte_less [of c]
  have 1: "(ucast a OR push_bit 8 (ucast b) :: u32) = of_nat (unat a + unat b * 256)"
    using lt by (subst or_push_bit_add) (simp_all add: unat_ucast_byte)
  have u1: "unat (of_nat (unat a + unat b * 256) :: u32) = unat a + unat b * 256"
    using lt by (intro unat_of_nat_id) simp
  have 2: "(of_nat (unat a + unat b * 256) :: u32) OR push_bit 16 (ucast c)
      = of_nat (unat a + unat b * 256 + unat c * 65536)"
    using lt by (subst or_push_bit_add) (simp_all only: u1, simp_all)
  have u2: "unat (of_nat (unat a + unat b * 256 + unat c * 65536) :: u32)
      = unat a + unat b * 256 + unat c * 65536"
    using lt by (intro unat_of_nat_id) simp
  have 3: "(of_nat (unat a + unat b * 256 + unat c * 65536) :: u32) OR push_bit 24 (ucast d)
      = of_nat (unat a + unat b * 256 + unat c * 65536 + unat d * 16777216)"
    using lt by (subst or_push_bit_add) (simp_all only: u2, simp_all)
  show ?thesis
    unfolding 1 2 3 by (rule arg_cong [where f = of_nat]) simp
qed

end
