(* ===== verification/BusTypes.thy ===== *)
theory BusTypes
  imports Prelude
begin

text \<open>
  \<^verbatim>\<open>shared/include/bus/bus_types.h\<close> and \<^verbatim>\<open>shared/include/bus/usb_protocol.h\<close>: the bus
  enumerations, the frame structure with its layout in memory, the packet header and the constants
  of the USB link. The layout is a function of the size the compiler gives to an enumeration
  object, because the header leaves \<^verbatim>\<open>bt_bus_frame_t\<close> unpacked: the PC build stores enumerations
  in four bytes, and the bare-metal ARM ABI (short enumerations) in one.
\<close>

section \<open>Enumerations\<close>

datatype bt_bus_type = BT_BUS_UNKNOWN | BT_BUS_CAN | BT_BUS_CANFD | BT_BUS_CANXL | BT_BUS_LIN

datatype bt_bus_direction = BT_DIR_RX | BT_DIR_TX

datatype bt_frame_status = BT_FRAME_OK | BT_FRAME_ERROR | BT_FRAME_OVERRUN

fun bus_type_code :: "bt_bus_type \<Rightarrow> nat" where
  "bus_type_code BT_BUS_UNKNOWN = 0"
| "bus_type_code BT_BUS_CAN = 1"
| "bus_type_code BT_BUS_CANFD = 2"
| "bus_type_code BT_BUS_CANXL = 3"
| "bus_type_code BT_BUS_LIN = 4"

fun dir_code :: "bt_bus_direction \<Rightarrow> nat" where
  "dir_code BT_DIR_RX = 0"
| "dir_code BT_DIR_TX = 1"

fun status_code :: "bt_frame_status \<Rightarrow> nat" where
  "status_code BT_FRAME_OK = 0"
| "status_code BT_FRAME_ERROR = 1"
| "status_code BT_FRAME_OVERRUN = 2"

text \<open>Reading an enumeration object: an integer that is no enumerator is \<open>InvalidEnum\<close>.\<close>

definition bus_type_of :: "nat \<Rightarrow> bt_bus_type res" where
  "bus_type_of n =
     (if n = 0 then Inr BT_BUS_UNKNOWN else if n = 1 then Inr BT_BUS_CAN
      else if n = 2 then Inr BT_BUS_CANFD else if n = 3 then Inr BT_BUS_CANXL
      else if n = 4 then Inr BT_BUS_LIN else Inl InvalidEnum)"

definition dir_of :: "nat \<Rightarrow> bt_bus_direction res" where
  "dir_of n = (if n = 0 then Inr BT_DIR_RX else if n = 1 then Inr BT_DIR_TX else Inl InvalidEnum)"

definition status_of :: "nat \<Rightarrow> bt_frame_status res" where
  "status_of n =
     (if n = 0 then Inr BT_FRAME_OK else if n = 1 then Inr BT_FRAME_ERROR
      else if n = 2 then Inr BT_FRAME_OVERRUN else Inl InvalidEnum)"

lemma bus_type_of_code [simp]: "bus_type_of (bus_type_code t) = Inr t"
  by (cases t) (simp_all add: bus_type_of_def)

lemma dir_of_code [simp]: "dir_of (dir_code d) = Inr d"
  by (cases d) (simp_all add: dir_of_def)

lemma status_of_code [simp]: "status_of (status_code s) = Inr s"
  by (cases s) (simp_all add: status_of_def)

lemma enum_codes_small:
  "bus_type_code t < 256" "dir_code d < 256" "status_code s < 256"
  by (cases t; cases d; cases s; simp)+

definition bt_bus_type_str :: "bt_bus_type \<Rightarrow> string" where
  "bt_bus_type_str t =
     (case t of BT_BUS_CAN \<Rightarrow> ''CAN'' | BT_BUS_CANFD \<Rightarrow> ''CANFD'' | BT_BUS_CANXL \<Rightarrow> ''CANXL''
      | BT_BUS_LIN \<Rightarrow> ''LIN'' | BT_BUS_UNKNOWN \<Rightarrow> ''UNKNOWN'')"

definition BT_BUS_MAX_PAYLOAD :: nat where [wire_simps]: "BT_BUS_MAX_PAYLOAD = 64"
definition BT_BUS_MAX_CHANNELS :: nat where [wire_simps]: "BT_BUS_MAX_CHANNELS = 8"

section \<open>The frame structure and its layout\<close>

record bt_bus_frame =
  f_timestamp :: u64
  f_type :: bt_bus_type
  f_channel :: u8
  f_dir :: bt_bus_direction
  f_id :: u32
  f_extended :: u8
  f_fd :: u8
  f_dlc :: u8
  f_data :: "byte list"
  f_status :: bt_frame_status

definition wf_frame :: "bt_bus_frame \<Rightarrow> bool" where
  "wf_frame f \<longleftrightarrow> length (f_data f) = BT_BUS_MAX_PAYLOAD"

text \<open>
  Offsets of the fields for enumeration objects of \<open>e\<close> bytes: each field starts at the next
  multiple of its alignment, and the size is a multiple of the alignment of the time stamp.
\<close>

definition align_up :: "nat \<Rightarrow> nat \<Rightarrow> nat" where
  "align_up n a = ((n + a - 1) div a) * a"

definition off_dir :: "nat \<Rightarrow> nat" where "off_dir e = align_up (9 + e) e"
definition off_id :: "nat \<Rightarrow> nat" where "off_id e = align_up (off_dir e + e) 4"
definition off_status :: "nat \<Rightarrow> nat" where "off_status e = align_up (off_id e + 71) e"
definition sizeof_frame :: "nat \<Rightarrow> nat" where "sizeof_frame e = align_up (off_status e + e) 8"

text \<open>
  The object representation: the bytes of the structure in memory, \<open>p i\<close> being the value of the
  padding byte at offset \<open>i\<close>.
\<close>

definition frame_repr :: "nat \<Rightarrow> (nat \<Rightarrow> byte) \<Rightarrow> bt_bus_frame \<Rightarrow> byte list" where
  "frame_repr e p f =
     le_bytes 8 (unat (f_timestamp f)) @ le_bytes e (bus_type_code (f_type f)) @
     [f_channel f] @ map p [9 + e..<off_dir e] @
     le_bytes e (dir_code (f_dir f)) @ map p [off_dir e + e..<off_id e] @
     le_bytes 4 (unat (f_id f)) @ [f_extended f, f_fd f, f_dlc f] @ f_data f @
     map p [off_id e + 71..<off_status e] @
     le_bytes e (status_code (f_status f)) @ map p [off_status e + e..<sizeof_frame e]"

definition field :: "byte list \<Rightarrow> nat \<Rightarrow> nat \<Rightarrow> byte list" where
  "field bs off n = take n (drop off bs)"

definition frame_of_repr :: "nat \<Rightarrow> byte list \<Rightarrow> bt_bus_frame res" where
  "frame_of_repr e bs =
     (if length bs = sizeof_frame e then
        bindr (bus_type_of (le_nat (field bs 8 e))) (\<lambda>t.
        bindr (dir_of (le_nat (field bs (off_dir e) e))) (\<lambda>d.
        bindr (status_of (le_nat (field bs (off_status e) e))) (\<lambda>s.
        Inr \<lparr>f_timestamp = of_nat (le_nat (field bs 0 8)), f_type = t, f_channel = bs ! (8 + e),
             f_dir = d, f_id = of_nat (le_nat (field bs (off_id e) 4)),
             f_extended = bs ! (off_id e + 4), f_fd = bs ! (off_id e + 5),
             f_dlc = bs ! (off_id e + 6),
             f_data = field bs (off_id e + 7) 64, f_status = s\<rparr>)))
      else Inl OutOfBounds)"

text \<open>An array of frames in memory, and reading it back.\<close>

fun frames_repr :: "nat \<Rightarrow> (nat \<Rightarrow> byte) \<Rightarrow> bt_bus_frame list \<Rightarrow> byte list" where
  "frames_repr e p [] = []"
| "frames_repr e p (f # fs) = frame_repr e p f @ frames_repr e p fs"

fun frames_of_repr :: "nat \<Rightarrow> nat \<Rightarrow> byte list \<Rightarrow> bt_bus_frame list res" where
  "frames_of_repr e 0 bs = Inr []"
| "frames_of_repr e (Suc n) bs =
     bindr (frame_of_repr e (take (sizeof_frame e) bs)) (\<lambda>f.
     bindr (frames_of_repr e n (drop (sizeof_frame e) bs)) (\<lambda>fs. Inr (f # fs)))"

text \<open>The two layouts the build files give rise to.\<close>

lemmas layout_defs = align_up_def off_dir_def off_id_def off_status_def sizeof_frame_def

lemma layout_int_enums [simp]:
  "off_dir 4 = 16" "off_id 4 = 20" "off_status 4 = 92" "sizeof_frame 4 = 96"
  by (simp_all add: layout_defs)

lemma layout_short_enums [simp]:
  "off_dir 1 = 10" "off_id 1 = 12" "off_status 1 = 83" "sizeof_frame 1 = 88"
  by (simp_all add: layout_defs)

lemma length_frame_repr:
  assumes "wf_frame f" and "e = 4 \<or> e = 1"
  shows "length (frame_repr e p f) = sizeof_frame e"
  using assms(2)
proof
  assume "e = 4"
  with assms(1) show ?thesis
    by (simp add: frame_repr_def wf_frame_def wire_simps)
next
  assume "e = 1"
  with assms(1) show ?thesis
    by (simp add: frame_repr_def wf_frame_def wire_simps del: One_nat_def)
qed

lemma le_nat_word_bytes:
  "unat (w :: 'a::len word) < 256 ^ n \<Longrightarrow> of_nat (le_nat (le_bytes n (unat w))) = w"
  by (simp add: le_nat_le_bytes)

lemma le_nat_u64 [simp]: "(of_nat (le_nat (le_bytes 8 (unat (w :: u64)))) :: u64) = w"
  using unsigned_less [of w] by (intro le_nat_word_bytes) simp

lemma le_nat_u32 [simp]: "(of_nat (le_nat (le_bytes 4 (unat (w :: u32)))) :: u32) = w"
  using unsigned_less [of w] by (intro le_nat_word_bytes) simp

lemma le_nat_enum4 [simp]: "k < 256 \<Longrightarrow> le_nat (le_bytes 4 k) = k"
  by (intro le_nat_le_bytes) simp

lemma le_nat_enum1 [simp]: "k < 256 \<Longrightarrow> le_nat (le_bytes 1 k) = k"
  by (intro le_nat_le_bytes) simp

text \<open>Reading a field of a structure that is written as a list of chunks.\<close>

lemma field_skip: "length xs \<le> off \<Longrightarrow> field (xs @ ys) off n = field ys (off - length xs) n"
  by (simp add: field_def)

lemma field_here: "length xs = n \<Longrightarrow> field (xs @ ys) 0 n = xs"
  by (simp add: field_def)

lemma field_all: "length xs = n \<Longrightarrow> field xs 0 n = xs"
  by (simp add: field_def)

lemma nth_skip: "length xs \<le> i \<Longrightarrow> (xs @ ys) ! i = ys ! (i - length xs)"
  by (simp add: nth_append)

lemma nth_here: "([x] @ ys) ! 0 = x" "([x, y, z] @ ys) ! 0 = x"
  "([x, y, z] @ ys) ! Suc 0 = y" "([x, y, z] @ ys) ! 2 = z"
  by simp_all

lemmas chunk_simps = field_skip field_here field_all nth_skip nth_here

lemma frame_of_repr_int_enums:
  "wf_frame f \<Longrightarrow> frame_of_repr 4 (frame_repr 4 p f) = Inr f"
  using length_frame_repr [of f 4 p]
  by (simp add: frame_of_repr_def frame_repr_def wf_frame_def wire_simps chunk_simps
      enum_codes_small del: append_Cons append.simps)

lemma frame_of_repr_short_enums:
  "wf_frame f \<Longrightarrow> frame_of_repr 1 (frame_repr 1 p f) = Inr f"
  using length_frame_repr [of f 1 p]
  by (simp add: frame_of_repr_def frame_repr_def wf_frame_def wire_simps chunk_simps
      enum_codes_small del: append_Cons append.simps One_nat_def)

lemma frame_of_repr_frame_repr:
  assumes "wf_frame f" and "e = 4 \<or> e = 1"
  shows "frame_of_repr e (frame_repr e p f) = Inr f"
  using assms frame_of_repr_int_enums frame_of_repr_short_enums by auto

lemma length_frames_repr:
  assumes "\<forall>f\<in>set fs. wf_frame f" and "e = 4 \<or> e = 1"
  shows "length (frames_repr e p fs) = length fs * sizeof_frame e"
  using assms(1) by (induction fs) (simp_all add: length_frame_repr [OF _ assms(2)])

lemma frames_of_repr_frames_repr:
  assumes "\<forall>f\<in>set fs. wf_frame f" and "e = 4 \<or> e = 1"
  shows "frames_of_repr e (length fs) (frames_repr e p fs @ rest) = Inr fs"
  using assms(1)
  by (induction fs)
     (simp_all add: length_frame_repr [OF _ assms(2)] frame_of_repr_frame_repr [OF _ assms(2)])

lemma frame_bytes_lt: "n \<le> 16 \<Longrightarrow> e = 4 \<or> e = 1 \<Longrightarrow> n * sizeof_frame e < 2 ^ 16"
  by (auto simp del: One_nat_def)

lemma sizeof_frame_pos: "e = 4 \<or> e = 1 \<Longrightarrow> 0 < sizeof_frame e"
  by (auto simp del: One_nat_def)

end
