(* ===== verification/UsbProtocol.thy ===== *)
theory UsbProtocol
  imports BusTypes
begin

text \<open>
  \<^verbatim>\<open>shared/include/bus/usb_protocol.h\<close>: constants, command and event codes and the packet header
  of the USB link, and the abstract wire format both ends implement: a packet is a twelve byte
  little-endian header followed by its body.
\<close>

section \<open>Constants and codes\<close>

definition BT_USB_PROTOCOL_VERSION :: u8 where [wire_simps]: "BT_USB_PROTOCOL_VERSION = 1"
definition BT_USB_MAGIC :: u16 where [wire_simps]: "BT_USB_MAGIC = 0x5442"
definition BT_EP_DATA_IN :: u8 where "BT_EP_DATA_IN = 0x81"
definition BT_EP_CMD_OUT :: u8 where "BT_EP_CMD_OUT = 0x02"
definition BT_EP_EVT_IN :: u8 where "BT_EP_EVT_IN = 0x83"
definition BT_USB_FRAMES_PER_PACKET :: nat where [wire_simps]: "BT_USB_FRAMES_PER_PACKET = 16"
definition BT_USB_CMD_PAYLOAD_MAX :: nat where [wire_simps]: "BT_USB_CMD_PAYLOAD_MAX = 256"
definition BT_EVT_PAYLOAD_MAX :: nat where [wire_simps]: "BT_EVT_PAYLOAD_MAX = 64"
definition BT_PKT_DATA :: u8 where [wire_simps]: "BT_PKT_DATA = 1"
definition BT_PKT_CMD :: u8 where [wire_simps]: "BT_PKT_CMD = 2"
definition BT_PKT_EVT :: u8 where [wire_simps]: "BT_PKT_EVT = 3"

text \<open>The packed header has no padding: its size is the sum of its fields.\<close>

definition BT_USB_HEADER_SIZE :: nat where
  [wire_simps]: "BT_USB_HEADER_SIZE = 2 + 1 + 1 + 2 + 2 + 4"

definition BT_USB_PACKET_MAX :: "nat \<Rightarrow> nat" where
  "BT_USB_PACKET_MAX e = BT_USB_HEADER_SIZE + BT_USB_FRAMES_PER_PACKET * sizeof_frame e"

datatype bt_usb_cmd =
    BT_CMD_NONE | BT_CMD_START_CAPTURE | BT_CMD_STOP_CAPTURE | BT_CMD_SET_FILTER
  | BT_CMD_SEND_FRAME | BT_CMD_SET_SCHEDULE | BT_CMD_SYNC_TIMESTAMP | BT_CMD_GET_DEVICE_INFO
  | BT_CMD_DFU_BEGIN | BT_CMD_DFU_DATA | BT_CMD_DFU_END | BT_CMD_MAX

fun cmd_code :: "bt_usb_cmd \<Rightarrow> u16" where
  "cmd_code BT_CMD_NONE = 0"
| "cmd_code BT_CMD_START_CAPTURE = 0x01"
| "cmd_code BT_CMD_STOP_CAPTURE = 0x02"
| "cmd_code BT_CMD_SET_FILTER = 0x03"
| "cmd_code BT_CMD_SEND_FRAME = 0x04"
| "cmd_code BT_CMD_SET_SCHEDULE = 0x05"
| "cmd_code BT_CMD_SYNC_TIMESTAMP = 0x06"
| "cmd_code BT_CMD_GET_DEVICE_INFO = 0x10"
| "cmd_code BT_CMD_DFU_BEGIN = 0x20"
| "cmd_code BT_CMD_DFU_DATA = 0x21"
| "cmd_code BT_CMD_DFU_END = 0x22"
| "cmd_code BT_CMD_MAX = 0x23"

datatype bt_usb_evt =
  BT_EVT_NONE | BT_EVT_CAPTURE_OVERRUN | BT_EVT_DEVICE_ERROR | BT_EVT_DFU_STATUS | BT_EVT_MAX

fun evt_code :: "bt_usb_evt \<Rightarrow> u16" where
  "evt_code BT_EVT_NONE = 0"
| "evt_code BT_EVT_CAPTURE_OVERRUN = 1"
| "evt_code BT_EVT_DEVICE_ERROR = 2"
| "evt_code BT_EVT_DFU_STATUS = 3"
| "evt_code BT_EVT_MAX = 4"

record bt_usb_header =
  h_magic :: u16
  h_version :: u8
  h_kind :: u8
  h_length :: u16
  h_seq :: u16
  h_reserved :: u32

section \<open>The abstract wire format\<close>

definition header_wire :: "u8 \<Rightarrow> u16 \<Rightarrow> u16 \<Rightarrow> byte list" where
  "header_wire kind len seq =
     le_bytes 2 (unat BT_USB_MAGIC) @ [BT_USB_PROTOCOL_VERSION, kind] @
     le_bytes 2 (unat len) @ le_bytes 2 (unat seq) @ le_bytes 4 0"

text \<open>The body of a command or event packet: code, channel, parameter, payload.\<close>

definition body_wire :: "u16 \<Rightarrow> u16 \<Rightarrow> u32 \<Rightarrow> byte list \<Rightarrow> byte list" where
  "body_wire code ch param payload =
     le_bytes 2 (unat code) @ le_bytes 2 (unat ch) @ le_bytes 4 (unat param) @ payload"

definition packet_wire :: "u8 \<Rightarrow> u16 \<Rightarrow> byte list \<Rightarrow> byte list" where
  "packet_wire kind seq body = header_wire kind (of_nat (length body)) seq @ body"

text \<open>What makes the first \<open>len\<close> bytes of a buffer a packet: magic, version, announced length.\<close>

definition header_ok :: "byte list \<Rightarrow> bool" where
  "header_ok bs \<longleftrightarrow>
     BT_USB_HEADER_SIZE \<le> length bs \<and> le_nat [bs ! 0, bs ! 1] = unat BT_USB_MAGIC \<and>
     bs ! 2 = BT_USB_PROTOCOL_VERSION \<and>
     BT_USB_HEADER_SIZE + le_nat [bs ! 4, bs ! 5] \<le> length bs"

lemma length_header_wire [simp]: "length (header_wire k l s) = 12"
  by (simp add: header_wire_def)

lemma length_body_wire [simp]: "length (body_wire c ch pa pl) = 8 + length pl"
  by (simp add: body_wire_def)

lemma length_packet_wire [simp]: "length (packet_wire k s b) = 12 + length b"
  by (simp add: packet_wire_def)

lemma le_bytes_2: "le_bytes 2 k = [of_nat (k mod 256), of_nat (k div 256 mod 256)]"
  by (simp add: numeral_2_eq_2)

lemma le_bytes_4:
  "le_bytes 4 k = [of_nat (k mod 256), of_nat (k div 256 mod 256),
     of_nat (k div 65536 mod 256), of_nat (k div 16777216 mod 256)]"
proof -
  have four: "(4 :: nat) = Suc (Suc (Suc (Suc 0)))" by simp
  show ?thesis
    unfolding four le_bytes.simps by (simp add: div_mult2_eq [symmetric])
qed

text \<open>The bytes the sources compute with shifts and masks.\<close>

lemma u16_bytes:
  "le_bytes 2 (unat (v :: u16)) = [ucast (v AND 0xFF), ucast (drop_bit 8 v AND 0xFF)]"
  using low_byte_eq0 [of v] low_byte_eq [of 8 v] by (simp add: le_bytes_2)

lemma u32_bytes:
  "le_bytes 4 (unat (v :: u32)) =
     [ucast (v AND 0xFF), ucast (drop_bit 8 v AND 0xFF), ucast (drop_bit 16 v AND 0xFF),
      ucast (drop_bit 24 v AND 0xFF)]"
  using low_byte_eq0 [of v] low_byte_eq [of 8 v] low_byte_eq [of 16 v] low_byte_eq [of 24 v]
  by (simp add: le_bytes_4)

lemma zero_bytes: "le_bytes 4 0 = [0, 0, 0, 0]"
  by (simp add: le_bytes_4)

text \<open>Reading fields back from the first bytes of a packet.\<close>

lemma nth_eight:
  "([a, b, c, d, e, f, g, h] @ r) ! 0 = a" "([a, b, c, d, e, f, g, h] @ r) ! 1 = b"
  "([a, b, c, d, e, f, g, h] @ r) ! 2 = c" "([a, b, c, d, e, f, g, h] @ r) ! 3 = d"
  "([a, b, c, d, e, f, g, h] @ r) ! 4 = e" "([a, b, c, d, e, f, g, h] @ r) ! 5 = f"
  "([a, b, c, d, e, f, g, h] @ r) ! 6 = g" "([a, b, c, d, e, f, g, h] @ r) ! 7 = h"
  by simp_all

lemma header_wire_eight:
  "header_wire k l s =
     [of_nat (unat BT_USB_MAGIC mod 256), of_nat (unat BT_USB_MAGIC div 256 mod 256),
      BT_USB_PROTOCOL_VERSION, k, of_nat (unat l mod 256), of_nat (unat l div 256 mod 256),
      of_nat (unat s mod 256), of_nat (unat s div 256 mod 256)] @ le_bytes 4 0"
  by (simp only: header_wire_def le_bytes_2 append_Cons append_Nil)

lemma header_wire_nths:
  "header_wire k l s ! 0 = of_nat (unat BT_USB_MAGIC mod 256)"
  "header_wire k l s ! 1 = of_nat (unat BT_USB_MAGIC div 256 mod 256)"
  "header_wire k l s ! 2 = BT_USB_PROTOCOL_VERSION"
  "header_wire k l s ! 3 = k"
  "header_wire k l s ! 4 = of_nat (unat l mod 256)"
  "header_wire k l s ! 5 = of_nat (unat l div 256 mod 256)"
  "header_wire k l s ! 6 = of_nat (unat s mod 256)"
  "header_wire k l s ! 7 = of_nat (unat s div 256 mod 256)"
  by (simp_all only: header_wire_eight nth_eight)

lemma body_wire_eight:
  "body_wire c ch pa pl =
     [of_nat (unat c mod 256), of_nat (unat c div 256 mod 256),
      of_nat (unat ch mod 256), of_nat (unat ch div 256 mod 256),
      of_nat (unat pa mod 256), of_nat (unat pa div 256 mod 256),
      of_nat (unat pa div 65536 mod 256), of_nat (unat pa div 16777216 mod 256)] @ pl"
  by (simp only: body_wire_def le_bytes_2 le_bytes_4 append_Cons append_Nil)

lemma body_wire_nths:
  "body_wire c ch pa pl ! 0 = of_nat (unat c mod 256)"
  "body_wire c ch pa pl ! 1 = of_nat (unat c div 256 mod 256)"
  "body_wire c ch pa pl ! 2 = of_nat (unat ch mod 256)"
  "body_wire c ch pa pl ! 3 = of_nat (unat ch div 256 mod 256)"
  "body_wire c ch pa pl ! 4 = of_nat (unat pa mod 256)"
  "body_wire c ch pa pl ! 5 = of_nat (unat pa div 256 mod 256)"
  "body_wire c ch pa pl ! 6 = of_nat (unat pa div 65536 mod 256)"
  "body_wire c ch pa pl ! 7 = of_nat (unat pa div 16777216 mod 256)"
  by (simp_all only: body_wire_eight nth_eight)

lemma le_nat_u16_bytes:
  "le_nat [of_nat (unat (w :: u16) mod 256), of_nat (unat w div 256 mod 256)] = unat w"
proof -
  have "le_nat (le_bytes 2 (unat w)) = unat w"
    using unsigned_less [of w] by (intro le_nat_le_bytes) simp
  then show ?thesis by (simp only: le_bytes_2)
qed

lemma le_nat_u32_bytes:
  "le_nat [of_nat (unat (w :: u32) mod 256), of_nat (unat w div 256 mod 256),
     of_nat (unat w div 65536 mod 256), of_nat (unat w div 16777216 mod 256)] = unat w"
proof -
  have "le_nat (le_bytes 4 (unat w)) = unat w"
    using unsigned_less [of w] by (intro le_nat_le_bytes) simp
  then show ?thesis by (simp only: le_bytes_4)
qed

lemma take_eq_nth: "take n m = bs \<Longrightarrow> n \<le> length m \<Longrightarrow> i < n \<Longrightarrow> m ! i = bs ! i"
  by (metis nth_take)

text \<open>The fields of a buffer that starts with a packet.\<close>

definition header_fields :: "byte list \<Rightarrow> u16 \<times> u16 \<times> u16" where
  "header_fields m =
     (ucast (m ! 3), of_nat (le_nat [m ! 4, m ! 5]), of_nat (le_nat [m ! 6, m ! 7]))"

definition body_fields :: "byte list \<Rightarrow> u16 \<times> u16 \<times> u32" where
  "body_fields m =
     (of_nat (le_nat [m ! 12, m ! 13]), of_nat (le_nat [m ! 14, m ! 15]),
      of_nat (le_nat [m ! 16, m ! 17, m ! 18, m ! 19]))"

lemma packet_body_fields:
  assumes "take (20 + length pl) m = packet_wire kind seq (body_wire c ch pa pl)"
    and "20 + length pl \<le> length m"
  shows "body_fields m = (c, ch, pa)"
proof -
  have n: "m ! (12 + i) = body_wire c ch pa pl ! i" if "i < 8" for i
    using take_eq_nth [OF assms(1,2), of "12 + i"] that
    by (simp add: packet_wire_def nth_append)
  have b: "m ! 12 = body_wire c ch pa pl ! 0" "m ! 13 = body_wire c ch pa pl ! 1"
    "m ! 14 = body_wire c ch pa pl ! 2" "m ! 15 = body_wire c ch pa pl ! 3"
    "m ! 16 = body_wire c ch pa pl ! 4" "m ! 17 = body_wire c ch pa pl ! 5"
    "m ! 18 = body_wire c ch pa pl ! 6" "m ! 19 = body_wire c ch pa pl ! 7"
    using n [of 0] n [of 1] n [of 2] n [of 3] n [of 4] n [of 5] n [of 6] n [of 7] by simp_all
  show ?thesis
    by (simp only: body_fields_def b body_wire_nths le_nat_u16_bytes le_nat_u32_bytes of_nat_unat
        ucast_id)
qed

lemma le_nat2_less: "le_nat [a, b] < 65536"
  using le_nat_bound [of "[a, b]"] by simp


lemma unat_le_nat2: "unat (of_nat (le_nat [a, b]) :: u16) = le_nat [a, b]"
  using le_nat2_less [of a b] by (intro unat_of_nat_id) simp


lemma of_nat_le_nat2_eq_iff:
  "(of_nat (le_nat [a, b]) :: u16) = w \<longleftrightarrow> le_nat [a, b] = unat w"
  by (metis unat_le_nat2 word_unat_eq_iff)


lemma header_ok_lengths:
  "header_ok (take len m) \<Longrightarrow> len \<le> length m \<Longrightarrow> 12 + le_nat [m ! 4, m ! 5] \<le> len"
proof -
  assume h: "header_ok (take len m)" and len: "len \<le> length m"
  from h len have "12 \<le> len"
    by (simp add: header_ok_def BT_USB_HEADER_SIZE_def)
  with h len show ?thesis
    by (simp add: header_ok_def BT_USB_HEADER_SIZE_def)
qed


lemma packet_header_ok:
  assumes "take (12 + length b) m = packet_wire kind seq b" and "length b < 2 ^ 16"
    and "12 + length b \<le> len" and "len \<le> length m"
  shows "header_ok (take len m)" and "m ! 3 = kind" and "le_nat [m ! 4, m ! 5] = length b"
    and "header_fields m = (ucast kind, of_nat (length b), seq)"
proof -
  have n: "m ! i = header_wire kind (of_nat (length b)) seq ! i" if "i < 12" for i
    using take_eq_nth [OF assms(1), of i] assms(3,4) that
    by (simp add: packet_wire_def nth_append)
  have len: "unat (of_nat (length b) :: u16) = length b"
    using assms(2) by (intro unat_of_nat_id) simp
  have one_less_numeral: "(1 :: nat) < 12" by simp
  have magic: "le_nat [m ! 0, m ! 1] = unat BT_USB_MAGIC"
    by (simp only: n [of 0, simplified] n [of 1, OF one_less_numeral] header_wire_nths
        le_nat_u16_bytes)
  have k: "m ! 2 = BT_USB_PROTOCOL_VERSION" "m ! 3 = kind"
    by (simp_all add: n header_wire_nths)
  have l: "le_nat [m ! 4, m ! 5] = length b"
    by (simp only: n header_wire_nths le_nat_u16_bytes numeral_less_iff semiring_norm)
      (rule len)
  have s: "le_nat [m ! 6, m ! 7] = unat seq"
    by (simp only: n header_wire_nths le_nat_u16_bytes numeral_less_iff semiring_norm)
  show "m ! 3 = kind" and "le_nat [m ! 4, m ! 5] = length b"
    by (fact k(2)) (fact l)
  show "header_fields m = (ucast kind, of_nat (length b), seq)"
    by (simp only: header_fields_def k l s of_nat_unat ucast_id)
  show "header_ok (take len m)"
    using magic k l assms(3,4)
    by (simp add: header_ok_def BT_USB_HEADER_SIZE_def del: le_nat.simps)
qed

end
