(* ===== verification/LinkInterface.thy ===== *)
theory LinkInterface
  imports UsbProtocol
begin

text \<open>
  The contract of the two ends of the USB link, as locales. An encoder of messages (commands or
  events) turns a code, a channel, a parameter and a payload into a packet at the start of the
  caller's buffer; a decoder recovers the three fields from any buffer that starts with such a
  packet. The firmware and the host provide encoders and decoders; a pair of them is a link, on
  which the round trip is proved once.
\<close>

locale message_encoder =
  fixes enc :: "byte list \<Rightarrow> nat \<Rightarrow> 'c \<Rightarrow> u16 \<Rightarrow> u32 \<Rightarrow> byte list \<Rightarrow> u16 \<Rightarrow> (nat \<times> byte list) option"
    and code :: "'c \<Rightarrow> u16"
    and kind :: u8
    and max_payload :: nat
  assumes max_payload_le: "max_payload \<le> 256"
    and enc_wire: "length pl \<le> max_payload \<Longrightarrow> 20 + length pl \<le> cap \<Longrightarrow> cap \<le> length m \<Longrightarrow>
      enc m cap c ch pa pl seq =
        Some (20 + length pl, patch m 0 (packet_wire kind seq (body_wire (code c) ch pa pl)))"
    and enc_reject: "length pl < 2 ^ 16 \<Longrightarrow> max_payload < length pl \<or> cap < 20 + length pl \<Longrightarrow>
      enc m cap c ch pa pl seq = None"
begin

lemma enc_Some_iff:
  assumes "cap \<le> length m" and "length pl < 2 ^ 16"
  shows "(\<exists>n m'. enc m cap c ch pa pl seq = Some (n, m')) \<longleftrightarrow>
         length pl \<le> max_payload \<and> 20 + length pl \<le> cap"
proof (cases "length pl \<le> max_payload \<and> 20 + length pl \<le> cap")
  case True
  then show ?thesis using assms enc_wire by auto
next
  case False
  then show ?thesis using assms(2) enc_reject [of pl cap m c ch pa seq] by auto
qed

lemma enc_prefix:
  assumes "length pl \<le> max_payload" and "20 + length pl \<le> cap" and "cap \<le> length m"
    and "enc m cap c ch pa pl seq = Some (n, m')"
  shows "take n m' = packet_wire kind seq (body_wire (code c) ch pa pl)" and "n \<le> cap"
    and "length m' = length m"
  using assms enc_wire [OF assms(1-3), of c ch pa seq]
    patch_prefix [of "packet_wire kind seq (body_wire (code c) ch pa pl)" m]
  by (auto simp: length_patch)

end

locale message_decoder =
  fixes dec :: "byte list \<Rightarrow> nat \<Rightarrow> (u16 \<times> u16 \<times> u32) option"
    and kind :: u8
  assumes dec_wire: "length pl \<le> 256 \<Longrightarrow> len \<le> length m \<Longrightarrow> 20 + length pl \<le> len \<Longrightarrow>
      take (20 + length pl) m = packet_wire kind seq (body_wire c ch pa pl) \<Longrightarrow>
      dec m len = Some (c, ch, pa)"

locale message_link =
  message_encoder enc code kind max_payload + message_decoder dec kind
  for enc :: "byte list \<Rightarrow> nat \<Rightarrow> 'c \<Rightarrow> u16 \<Rightarrow> u32 \<Rightarrow> byte list \<Rightarrow> u16 \<Rightarrow> (nat \<times> byte list) option"
    and code kind max_payload dec
begin

lemma roundtrip:
  assumes "cap \<le> length m" and "length pl < 2 ^ 16"
    and "enc m cap c ch pa pl seq = Some (n, m')"
  shows "dec m' n = Some (code c, ch, pa)"
proof -
  have b: "length pl \<le> max_payload" "20 + length pl \<le> cap"
    using assms enc_Some_iff [OF assms(1,2), of c ch pa seq] by auto
  have n: "n = 20 + length pl"
    using assms(3) enc_wire [OF b assms(1), of c ch pa seq] by simp
  have "take n m' = packet_wire kind seq (body_wire (code c) ch pa pl)" "n \<le> cap"
    "length m' = length m"
    using enc_prefix [OF b assms(1) assms(3)] by auto
  then show ?thesis
    using b assms(1) max_payload_le n
    by (intro dec_wire [where pl = pl and seq = seq]) simp_all
qed

end

end
