(* ===== verification/FwProtocol.thy ===== *)
theory FwProtocol
  imports LinkInterface
begin

text \<open>
  \<^verbatim>\<open>firmware/src/protocol/usb_protocol_handler.c\<close>, the device side of the link. A pointer
  argument is an \<open>option\<close>: \<open>None\<close> is NULL, \<open>Some m\<close> a pointer to an object with the bytes \<open>m\<close>;
  \<open>cap\<close> is the capacity the caller claims. Builders return the code's integer and the buffer.
\<close>

section \<open>Little-endian accessors\<close>

definition put_u16 :: "byte list \<Rightarrow> nat \<Rightarrow> u16 \<Rightarrow> byte list res" where
  "put_u16 m p v =
     bindr (store m p (ucast (v AND 0xFF))) (\<lambda>m.
     store m (p + 1) (ucast (drop_bit 8 v AND 0xFF)))"

definition put_u32 :: "byte list \<Rightarrow> nat \<Rightarrow> u32 \<Rightarrow> byte list res" where
  "put_u32 m p v =
     bindr (store m p (ucast (v AND 0xFF))) (\<lambda>m.
     bindr (store m (p + 1) (ucast (drop_bit 8 v AND 0xFF))) (\<lambda>m.
     bindr (store m (p + 2) (ucast (drop_bit 16 v AND 0xFF))) (\<lambda>m.
     store m (p + 3) (ucast (drop_bit 24 v AND 0xFF)))))"

definition get_u16 :: "byte list \<Rightarrow> nat \<Rightarrow> u16 res" where
  "get_u16 m p =
     bindr (load m p) (\<lambda>a. bindr (load m (p + 1)) (\<lambda>b.
     Inr (ucast (ucast a OR push_bit 8 (ucast b) :: u32))))"

definition get_u32 :: "byte list \<Rightarrow> nat \<Rightarrow> u32 res" where
  "get_u32 m p =
     bindr (load m p) (\<lambda>a. bindr (load m (p + 1)) (\<lambda>b.
     bindr (load m (p + 2)) (\<lambda>c. bindr (load m (p + 3)) (\<lambda>d.
     Inr (((ucast a OR push_bit 8 (ucast b)) OR push_bit 16 (ucast c)) OR
          push_bit 24 (ucast d))))))"

definition fw_header_fill :: "byte list \<Rightarrow> u8 \<Rightarrow> u16 \<Rightarrow> u16 \<Rightarrow> byte list res" where
  "fw_header_fill buf kind len seq =
     bindr (put_u16 buf 0 BT_USB_MAGIC) (\<lambda>buf.
     bindr (store buf 2 BT_USB_PROTOCOL_VERSION) (\<lambda>buf.
     bindr (store buf 3 kind) (\<lambda>buf.
     bindr (put_u16 buf 4 len) (\<lambda>buf.
     bindr (put_u16 buf 6 seq) (\<lambda>buf.
     put_u32 buf 8 0)))))"

section \<open>Builders\<close>

definition usb_protocol_build_data ::
  "nat \<Rightarrow> byte list option \<Rightarrow> nat \<Rightarrow> byte list option \<Rightarrow> u8 \<Rightarrow> u16 \<Rightarrow>
   (int \<times> byte list option) res" where
  "usb_protocol_build_data e buf cap frames frame_count seq =
     (let frame_bytes = unat frame_count * sizeof_frame e in
      case (buf, frames) of
        (Some m, Some src) \<Rightarrow>
          if frame_count = 0 \<or> unat frame_count > BT_USB_FRAMES_PER_PACKET then Inr (-1, buf)
          else let total = BT_USB_HEADER_SIZE + frame_bytes in
            if total > cap then Inr (-1, buf)
            else
              bindr (fw_header_fill m BT_PKT_DATA (of_nat frame_bytes) seq) (\<lambda>m.
              bindr (copy_loop frame_bytes 0 m BT_USB_HEADER_SIZE src) (\<lambda>m.
              Inr (int total, Some m)))
      | _ \<Rightarrow> Inr (-1, buf))"

definition usb_protocol_build_cmd ::
  "byte list option \<Rightarrow> nat \<Rightarrow> bt_usb_cmd \<Rightarrow> u16 \<Rightarrow> u32 \<Rightarrow> byte list option \<Rightarrow> u16 \<Rightarrow> u16 \<Rightarrow>
   (int \<times> byte list option) res" where
  "usb_protocol_build_cmd buf cap cmd channel param payload plen seq =
     (case buf of
        None \<Rightarrow> Inr (-1, None)
      | Some m \<Rightarrow>
          if unat plen > BT_USB_CMD_PAYLOAD_MAX then Inr (-1, buf)
          else let total = BT_USB_HEADER_SIZE + 8 + unat plen; p = BT_USB_HEADER_SIZE in
            if total > cap then Inr (-1, buf)
            else
              bindr (fw_header_fill m BT_PKT_CMD (8 + plen) seq) (\<lambda>m.
              bindr (put_u16 m (p + 0) (cmd_code cmd)) (\<lambda>m.
              bindr (put_u16 m (p + 2) channel) (\<lambda>m.
              bindr (put_u32 m (p + 4) param) (\<lambda>m.
              bindr (case payload of
                       Some src \<Rightarrow> if plen > 0 then copy_loop (unat plen) 0 m (p + 8) src else Inr m
                     | None \<Rightarrow> Inr m) (\<lambda>m.
              Inr (int total, Some m)))))))"

definition usb_protocol_build_evt ::
  "byte list option \<Rightarrow> nat \<Rightarrow> bt_usb_evt \<Rightarrow> u16 \<Rightarrow> u32 \<Rightarrow> byte list option \<Rightarrow> u16 \<Rightarrow> u16 \<Rightarrow>
   (int \<times> byte list option) res" where
  "usb_protocol_build_evt buf cap evt channel param payload plen seq =
     (case buf of
        None \<Rightarrow> Inr (-1, None)
      | Some m \<Rightarrow>
          if unat plen > BT_EVT_PAYLOAD_MAX then Inr (-1, buf)
          else let total = BT_USB_HEADER_SIZE + 8 + unat plen; p = BT_USB_HEADER_SIZE in
            if total > cap then Inr (-1, buf)
            else
              bindr (fw_header_fill m BT_PKT_EVT (8 + plen) seq) (\<lambda>m.
              bindr (put_u16 m (p + 0) (evt_code evt)) (\<lambda>m.
              bindr (put_u16 m (p + 2) channel) (\<lambda>m.
              bindr (put_u32 m (p + 4) param) (\<lambda>m.
              bindr (case payload of
                       Some src \<Rightarrow> if plen > 0 then copy_loop (unat plen) 0 m (p + 8) src else Inr m
                     | None \<Rightarrow> Inr m) (\<lambda>m.
              Inr (int total, Some m)))))))"

section \<open>Parser and dispatcher\<close>

text \<open>
  The three out-parameters of the parser: the header object (if \<open>hdr\<close> is not NULL), the offset of
  the payload pointer in the buffer and the payload length, the last two set on success only and
  only if the caller passed a place for them.
\<close>

record parse_out =
  po_ret :: int
  po_hdr :: "bt_usb_header option"
  po_payload :: "nat option"
  po_plen :: "nat option"

definition usb_protocol_parse ::
  "byte list option \<Rightarrow> nat \<Rightarrow> bt_usb_header option \<Rightarrow> bool \<Rightarrow> bool \<Rightarrow> parse_out res" where
  "usb_protocol_parse buf len hdr want_payload want_len =
     (case (buf, hdr) of
        (Some m, Some h) \<Rightarrow>
          if len < BT_USB_HEADER_SIZE
          then Inr \<lparr>po_ret = -1, po_hdr = hdr, po_payload = None, po_plen = None\<rparr>
          else
            bindr (get_u16 m 0) (\<lambda>magic.
            bindr (load m 2) (\<lambda>version.
            bindr (load m 3) (\<lambda>kind.
            bindr (get_u16 m 4) (\<lambda>len'.
            bindr (get_u16 m 6) (\<lambda>seq.
            bindr (get_u32 m 8) (\<lambda>reserved.
            let h' = \<lparr>h_magic = magic, h_version = version, h_kind = kind, h_length = len',
                      h_seq = seq, h_reserved = reserved\<rparr>;
                fail = \<lparr>po_ret = -1, po_hdr = Some h', po_payload = None, po_plen = None\<rparr>
            in if h_magic h' \<noteq> BT_USB_MAGIC \<or> h_version h' \<noteq> BT_USB_PROTOCOL_VERSION
               then Inr fail
               else if unat (h_length h') + BT_USB_HEADER_SIZE > len then Inr fail
               else Inr \<lparr>po_ret = 0, po_hdr = Some h',
                         po_payload = (if want_payload then Some BT_USB_HEADER_SIZE else None),
                         po_plen = (if want_len then Some (unat (h_length h')) else None)\<rparr>))))))
      | _ \<Rightarrow> Inr \<lparr>po_ret = -1, po_hdr = hdr, po_payload = None, po_plen = None\<rparr>)"

definition uninit_header :: bt_usb_header where
  "uninit_header = \<lparr>h_magic = 0, h_version = 0, h_kind = 0, h_length = 0, h_seq = 0,
     h_reserved = 0\<rparr>"

definition usb_protocol_handle_cmd :: "byte list option \<Rightarrow> nat \<Rightarrow> int res" where
  "usb_protocol_handle_cmd pkt len =
     bindr (usb_protocol_parse pkt len (Some uninit_header) True True) (\<lambda>out.
       case (po_hdr out, po_plen out) of
         (Some h, Some plen) \<Rightarrow>
           if po_ret out \<noteq> 0 \<or> h_kind h \<noteq> BT_PKT_CMD then Inr (-1)
           else if plen < 8 then Inr (-1)
           else Inr 0
       | _ \<Rightarrow> Inr (-1))"

section \<open>What the accessors do to a buffer\<close>

lemma put_u16_patch [mem_simps]:
  assumes "k = off + length bs" and "k + 2 \<le> length m"
  shows "put_u16 (patch m off bs) k v = Inr (patch m off (bs @ le_bytes 2 (unat v)))"
proof -
  have "store (patch m off bs) k x = Inr (patch m off (bs @ [x]))"
    and "store (patch m off (bs @ [x])) (k + 1) y = Inr (patch m off ((bs @ [x]) @ [y]))" for x y
    using assms by (intro store_patch_next; simp)+
  then show ?thesis
    by (simp only: put_u16_def u16_bytes bindr.simps append_assoc append_Cons append_Nil)
qed

lemma put_u32_patch [mem_simps]:
  assumes "k = off + length bs" and "k + 4 \<le> length m"
  shows "put_u32 (patch m off bs) k v = Inr (patch m off (bs @ le_bytes 4 (unat v)))"
proof -
  have "store (patch m off bs) k x = Inr (patch m off (bs @ [x]))"
    and "store (patch m off (bs @ [x])) (k + 1) y = Inr (patch m off (bs @ [x, y]))"
    and "store (patch m off (bs @ [x, y])) (k + 2) z = Inr (patch m off (bs @ [x, y, z]))"
    and "store (patch m off (bs @ [x, y, z])) (k + 3) w = Inr (patch m off (bs @ [x, y, z, w]))"
    for x y z w
    using assms store_patch_next [of "k + 1" off "bs @ [x]" m y]
      store_patch_next [of "k + 2" off "bs @ [x, y]" m z]
      store_patch_next [of "k + 3" off "bs @ [x, y, z]" m w]
    by (simp_all add: store_patch_next)
  then show ?thesis
    by (simp only: put_u32_def u32_bytes bindr.simps)
qed

lemma put_u16_start: "2 \<le> length m \<Longrightarrow> put_u16 m 0 v = Inr (patch m 0 (le_bytes 2 (unat v)))"
  using put_u16_patch [of 0 0 "[]" m v] by simp

lemma fw_header_fill_wire:
  "12 \<le> length m \<Longrightarrow> fw_header_fill m kind len seq = Inr (patch m 0 (header_wire kind len seq))"
  by (simp add: fw_header_fill_def put_u16_start mem_simps header_wire_def)

text \<open>The code of the message fields after the header, shared by both message builders.\<close>

lemma fw_body_fill_wire:
  assumes "20 + unat plen \<le> length m"
    and "\<And>src. payload = Some src \<Longrightarrow> unat plen \<le> length src" and "off = 20"
  shows "bindr (put_u16 (patch m 0 (header_wire k l s)) 12 code) (\<lambda>m.
         bindr (put_u16 m 14 channel) (\<lambda>m.
         bindr (put_u32 m 16 param) (\<lambda>m.
         bindr (case payload of
                  Some src \<Rightarrow> if plen > 0 then copy_loop (unat plen) 0 m off src else Inr m
                | None \<Rightarrow> Inr m) f)))
       = f (patch m 0 (header_wire k l s @ body_wire code channel param
              (case payload of Some src \<Rightarrow> take (unat plen) src | None \<Rightarrow> [])))"
proof (cases payload)
  case None
  with assms show ?thesis
    by (simp add: mem_simps body_wire_def)
next
  case (Some src)
  show ?thesis
  proof (cases "plen = 0")
    case True
    with assms Some show ?thesis
      by (simp add: mem_simps body_wire_def)
  next
    case False
    then have pos: "0 < plen" by (simp add: word_gt_0)
    have "copy_loop (unat plen) 0 (patch m 0 (header_wire k l s @ le_bytes 2 (unat code) @
            le_bytes 2 (unat channel) @ le_bytes 4 (unat param))) 20 src
        = Inr (patch m 0 ((header_wire k l s @ le_bytes 2 (unat code) @ le_bytes 2 (unat channel) @
            le_bytes 4 (unat param)) @ take (unat plen) (drop 0 src)))"
      using assms Some by (intro copy_loop_patch) auto
    with assms Some pos show ?thesis
      by (simp add: mem_simps body_wire_def)
  qed
qed

section \<open>What the builders leave in the buffer\<close>

lemma u16_add_8: "(8 + plen :: u16) = of_nat (8 + unat plen)"
  by simp

lemma build_cmd_spec:
  assumes "cap \<le> length m" and "\<And>src. payload = Some src \<Longrightarrow> unat plen \<le> length src"
  shows "usb_protocol_build_cmd (Some m) cap cmd ch pa payload plen seq
       = Inr (if 256 < unat plen \<or> cap < 20 + unat plen then (-1, Some m)
              else (20 + int (unat plen), Some (patch m 0
                (header_wire BT_PKT_CMD (of_nat (8 + unat plen)) seq @
                 body_wire (cmd_code cmd) ch pa
                   (case payload of Some src \<Rightarrow> take (unat plen) src | None \<Rightarrow> [])))))"
proof (cases "256 < unat plen \<or> cap < 20 + unat plen")
  case True
  then show ?thesis
    by (auto simp: usb_protocol_build_cmd_def BT_USB_HEADER_SIZE_def BT_USB_CMD_PAYLOAD_MAX_def)
next
  case False
  then have "20 + unat plen \<le> length m" using assms(1) by simp
  then show ?thesis
    using False fw_body_fill_wire [OF _ assms(2), where off = "12 + 8" and m = m and k = BT_PKT_CMD
      and l = "8 + plen" and s = seq and code = "cmd_code cmd" and channel = ch and param = pa]
    by (simp add: usb_protocol_build_cmd_def BT_USB_HEADER_SIZE_def BT_USB_CMD_PAYLOAD_MAX_def
        fw_header_fill_wire)
qed

lemma build_evt_spec:
  assumes "cap \<le> length m" and "\<And>src. payload = Some src \<Longrightarrow> unat plen \<le> length src"
  shows "usb_protocol_build_evt (Some m) cap evt ch pa payload plen seq
       = Inr (if 64 < unat plen \<or> cap < 20 + unat plen then (-1, Some m)
              else (20 + int (unat plen), Some (patch m 0
                (header_wire BT_PKT_EVT (of_nat (8 + unat plen)) seq @
                 body_wire (evt_code evt) ch pa
                   (case payload of Some src \<Rightarrow> take (unat plen) src | None \<Rightarrow> [])))))"
proof (cases "64 < unat plen \<or> cap < 20 + unat plen")
  case True
  then show ?thesis
    by (auto simp: usb_protocol_build_evt_def BT_USB_HEADER_SIZE_def BT_EVT_PAYLOAD_MAX_def)
next
  case False
  then have "20 + unat plen \<le> length m" using assms(1) by simp
  then show ?thesis
    using False fw_body_fill_wire [OF _ assms(2), where off = "12 + 8" and m = m and k = BT_PKT_EVT
      and l = "8 + plen" and s = seq and code = "evt_code evt" and channel = ch and param = pa]
    by (simp add: usb_protocol_build_evt_def BT_USB_HEADER_SIZE_def BT_EVT_PAYLOAD_MAX_def
        fw_header_fill_wire)
qed

lemma build_data_spec:
  assumes "cap \<le> length m" and "unat n * sizeof_frame e \<le> length src"
  shows "usb_protocol_build_data e (Some m) cap (Some src) n seq
       = Inr (if n = 0 \<or> 16 < unat n \<or> cap < 12 + unat n * sizeof_frame e then (-1, Some m)
              else (12 + int (unat n * sizeof_frame e), Some (patch m 0
                (packet_wire BT_PKT_DATA seq (take (unat n * sizeof_frame e) src)))))"
proof (cases "n = 0 \<or> 16 < unat n \<or> cap < 12 + unat n * sizeof_frame e")
  case True
  then show ?thesis
    by (auto simp: usb_protocol_build_data_def BT_USB_HEADER_SIZE_def
        BT_USB_FRAMES_PER_PACKET_def Let_def)
next
  case False
  let ?k = "unat n * sizeof_frame e"
  have "copy_loop ?k 0 (patch m 0 (header_wire BT_PKT_DATA (of_nat ?k) seq)) 12 src
      = Inr (patch m 0 (header_wire BT_PKT_DATA (of_nat ?k) seq @ take ?k (drop 0 src)))"
    using False assms by (intro copy_loop_patch) auto
  then show ?thesis
    using False assms
    by (simp add: usb_protocol_build_data_def BT_USB_HEADER_SIZE_def BT_USB_FRAMES_PER_PACKET_def
        fw_header_fill_wire packet_wire_def min_def)
qed

section \<open>The parser and the dispatcher on any bytes\<close>

lemma get_u16_nth: "p + 1 < length m \<Longrightarrow> get_u16 m p = Inr (of_nat (le_nat [m ! p, m ! (p + 1)]))"
  by (simp add: get_u16_def load_def get16_bits del: le_nat.simps)

lemma get_u32_nth:
  "p + 3 < length m \<Longrightarrow>
   get_u32 m p = Inr (of_nat (le_nat [m ! p, m ! (p + 1), m ! (p + 2), m ! (p + 3)]))"
  by (simp add: get_u32_def load_def get32_bits del: le_nat.simps)

definition header_of :: "byte list \<Rightarrow> bt_usb_header" where
  "header_of m =
     \<lparr>h_magic = of_nat (le_nat [m ! 0, m ! 1]), h_version = m ! 2, h_kind = m ! 3,
      h_length = of_nat (le_nat [m ! 4, m ! 5]), h_seq = of_nat (le_nat [m ! 6, m ! 7]),
      h_reserved = of_nat (le_nat [m ! 8, m ! 9, m ! 10, m ! 11])\<rparr>"

lemma parse_spec:
  assumes "len \<le> length m"
  shows "usb_protocol_parse (Some m) len (Some h) wp wl
       = Inr (if len < 12
              then \<lparr>po_ret = -1, po_hdr = Some h, po_payload = None, po_plen = None\<rparr>
              else if header_ok (take len m)
              then \<lparr>po_ret = 0, po_hdr = Some (header_of m),
                    po_payload = (if wp then Some 12 else None),
                    po_plen = (if wl then Some (le_nat [m ! 4, m ! 5]) else None)\<rparr>
              else \<lparr>po_ret = -1, po_hdr = Some (header_of m), po_payload = None, po_plen = None\<rparr>)"
proof (cases "len < 12")
  case True
  then show ?thesis
    by (simp add: usb_protocol_parse_def BT_USB_HEADER_SIZE_def)
next
  case False
  with assms have g:
    "get_u16 m 0 = Inr (of_nat (le_nat [m ! 0, m ! 1]))"
    "get_u16 m 4 = Inr (of_nat (le_nat [m ! 4, m ! 5]))"
    "get_u16 m 6 = Inr (of_nat (le_nat [m ! 6, m ! 7]))"
    "get_u32 m 8 = Inr (of_nat (le_nat [m ! 8, m ! 9, m ! 10, m ! 11]))"
    "load m 2 = Inr (m ! 2)" "load m 3 = Inr (m ! 3)"
    using get_u16_nth [of 0 m] get_u16_nth [of 4 m] get_u16_nth [of 6 m] get_u32_nth [of 8 m]
    by (simp_all add: load_def del: le_nat.simps)
  from False assms show ?thesis
    by (simp add: usb_protocol_parse_def BT_USB_HEADER_SIZE_def g header_ok_def header_of_def
        Let_def of_nat_le_nat2_eq_iff unat_le_nat2 add.commute
        del: le_nat.simps of_nat_add of_nat_mult)
qed

lemma handle_cmd_spec:
  assumes "len \<le> length m"
  shows "usb_protocol_handle_cmd (Some m) len
       = Inr (if header_ok (take len m) \<and> m ! 3 = BT_PKT_CMD \<and> 8 \<le> le_nat [m ! 4, m ! 5]
              then 0 else -1)"
proof (cases "len < 12")
  case True
  then show ?thesis
    using assms
    by (simp add: usb_protocol_handle_cmd_def parse_spec header_ok_def BT_USB_HEADER_SIZE_def)
next
  case False
  then show ?thesis
    using assms
    by (simp add: usb_protocol_handle_cmd_def parse_spec header_of_def del: le_nat.simps)
qed

end
