(* ===== verification/HostCodec.thy ===== *)
theory HostCodec
  imports LinkInterface
begin

text \<open>
  \<^verbatim>\<open>software/src/protocol/usb/usb_frame_codec.cpp\<close>, the PC side of the link. Encoders return the
  number of bytes written (zero on invalid input) and the buffer; decoders return what they store
  through their out-parameters (a caller that passes a null pointer ignores that component).
\<close>

section \<open>Encoding\<close>

definition host_header_fill ::
  "byte list option \<Rightarrow> nat \<Rightarrow> u8 \<Rightarrow> u16 \<Rightarrow> u16 \<Rightarrow> (bool \<times> byte list option) res" where
  "host_header_fill buf cap kind len seq =
     (case buf of
        None \<Rightarrow> Inr (False, buf)
      | Some m \<Rightarrow>
          if cap < BT_USB_HEADER_SIZE then Inr (False, buf)
          else
            bindr (store m 0 (ucast (BT_USB_MAGIC AND 0xFF))) (\<lambda>m.
            bindr (store m 1 (ucast (drop_bit 8 BT_USB_MAGIC AND 0xFF))) (\<lambda>m.
            bindr (store m 2 BT_USB_PROTOCOL_VERSION) (\<lambda>m.
            bindr (store m 3 kind) (\<lambda>m.
            bindr (store m 4 (ucast (len AND 0xFF))) (\<lambda>m.
            bindr (store m 5 (ucast (drop_bit 8 len AND 0xFF))) (\<lambda>m.
            bindr (store m 6 (ucast (seq AND 0xFF))) (\<lambda>m.
            bindr (store m 7 (ucast (drop_bit 8 seq AND 0xFF))) (\<lambda>m.
            bindr (store m 8 0) (\<lambda>m.
            bindr (store m 9 0) (\<lambda>m.
            bindr (store m 10 0) (\<lambda>m.
            bindr (store m 11 0) (\<lambda>m. Inr (True, Some m))))))))))))))"

definition encode_8_plus_payload ::
  "byte list option \<Rightarrow> nat \<Rightarrow> u8 \<Rightarrow> u16 \<Rightarrow> u16 \<Rightarrow> u32 \<Rightarrow> byte list option \<Rightarrow> nat \<Rightarrow> u16 \<Rightarrow>
   (nat \<times> byte list option) res" where
  "encode_8_plus_payload buf cap kind type_field channel param payload payload_len seq =
     (if buf = None \<or> payload_len > BT_USB_CMD_PAYLOAD_MAX then Inr (0, buf)
      else let plen = payload_len; total = BT_USB_HEADER_SIZE + 8 + plen; p = BT_USB_HEADER_SIZE in
        if total > cap then Inr (0, buf)
        else
          bindr (host_header_fill buf cap kind (of_nat (8 + plen)) seq) (\<lambda>(ok, buf).
          case buf of
            None \<Rightarrow> Inr (0, buf)
          | Some m \<Rightarrow>
              if \<not> ok then Inr (0, buf)
              else
                bindr (store m (p + 0) (ucast (type_field AND 0xFF))) (\<lambda>m.
                bindr (store m (p + 1) (ucast (drop_bit 8 type_field AND 0xFF))) (\<lambda>m.
                bindr (store m (p + 2) (ucast (channel AND 0xFF))) (\<lambda>m.
                bindr (store m (p + 3) (ucast (drop_bit 8 channel AND 0xFF))) (\<lambda>m.
                bindr (store m (p + 4) (ucast (param AND 0xFF))) (\<lambda>m.
                bindr (store m (p + 5) (ucast (drop_bit 8 param AND 0xFF))) (\<lambda>m.
                bindr (store m (p + 6) (ucast (drop_bit 16 param AND 0xFF))) (\<lambda>m.
                bindr (store m (p + 7) (ucast (drop_bit 24 param AND 0xFF))) (\<lambda>m.
                bindr (case payload of
                         Some src \<Rightarrow> if plen > 0 then memcpy_at m (p + 8) src plen else Inr m
                       | None \<Rightarrow> Inr m) (\<lambda>m.
                Inr (total, Some m))))))))))))"

definition encode_cmd where
  "encode_cmd buf cap cmd channel param payload payload_len seq =
     encode_8_plus_payload buf cap BT_PKT_CMD cmd channel param payload payload_len seq"

definition encode_evt where
  "encode_evt buf cap evt channel param payload payload_len seq =
     encode_8_plus_payload buf cap BT_PKT_EVT evt channel param payload payload_len seq"

definition encode_data ::
  "nat \<Rightarrow> byte list option \<Rightarrow> nat \<Rightarrow> byte list option \<Rightarrow> nat \<Rightarrow> u16 \<Rightarrow>
   (nat \<times> byte list option) res" where
  "encode_data e buf cap frames frame_count seq =
     (case (buf, frames) of
        (Some m0, Some src) \<Rightarrow>
          if frame_count = 0 \<or> frame_count > BT_USB_FRAMES_PER_PACKET then Inr (0, buf)
          else let frame_bytes = frame_count * sizeof_frame e;
                   total = BT_USB_HEADER_SIZE + frame_bytes in
            if total > cap then Inr (0, buf)
            else
              bindr (host_header_fill buf cap BT_PKT_DATA (of_nat frame_bytes) seq) (\<lambda>(ok, buf).
              case buf of
                None \<Rightarrow> Inr (0, buf)
              | Some m \<Rightarrow>
                  if \<not> ok then Inr (0, buf)
                  else bindr (memcpy_at m BT_USB_HEADER_SIZE src frame_bytes) (\<lambda>m.
                       Inr (total, Some m)))
      | _ \<Rightarrow> Inr (0, buf))"

section \<open>Decoding\<close>

text \<open>\<open>Some (kind, length, seq)\<close> is the return value \<^verbatim>\<open>true\<close> with its out-parameters.\<close>

definition parse_header :: "byte list option \<Rightarrow> nat \<Rightarrow> (u16 \<times> u16 \<times> u16) option res" where
  "parse_header buf len =
     (case buf of
        None \<Rightarrow> Inr None
      | Some m \<Rightarrow>
          if len < BT_USB_HEADER_SIZE then Inr None
          else
            bindr (load m 0) (\<lambda>b0. bindr (load m 1) (\<lambda>b1.
            bindr (load m 2) (\<lambda>version. bindr (load m 3) (\<lambda>b3.
            bindr (load m 4) (\<lambda>b4. bindr (load m 5) (\<lambda>b5.
            bindr (load m 6) (\<lambda>b6. bindr (load m 7) (\<lambda>b7.
            let magic = ucast (ucast b0 OR push_bit 8 (ucast b1) :: u32) :: u16;
                k = ucast b3 :: u16;
                l = ucast (ucast b4 OR push_bit 8 (ucast b5) :: u32) :: u16;
                s = ucast (ucast b6 OR push_bit 8 (ucast b7) :: u32) :: u16
            in if magic \<noteq> BT_USB_MAGIC \<or> version \<noteq> BT_USB_PROTOCOL_VERSION then Inr None
               else if unat l + BT_USB_HEADER_SIZE > len then Inr None
               else Inr (Some (k, l, s)))))))))))"

text \<open>\<open>out\<close> is the memory of the caller's frame array; the result holds count, array and seq.\<close>

definition decode_data ::
  "nat \<Rightarrow> byte list option \<Rightarrow> nat \<Rightarrow> byte list option \<Rightarrow> nat \<Rightarrow>
   (nat \<times> byte list option \<times> u16 option) res" where
  "decode_data e buf len out max_frames =
     (case (buf, out) of
        (Some m, Some dst) \<Rightarrow>
          if max_frames = 0 then Inr (0, out, None)
          else
            bindr (parse_header buf len) (\<lambda>r.
            case r of
              None \<Rightarrow> Inr (0, out, None)
            | Some (kind, length', pkt_seq) \<Rightarrow>
                if kind \<noteq> ucast BT_PKT_DATA then Inr (0, out, None)
                else if unat length' mod sizeof_frame e \<noteq> 0 then Inr (0, out, None)
                else let count = unat length' div sizeof_frame e in
                  if count = 0 \<or> count > max_frames then Inr (0, out, None)
                  else bindr (memcpy_at dst 0 (drop BT_USB_HEADER_SIZE m) (count * sizeof_frame e))
                         (\<lambda>dst. Inr (count, Some dst, Some pkt_seq)))
      | _ \<Rightarrow> Inr (0, out, None))"

text \<open>The two message decoders have the same body up to the packet kind.\<close>

definition decode_message :: "u8 \<Rightarrow> byte list option \<Rightarrow> nat \<Rightarrow> (u16 \<times> u16 \<times> u32) option res" where
  "decode_message want buf len =
     (case buf of
        None \<Rightarrow> Inr None
      | Some m \<Rightarrow>
          if len < BT_USB_HEADER_SIZE + 8 then Inr None
          else
            bindr (parse_header buf len) (\<lambda>r.
            case r of
              None \<Rightarrow> Inr None
            | Some (kind, length', _) \<Rightarrow>
                if kind \<noteq> ucast want then Inr None
                else if length' < 8 \<or> unat length' + BT_USB_HEADER_SIZE > len then Inr None
                else let p = BT_USB_HEADER_SIZE in
                  bindr (load m (p + 0)) (\<lambda>p0. bindr (load m (p + 1)) (\<lambda>p1.
                  bindr (load m (p + 2)) (\<lambda>p2. bindr (load m (p + 3)) (\<lambda>p3.
                  bindr (load m (p + 4)) (\<lambda>p4. bindr (load m (p + 5)) (\<lambda>p5.
                  bindr (load m (p + 6)) (\<lambda>p6. bindr (load m (p + 7)) (\<lambda>p7.
                  Inr (Some (ucast (ucast p0 OR push_bit 8 (ucast p1) :: u32),
                    ucast (ucast p2 OR push_bit 8 (ucast p3) :: u32),
                    ((ucast p4 OR push_bit 8 (ucast p5)) OR push_bit 16 (ucast p6)) OR
                      push_bit 24 (ucast p7)))))))))))))"

definition decode_cmd :: "byte list option \<Rightarrow> nat \<Rightarrow> (u16 \<times> u16 \<times> u32) option res" where
  "decode_cmd buf len = decode_message BT_PKT_CMD buf len"

definition decode_evt :: "byte list option \<Rightarrow> nat \<Rightarrow> (u16 \<times> u16 \<times> u32) option res" where
  "decode_evt buf len = decode_message BT_PKT_EVT buf len"

section \<open>What the encoders leave in the buffer\<close>

lemma host_header_fill_wire:
  assumes "12 \<le> cap" and "cap \<le> length m"
  shows "host_header_fill (Some m) cap kind len seq
       = Inr (True, Some (patch m 0 (header_wire kind len seq)))"
proof -
  have st: "store (patch m 0 bs) k b = Inr (patch m 0 (bs @ [b]))"
    if "length bs = k" "k < 12" for bs k b
    using that assms by (intro store_patch_next) auto
  have "host_header_fill (Some (patch m 0 [])) cap kind len seq
      = Inr (True, Some (patch m 0 (header_wire kind len seq)))"
    using assms(1)
    by (simp add: host_header_fill_def st BT_USB_HEADER_SIZE_def header_wire_def u16_bytes zero_bytes
        del: patch_Nil)
  then show ?thesis by simp
qed

lemma encode_8_spec:
  assumes "cap \<le> length m" and "\<And>src. payload = Some src \<Longrightarrow> n \<le> length src"
  shows "encode_8_plus_payload (Some m) cap kind c ch pa payload n seq
       = Inr (if 256 < n \<or> cap < 20 + n then (0, Some m)
              else (20 + n, Some (patch m 0
                (header_wire kind (of_nat (8 + n)) seq @
                 body_wire c ch pa (case payload of Some src \<Rightarrow> take n src | None \<Rightarrow> [])))))"
proof (cases "256 < n \<or> cap < 20 + n")
  case True
  then show ?thesis
    by (auto simp: encode_8_plus_payload_def BT_USB_HEADER_SIZE_def BT_USB_CMD_PAYLOAD_MAX_def)
next
  case False
  let ?h = "header_wire kind (of_nat (8 + n)) seq"
  have st: "store (patch m 0 bs) k b = Inr (patch m 0 (bs @ [b]))"
    if "length bs = k" "k < 20" for bs k b
    using that False assms(1) by (intro store_patch_next) auto
  have mc: "memcpy_at (patch m 0 bs) 20 src n = Inr (patch m 0 (bs @ take n src))"
    if "length bs = 20" "n \<le> length src" for bs src
    using that False assms(1) by (intro memcpy_patch_next) auto
  have "host_header_fill (Some m) cap kind (of_nat (8 + n)) seq = Inr (True, Some (patch m 0 ?h))"
    using False assms(1) by (intro host_header_fill_wire) auto
  then show ?thesis
    using False assms
    by (cases payload)
       (simp_all add: encode_8_plus_payload_def Let_def st mc BT_USB_HEADER_SIZE_def
        BT_USB_CMD_PAYLOAD_MAX_def body_wire_def u16_bytes u32_bytes)
qed

lemma encode_8_wire:
  assumes "n \<le> 256" and "20 + n \<le> cap" and "cap \<le> length m" and "n \<le> length src"
  shows "encode_8_plus_payload (Some m) cap kind c ch pa (Some src) n seq
       = Inr (20 + n, Some (patch m 0 (packet_wire kind seq (body_wire c ch pa (take n src)))))"
proof -
  have "min (length src) n = n" using assms(4) by simp
  with assms show ?thesis
    using encode_8_spec [OF assms(3), of "Some src" n kind c ch pa seq]
    by (simp add: packet_wire_def)
qed

lemma encode_8_reject:
  "256 < n \<or> cap < 20 + n \<Longrightarrow> encode_8_plus_payload buf cap kind c ch pa payload n seq = Inr (0, buf)"
  by (cases buf) (auto simp: encode_8_plus_payload_def Let_def BT_USB_HEADER_SIZE_def
      BT_USB_CMD_PAYLOAD_MAX_def)

section \<open>The decoders on packets\<close>

lemma get16_nths:
  "p + 1 < length m \<Longrightarrow>
   bindr (load m p) (\<lambda>a. bindr (load m (p + 1)) (\<lambda>b. f a b)) = f (m ! p) (m ! (p + 1))"
  by (simp add: load_def)

text \<open>The header parser on any bytes: it never leaves the buffer and accepts exactly packets.\<close>

lemma parse_header_spec:
  assumes "len \<le> length m"
  shows "parse_header (Some m) len
       = Inr (if header_ok (take len m) then Some (header_fields m) else None)"
proof (cases "len < 12")
  case True
  then show ?thesis
    by (simp add: parse_header_def header_ok_def BT_USB_HEADER_SIZE_def)
next
  case False
  with assms have "\<And>i. i < 12 \<Longrightarrow> load m i = Inr (m ! i)"
    by (simp add: load_def)
  with False assms show ?thesis
    by (simp only: parse_header_def header_ok_def BT_USB_HEADER_SIZE_def option.case bindr.simps
        get16_bits Let_def of_nat_le_nat2_eq_iff unat_le_nat2 header_fields_def)
       (simp add: min_def)
qed

lemma ucast_byte_eq_iff: "(ucast (a :: byte) :: u16) = ucast b \<longleftrightarrow> a = b"
  using unat_ucast_byte [where 'a = 16, of a] unat_ucast_byte [where 'a = 16, of b]
  by (auto simp: word_unat_eq_iff)

lemma of_nat_le_nat2_less_8: "(of_nat (le_nat [a, b]) :: u16) < 8 \<longleftrightarrow> le_nat [a, b] < 8"
proof -
  have "unat (8 :: u16) = 8" by simp
  then show ?thesis by (simp only: word_less_nat_alt unat_le_nat2)
qed

lemma decode_message_spec:
  assumes "len \<le> length m"
  shows "decode_message want (Some m) len
       = Inr (if 20 \<le> len \<and> header_ok (take len m) \<and> m ! 3 = want \<and> 8 \<le> le_nat [m ! 4, m ! 5]
              then Some (body_fields m) else None)"
proof (cases "20 \<le> len \<and> header_ok (take len m)")
  case False
  then show ?thesis
    using parse_header_spec [OF assms]
    by (auto simp: decode_message_def BT_USB_HEADER_SIZE_def)
next
  case True
  with assms have ld: "\<And>i. i < 20 \<Longrightarrow> load m i = Inr (m ! i)"
    by (simp add: load_def)
  have "12 + le_nat [m ! 4, m ! 5] \<le> len"
    using True assms header_ok_lengths by blast
  moreover have "parse_header (Some m) len = Inr (Some (header_fields m))"
    using True parse_header_spec [OF assms] by simp
  ultimately show ?thesis
    using True
    by (simp add: decode_message_def BT_USB_HEADER_SIZE_def header_fields_def ucast_byte_eq_iff
        of_nat_le_nat2_less_8 unat_le_nat2 ld get16_bits get32_bits body_fields_def Let_def
        del: le_nat.simps of_nat_add of_nat_mult)
qed

text \<open>Packets on the wire: what the fields of the buffer are.\<close>

lemma decode_message_wire:
  assumes "length pl \<le> 256" and "len \<le> length m" and "20 + length pl \<le> len"
    and "take (20 + length pl) m = packet_wire kind seq (body_wire c ch pa pl)"
  shows "decode_message kind (Some m) len = Inr (Some (c, ch, pa))"
proof -
  have t: "take (12 + length (body_wire c ch pa pl)) m
         = packet_wire kind seq (body_wire c ch pa pl)"
    using assms(4) by simp
  have "header_ok (take len m)" "m ! 3 = kind" "le_nat [m ! 4, m ! 5] = 8 + length pl"
    using packet_header_ok [OF t, of len] assms(1-3) by auto
  moreover have "body_fields m = (c, ch, pa)"
    using assms by (intro packet_body_fields) auto
  ultimately show ?thesis
    using assms by (simp add: decode_message_spec del: le_nat.simps)
qed

lemma encode_data_spec:
  assumes "cap \<le> length m" and "n * sizeof_frame e \<le> length src"
  shows "encode_data e (Some m) cap (Some src) n seq
       = Inr (if n = 0 \<or> 16 < n \<or> cap < 12 + n * sizeof_frame e then (0, Some m)
              else (12 + n * sizeof_frame e, Some (patch m 0
                (packet_wire BT_PKT_DATA seq (take (n * sizeof_frame e) src)))))"
proof (cases "n = 0 \<or> 16 < n \<or> cap < 12 + n * sizeof_frame e")
  case True
  then show ?thesis
    by (auto simp: encode_data_def Let_def BT_USB_HEADER_SIZE_def BT_USB_FRAMES_PER_PACKET_def)
next
  case False
  let ?k = "n * sizeof_frame e"
  have "memcpy_at (patch m 0 (header_wire BT_PKT_DATA (of_nat ?k) seq)) 12 src ?k
      = Inr (patch m 0 (header_wire BT_PKT_DATA (of_nat ?k) seq @ take ?k src))"
    using False assms by (intro memcpy_patch_next) auto
  then show ?thesis
    using False assms
    by (simp add: encode_data_def Let_def BT_USB_HEADER_SIZE_def BT_USB_FRAMES_PER_PACKET_def
        host_header_fill_wire packet_wire_def min_def)
qed

text \<open>Decoding a data packet whose body has \<open>length b\<close> bytes: count, copied bytes, sequence.\<close>

lemma decode_data_wire:
  assumes "take (12 + length b) m = packet_wire BT_PKT_DATA seq b" and "length b < 2 ^ 16"
    and "12 + length b \<le> len" and "len \<le> length m"
    and "max_frames * sizeof_frame e \<le> length dst"
  shows "decode_data e (Some m) len (Some dst) max_frames
       = Inr (if length b mod sizeof_frame e = 0 \<and> length b div sizeof_frame e \<noteq> 0 \<and>
                 length b div sizeof_frame e \<le> max_frames
              then (length b div sizeof_frame e, Some (b @ drop (length b) dst), Some seq)
              else (0, Some dst, None))"
proof -
  have "header_ok (take len m)" "header_fields m = (ucast BT_PKT_DATA, of_nat (length b), seq)"
    using packet_header_ok [OF assms(1-4)] by auto
  then have ph: "parse_header (Some m) len = Inr (Some (ucast BT_PKT_DATA, of_nat (length b), seq))"
    using parse_header_spec [OF assms(4)] by simp
  have len: "unat (of_nat (length b) :: u16) = length b"
    using assms(2) by (intro unat_of_nat_id) simp
  have body: "take (length b) (drop 12 m) = b"
    using arg_cong [OF assms(1), of "drop 12"] by (simp add: packet_wire_def drop_take)
  show ?thesis
  proof (cases "length b mod sizeof_frame e = 0 \<and> length b div sizeof_frame e \<le> max_frames")
    case True
    then have k: "length b div sizeof_frame e * sizeof_frame e = length b"
      by auto
    then have "length b \<le> length dst"
      using True assms(5) by (metis le_trans mult_le_mono1)
    then show ?thesis
      using True assms(3,4) body
      by (simp add: decode_data_def ph len k memcpy_at_def Let_def BT_USB_HEADER_SIZE_def
          del: unat_of_nat)
  qed (auto simp: decode_data_def ph len Let_def simp del: unat_of_nat)
qed

section \<open>The host's links\<close>

definition host_sent :: "(nat \<times> byte list option) res \<Rightarrow> (nat \<times> byte list) option" where
  "host_sent r =
     (case r of Inr (n, Some m) \<Rightarrow> if n = 0 then None else Some (n, m) | _ \<Rightarrow> None)"

definition received :: "(u16 \<times> u16 \<times> u32) option res \<Rightarrow> (u16 \<times> u16 \<times> u32) option" where
  "received r = (case r of Inr x \<Rightarrow> x | Inl _ \<Rightarrow> None)"

interpretation host_cmd: message_link
  "\<lambda>m cap c ch pa pl seq. host_sent (encode_cmd (Some m) cap c ch pa (Some pl) (length pl) seq)"
  "\<lambda>c. c" BT_PKT_CMD 256 "\<lambda>m len. received (decode_cmd (Some m) len)"
proof unfold_locales
  show "host_sent (encode_cmd (Some m) cap c ch pa (Some pl) (length pl) seq)
      = Some (20 + length pl, patch m 0 (packet_wire BT_PKT_CMD seq (body_wire c ch pa pl)))"
    if "length pl \<le> 256" "20 + length pl \<le> cap" "cap \<le> length m" for pl cap m c ch pa seq
    using that by (simp add: encode_cmd_def encode_8_wire host_sent_def)
  show "host_sent (encode_cmd (Some m) cap c ch pa (Some pl) (length pl) seq) = None"
    if "256 < length pl \<or> cap < 20 + length pl" for pl cap m c ch pa seq
    using that by (simp add: encode_cmd_def encode_8_reject host_sent_def)
  show "received (decode_cmd (Some m) len) = Some (c, ch, pa)"
    if "length pl \<le> 256" "len \<le> length m" "20 + length pl \<le> len"
      "take (20 + length pl) m = packet_wire BT_PKT_CMD seq (body_wire c ch pa pl)"
    for pl len m seq c ch pa
    using decode_message_wire [OF that] by (simp add: decode_cmd_def received_def)
qed simp

interpretation host_evt: message_link
  "\<lambda>m cap c ch pa pl seq. host_sent (encode_evt (Some m) cap c ch pa (Some pl) (length pl) seq)"
  "\<lambda>c. c" BT_PKT_EVT 256 "\<lambda>m len. received (decode_evt (Some m) len)"
proof unfold_locales
  show "host_sent (encode_evt (Some m) cap c ch pa (Some pl) (length pl) seq)
      = Some (20 + length pl, patch m 0 (packet_wire BT_PKT_EVT seq (body_wire c ch pa pl)))"
    if "length pl \<le> 256" "20 + length pl \<le> cap" "cap \<le> length m" for pl cap m c ch pa seq
    using that by (simp add: encode_evt_def encode_8_wire host_sent_def)
  show "host_sent (encode_evt (Some m) cap c ch pa (Some pl) (length pl) seq) = None"
    if "256 < length pl \<or> cap < 20 + length pl" for pl cap m c ch pa seq
    using that by (simp add: encode_evt_def encode_8_reject host_sent_def)
  show "received (decode_evt (Some m) len) = Some (c, ch, pa)"
    if "length pl \<le> 256" "len \<le> length m" "20 + length pl \<le> len"
      "take (20 + length pl) m = packet_wire BT_PKT_EVT seq (body_wire c ch pa pl)"
    for pl len m seq c ch pa
    using decode_message_wire [OF that] by (simp add: decode_evt_def received_def)
qed simp

end
