(* ===== verification/UsbLink.thy ===== *)
theory UsbLink
  imports FwProtocol HostCodec
begin

text \<open>
  The two ends of the USB link together: the firmware's builders and the host's decoders as links
  of \<^verbatim>\<open>LinkInterface\<close>, and what holds of the wire format across them.
\<close>

section \<open>The firmware's messages, decoded by the host\<close>

definition fw_sent :: "(int \<times> byte list option) res \<Rightarrow> (nat \<times> byte list) option" where
  "fw_sent r =
     (case r of Inr (n, Some m) \<Rightarrow> if n < 0 then None else Some (nat n, m) | _ \<Rightarrow> None)"

lemma unat_of_nat_len: "length pl < 2 ^ 16 \<Longrightarrow> unat (of_nat (length pl) :: u16) = length pl"
  by (intro unat_of_nat_id) simp

interpretation fw_cmd: message_link
  "\<lambda>m cap c ch pa pl seq.
     fw_sent (usb_protocol_build_cmd (Some m) cap c ch pa (Some pl) (of_nat (length pl)) seq)"
  cmd_code BT_PKT_CMD 256 "\<lambda>m len. received (decode_cmd (Some m) len)"
proof unfold_locales
  show "fw_sent (usb_protocol_build_cmd (Some m) cap c ch pa (Some pl) (of_nat (length pl)) seq)
      = Some (20 + length pl, patch m 0 (packet_wire BT_PKT_CMD seq (body_wire (cmd_code c) ch pa pl)))"
    if "length pl \<le> 256" "20 + length pl \<le> cap" "cap \<le> length m" for pl cap m c ch pa seq
    using that build_cmd_spec [of cap m "Some pl" "of_nat (length pl)" c ch pa seq]
    by (simp add: unat_of_nat_len fw_sent_def packet_wire_def nat_add_distrib del: unat_of_nat)
  show "fw_sent (usb_protocol_build_cmd (Some m) cap c ch pa (Some pl) (of_nat (length pl)) seq) = None"
    if "length pl < 2 ^ 16" "256 < length pl \<or> cap < 20 + length pl" for pl cap m c ch pa seq
    using that unat_of_nat_len [of pl]
    by (auto simp: usb_protocol_build_cmd_def fw_sent_def BT_USB_HEADER_SIZE_def
        BT_USB_CMD_PAYLOAD_MAX_def Let_def simp del: unat_of_nat)
qed simp

interpretation fw_evt: message_link
  "\<lambda>m cap c ch pa pl seq.
     fw_sent (usb_protocol_build_evt (Some m) cap c ch pa (Some pl) (of_nat (length pl)) seq)"
  evt_code BT_PKT_EVT 64 "\<lambda>m len. received (decode_evt (Some m) len)"
proof unfold_locales
  show "fw_sent (usb_protocol_build_evt (Some m) cap c ch pa (Some pl) (of_nat (length pl)) seq)
      = Some (20 + length pl, patch m 0 (packet_wire BT_PKT_EVT seq (body_wire (evt_code c) ch pa pl)))"
    if "length pl \<le> 64" "20 + length pl \<le> cap" "cap \<le> length m" for pl cap m c ch pa seq
    using that build_evt_spec [of cap m "Some pl" "of_nat (length pl)" c ch pa seq]
    by (simp add: unat_of_nat_len fw_sent_def packet_wire_def nat_add_distrib del: unat_of_nat)
  show "fw_sent (usb_protocol_build_evt (Some m) cap c ch pa (Some pl) (of_nat (length pl)) seq) = None"
    if "length pl < 2 ^ 16" "64 < length pl \<or> cap < 20 + length pl" for pl cap m c ch pa seq
    using that unat_of_nat_len [of pl]
    by (auto simp: usb_protocol_build_evt_def fw_sent_def BT_USB_HEADER_SIZE_def
        BT_EVT_PAYLOAD_MAX_def Let_def simp del: unat_of_nat)
qed simp_all

lemma received_Some: "received r = Some x \<longleftrightarrow> r = Inr (Some x)"
  by (cases r) (auto simp: received_def)

lemma fw_sent_Some: "fw_sent r = Some (n, m) \<longleftrightarrow> r = Inr (int n, Some m)"
proof (cases r)
  case (Inr x)
  obtain k b where x: "x = (k, b)" by fastforce
  show ?thesis
    using Inr x by (cases b) (auto simp: fw_sent_def)
qed (simp add: fw_sent_def)

lemma host_sent_Some: "host_sent r = Some (n, m) \<longleftrightarrow> r = Inr (n, Some m) \<and> n \<noteq> 0"
proof (cases r)
  case (Inr x)
  obtain k b where x: "x = (k, b)" by fastforce
  show ?thesis
    using Inr x by (cases b) (auto simp: host_sent_def)
qed (simp add: host_sent_def)

text \<open>What the firmware parser and dispatcher see of a command packet.\<close>

lemma fw_accepts_command:
  assumes "length pl \<le> 256" and "20 + length pl \<le> len" and "len \<le> length m"
    and "take (20 + length pl) m = packet_wire BT_PKT_CMD seq (body_wire c ch pa pl)"
  shows "header_ok (take len m)" and "m ! 3 = BT_PKT_CMD"
    and "le_nat [m ! 4, m ! 5] = 8 + length pl" and "header_fields m = (ucast BT_PKT_CMD, of_nat (8 + length pl), seq)"
proof -
  have t: "take (12 + length (body_wire c ch pa pl)) m
         = packet_wire BT_PKT_CMD seq (body_wire c ch pa pl)"
    using assms(4) by simp
  show "header_ok (take len m)" "m ! 3 = BT_PKT_CMD" "le_nat [m ! 4, m ! 5] = 8 + length pl"
    "header_fields m = (ucast BT_PKT_CMD, of_nat (8 + length pl), seq)"
    using packet_header_ok [OF t, of len] assms(1-3) by auto
qed

lemma fw_handles_command:
  assumes "length pl \<le> 256" and "20 + length pl \<le> length m"
    and "take (20 + length pl) m = packet_wire BT_PKT_CMD seq (body_wire c ch pa pl)"
  shows "usb_protocol_handle_cmd (Some m) (20 + length pl) = Inr 0"
  using fw_accepts_command [OF assms(1) le_refl assms(2,3)] handle_cmd_spec [OF assms(2)]
  by (simp del: le_nat.simps)

section \<open>Properties of the link\<close>

text \<open>C12: An event the firmware builds within its limits arrives at the host unchanged: the builder
  returns the packet length, and the host decoder recovers event code, channel and parameter from
  exactly those bytes; the payload stands behind the twenty bytes of the two headers.\<close>

theorem fw_event_reaches_host:
  assumes "cap \<le> length m" and "length pl \<le> 64" and "20 + length pl \<le> cap"
  shows "\<exists>m'. usb_protocol_build_evt (Some m) cap evt ch pa (Some pl) (of_nat (length pl)) seq
               = Inr (20 + int (length pl), Some m') \<and>
             decode_evt (Some m') (20 + length pl) = Inr (Some (evt_code evt, ch, pa)) \<and>
             take (length pl) (drop 20 m') = pl"
proof -
  let ?m' = "patch m 0 (packet_wire BT_PKT_EVT seq (body_wire (evt_code evt) ch pa pl))"
  have e: "fw_sent (usb_protocol_build_evt (Some m) cap evt ch pa (Some pl) (of_nat (length pl)) seq)
         = Some (20 + length pl, ?m')"
    using assms by (intro fw_evt.enc_wire) auto
  have "received (decode_evt (Some ?m') (20 + length pl)) = Some (evt_code evt, ch, pa)"
    using assms e by (intro fw_evt.roundtrip [OF _ _ e]) auto
  moreover have "take (length pl) (drop 20 ?m') = pl"
    by (simp add: patch_def packet_wire_def body_wire_def)
  ultimately show ?thesis
    using e by (auto simp: received_Some fw_sent_Some)
qed

theorem fw_event_reaches_host_witness:
  "\<exists>m'. usb_protocol_build_evt (Some (replicate 32 0)) 32 BT_EVT_CAPTURE_OVERRUN 0xFFFF 12345
           (Some [1, 2]) (of_nat (length [1 :: byte, 2])) 9 = Inr (20 + int (length [1 :: byte, 2]), Some m') \<and>
         decode_evt (Some m') (20 + length [1 :: byte, 2])
           = Inr (Some (evt_code BT_EVT_CAPTURE_OVERRUN, 0xFFFF, 12345)) \<and>
         take (length [1 :: byte, 2]) (drop 20 m') = [1, 2]"
  by (rule fw_event_reaches_host) simp_all

text \<open>C13: A command the host encodes within its limits is accepted by the firmware: the parser
  returns success with the kind, the length and the sequence number the host sent and the payload
  region behind the header, and the dispatcher returns 0 for it. It does so for all 65536 command
  codes, and there the code departs from its header: \<^verbatim>\<open>usb_protocol_handler.h\<close> (lines 43 and 44)
  promises -1 for an unknown or invalid command, but the dispatcher never looks at the code, so a
  command that no constant of \<^verbatim>\<open>usb_protocol.h\<close> names is reported as handled too.\<close>

theorem host_command_reaches_fw:
  assumes "cap \<le> length m" and "length pl \<le> 256" and "20 + length pl \<le> cap"
  shows "\<exists>m' h. encode_cmd (Some m) cap cmd ch pa (Some pl) (length pl) seq
                 = Inr (20 + length pl, Some m') \<and>
             usb_protocol_parse (Some m') (20 + length pl) (Some h0) True True
               = Inr \<lparr>po_ret = 0, po_hdr = Some h, po_payload = Some 12,
                     po_plen = Some (8 + length pl)\<rparr> \<and>
             h_kind h = BT_PKT_CMD \<and> h_length h = of_nat (8 + length pl) \<and> h_seq h = seq \<and>
             usb_protocol_handle_cmd (Some m') (20 + length pl) = Inr 0"
proof -
  let ?m' = "patch m 0 (packet_wire BT_PKT_CMD seq (body_wire cmd ch pa pl))"
  have e: "host_sent (encode_cmd (Some m) cap cmd ch pa (Some pl) (length pl) seq)
         = Some (20 + length pl, ?m')"
    using assms by (intro host_cmd.enc_wire) auto
  have w: "take (20 + length pl) ?m' = packet_wire BT_PKT_CMD seq (body_wire cmd ch pa pl)"
    "length ?m' = length m"
    using host_cmd.enc_prefix [OF _ _ _ e] assms by auto
  have f: "header_ok (take (20 + length pl) ?m')" "?m' ! 3 = BT_PKT_CMD"
    "le_nat [?m' ! 4, ?m' ! 5] = 8 + length pl"
    "header_fields ?m' = (ucast BT_PKT_CMD, of_nat (8 + length pl), seq)"
    using fw_accepts_command [OF assms(2) le_refl _ w(1)] assms w(2) by auto
  have len: "20 + length pl \<le> length ?m'" using assms w(2) by simp
  show ?thesis
    using f e parse_spec [OF len, of h0 True True] handle_cmd_spec [OF len]
    by (intro exI [of _ ?m'] exI [of _ "header_of ?m'"])
       (simp add: host_sent_Some header_of_def header_fields_def del: le_nat.simps)
qed

theorem host_command_reaches_fw_witness:
  "\<exists>m' h. encode_cmd (Some (replicate 24 0)) 24 4 2 0x12345678
             (Some [0xAA, 0xBB, 0xCC, 0xDD]) (length [0xAA :: byte, 0xBB, 0xCC, 0xDD]) 7
             = Inr (20 + length [0xAA :: byte, 0xBB, 0xCC, 0xDD], Some m') \<and>
         usb_protocol_parse (Some m') (20 + length [0xAA :: byte, 0xBB, 0xCC, 0xDD])
             (Some uninit_header) True True
           = Inr \<lparr>po_ret = 0, po_hdr = Some h, po_payload = Some 12,
                 po_plen = Some (8 + length [0xAA :: byte, 0xBB, 0xCC, 0xDD])\<rparr> \<and>
         h_kind h = BT_PKT_CMD \<and>
         h_length h = of_nat (8 + length [0xAA :: byte, 0xBB, 0xCC, 0xDD]) \<and> h_seq h = 7 \<and>
         usb_protocol_handle_cmd (Some m') (20 + length [0xAA :: byte, 0xBB, 0xCC, 0xDD]) = Inr 0"
  by (rule host_command_reaches_fw) simp_all

text \<open>C15: Captured frames survive the link. For either layout of the frame structure (as long as
  both ends use the same one) and whatever the padding bytes hold, the host's decoder turns the
  packet the firmware builds from one to sixteen frames into the same frames, in order, and reports
  their number and the sequence number.\<close>

theorem frames_survive_link:
  assumes "e = 4 \<or> e = 1" and "\<forall>f\<in>set fs. wf_frame f" and "fs \<noteq> []" and "length fs \<le> 16"
    and "12 + length fs * sizeof_frame e \<le> cap" and "cap \<le> length m"
    and "length fs \<le> max_frames" and "max_frames * sizeof_frame e \<le> length dst"
  shows "\<exists>m' dst'.
    usb_protocol_build_data e (Some m) cap (Some (frames_repr e p fs)) (of_nat (length fs)) seq
      = Inr (12 + int (length fs * sizeof_frame e), Some m') \<and>
    decode_data e (Some m') (12 + length fs * sizeof_frame e) (Some dst) max_frames
      = Inr (length fs, Some dst', Some seq) \<and>
    frames_of_repr e (length fs) dst' = Inr fs"
proof -
  let ?n = "length fs" and ?r = "frames_repr e p fs"
  let ?m' = "patch m 0 (packet_wire BT_PKT_DATA seq ?r)"
  have n: "unat (of_nat ?n :: u8) = ?n"
    using assms(4) by (intro unat_of_nat_id) simp
  then have n0: "(of_nat ?n :: u8) \<noteq> 0"
    using assms(3) by (metis length_0_conv unat_0)
  have lr: "length ?r = ?n * sizeof_frame e"
    using assms(1,2) by (simp add: length_frames_repr)
  have b: "usb_protocol_build_data e (Some m) cap (Some ?r) (of_nat ?n) seq
         = Inr (12 + int (?n * sizeof_frame e), Some ?m')"
    using build_data_spec [OF assms(6), of "of_nat ?n" e ?r seq] assms n n0 lr
    by (simp del: unat_of_nat)
  have w: "take (12 + length ?r) ?m' = packet_wire BT_PKT_DATA seq ?r" and "length ?m' = length m"
    using assms lr patch_prefix [of "packet_wire BT_PKT_DATA seq ?r" m] by (auto simp: length_patch)
  moreover have "length ?r < 2 ^ 16"
    using lr frame_bytes_lt [OF assms(4,1)] by simp
  ultimately have "decode_data e (Some ?m') (12 + ?n * sizeof_frame e) (Some dst) max_frames
      = Inr (?n, Some (?r @ drop (length ?r) dst), Some seq)"
    using assms lr sizeof_frame_pos [OF assms(1)]
    by (subst decode_data_wire [OF w]) auto
  with b show ?thesis
    using frames_of_repr_frames_repr [OF assms(2,1)] by blast
qed

definition sample_frame_a :: bt_bus_frame where
  "sample_frame_a =
     \<lparr>f_timestamp = 1000, f_type = BT_BUS_CANFD, f_channel = 1, f_dir = BT_DIR_RX, f_id = 0x123,
      f_extended = 0, f_fd = 1, f_dlc = 8, f_data = replicate 64 7, f_status = BT_FRAME_OK\<rparr>"

lemma wf_sample_frame_a: "wf_frame sample_frame_a"
  by (simp add: wf_frame_def sample_frame_a_def BT_BUS_MAX_PAYLOAD_def)

theorem frames_survive_link_witness:
  "\<exists>m' dst'.
    usb_protocol_build_data 4 (Some (replicate 300 0)) 300
        (Some (frames_repr 4 (\<lambda>i. 0xFF) [sample_frame_a, sample_frame_a]))
        (of_nat (length [sample_frame_a, sample_frame_a])) 5
      = Inr (12 + int (length [sample_frame_a, sample_frame_a] * sizeof_frame 4), Some m') \<and>
    decode_data 4 (Some m') (12 + length [sample_frame_a, sample_frame_a] * sizeof_frame 4)
        (Some (replicate 1536 0)) 16
      = Inr (length [sample_frame_a, sample_frame_a], Some dst', Some 5) \<and>
    frames_of_repr 4 (length [sample_frame_a, sample_frame_a]) dst'
      = Inr [sample_frame_a, sample_frame_a]"
proof -
  have wf: "\<forall>f\<in>set [sample_frame_a, sample_frame_a]. wf_frame f"
    using wf_sample_frame_a by simp
  have sizes: "12 + length [sample_frame_a, sample_frame_a] * sizeof_frame 4 \<le> 300"
    "(300 :: nat) \<le> length (replicate 300 (0 :: byte))"
    "16 * sizeof_frame 4 \<le> length (replicate 1536 (0 :: byte))"
    "length [sample_frame_a, sample_frame_a] \<le> 16" "[sample_frame_a, sample_frame_a] \<noteq> []"
    "length [sample_frame_a, sample_frame_a] \<le> 16"
    by simp_all
  note t = frames_survive_link [of 4 "[sample_frame_a, sample_frame_a]" 300 "replicate 300 0" 16
      "replicate 1536 0" "\<lambda>i. 0xFF" 5, OF disjI1 [OF refl] wf sizes(5,4,1,2,6,3)]
  show ?thesis by (fact t)
qed

text \<open>C36: The two ends must be compiled with the same enumeration size. If the firmware uses
  one-byte enumerations (88-byte frames, the bare-metal ARM default) and the host four-byte ones
  (96-byte frames), the host accepts a data packet of the firmware only if it holds exactly twelve
  frames, and then reports eleven; every other packet is dropped as if it were empty.\<close>

theorem enum_size_mismatch:
  assumes "0 < n" and "n \<le> 16" and "12 + n * 88 \<le> cap" and "cap \<le> length m"
    and "n * 88 \<le> length src" and "max_frames * 96 \<le> length dst"
  shows "\<exists>m' dst' sq.
    usb_protocol_build_data 1 (Some m) cap (Some src) (of_nat n) seq
      = Inr (12 + int (n * 88), Some m') \<and>
    decode_data 4 (Some m') (12 + n * 88) (Some dst) max_frames
      = Inr (if n = 12 \<and> 11 \<le> max_frames then 11 else 0, Some dst', sq)"
proof -
  let ?b = "take (n * 88) src"
  let ?m' = "patch m 0 (packet_wire BT_PKT_DATA seq ?b)"
  have n: "unat (of_nat n :: u8) = n"
    using assms(2) by (intro unat_of_nat_id) simp
  then have n0: "(of_nat n :: u8) \<noteq> 0"
    using assms(1) by (metis less_irrefl unat_0)
  have lb: "length ?b = n * 88" using assms(5) by simp
  have b: "usb_protocol_build_data 1 (Some m) cap (Some src) (of_nat n) seq
         = Inr (12 + int (n * 88), Some ?m')"
    using build_data_spec [OF assms(4), of "of_nat n" 1 src seq] assms n n0
    by (simp del: unat_of_nat One_nat_def)
  have w: "take (12 + length ?b) ?m' = packet_wire BT_PKT_DATA seq ?b" and "length ?m' = length m"
    using assms lb patch_prefix [of "packet_wire BT_PKT_DATA seq ?b" m] by (auto simp: length_patch)
  moreover have "n * 88 mod 96 = 0 \<longleftrightarrow> n = 12"
  proof -
    have "list_all (\<lambda>k. k * 88 mod 96 = 0 \<longleftrightarrow> k = (12 :: nat)) [1..<17]"
      by code_simp
    then show ?thesis using assms(1,2) by (auto simp: list_all_iff)
  qed
  ultimately have "decode_data 4 (Some ?m') (12 + n * 88) (Some dst) max_frames
      = Inr (if n = 12 \<and> 11 \<le> max_frames
             then (11, Some (?b @ drop (length ?b) dst), Some seq) else (0, Some dst, None))"
    using assms lb by (subst decode_data_wire [OF w]) auto
  then show ?thesis
    using b by (cases "n = 12 \<and> 11 \<le> max_frames") auto
qed

theorem enum_size_mismatch_witness:
  "\<exists>m' dst' sq.
    usb_protocol_build_data 1 (Some (replicate 1600 0)) 1600 (Some (replicate 1408 0)) (of_nat 16) 3
      = Inr (12 + int (16 * 88), Some m') \<and>
    decode_data 4 (Some m') (12 + 16 * 88) (Some (replicate 1536 0)) 16
      = Inr (if (16 :: nat) = 12 \<and> 11 \<le> (16 :: nat) then 11 else 0, Some dst', sq)"
  by (rule enum_size_mismatch) simp_all

text \<open>C27: The two command encoders agree. On every input (null buffer, oversized payload, too
  small a buffer, null payload) the host's encoder leaves the same buffer as the firmware's and
  returns the same length, with zero in place of the firmware's minus one.\<close>

theorem cmd_encoders_agree:
  assumes "\<And>m. buf = Some m \<Longrightarrow> cap \<le> length m"
    and "\<And>src. payload = Some src \<Longrightarrow> unat plen \<le> length src"
  shows "encode_cmd buf cap (cmd_code cmd) ch pa payload (unat plen) seq
       = map_sum id (\<lambda>(n, b). (nat n, b)) (usb_protocol_build_cmd buf cap cmd ch pa payload plen seq)"
proof (cases buf)
  case None
  then show ?thesis
    by (simp add: encode_cmd_def encode_8_plus_payload_def usb_protocol_build_cmd_def)
next
  case (Some m)
  have len: "int (unat plen) + 20 = int (20 + unat plen)" by simp
  show ?thesis
    using assms Some
    by (simp add: encode_cmd_def encode_8_spec build_cmd_spec nat_add_distrib)
qed

theorem cmd_encoders_agree_witness:
  "encode_cmd (Some (replicate 40 0)) 40 (cmd_code BT_CMD_SET_FILTER) 1 2 (Some [9, 8, 7]) (unat (3 :: u16)) 5
   = map_sum id (\<lambda>(n, b). (nat n, b))
       (usb_protocol_build_cmd (Some (replicate 40 0)) 40 BT_CMD_SET_FILTER 1 2 (Some [9, 8, 7]) 3 5)"
  by (rule cmd_encoders_agree) auto

text \<open>C33: The two event encoders do not agree: the host accepts payloads of 65 to 256 bytes, which
  the firmware's encoder (and the event structure of the shared header) rejects. These are the only
  inputs they treat differently.\<close>

theorem evt_encoders_differ_iff:
  assumes "cap \<le> length m" and "\<And>src. payload = Some src \<Longrightarrow> unat plen \<le> length src"
  shows "encode_evt (Some m) cap (evt_code evt) ch pa payload (unat plen) seq
       = map_sum id (\<lambda>(n, b). (nat n, b)) (usb_protocol_build_evt (Some m) cap evt ch pa payload plen seq)
     \<longleftrightarrow> \<not> (64 < unat plen \<and> unat plen \<le> 256 \<and> 20 + unat plen \<le> cap)"
  using assms
  by (auto simp: encode_evt_def encode_8_spec build_evt_spec nat_add_distrib)

theorem evt_encoders_differ_iff_witness:
  "encode_evt (Some (replicate 300 0)) 300 (evt_code BT_EVT_DFU_STATUS) 1 2 (Some (replicate 65 1)) (unat (65 :: u16)) 5
   = map_sum id (\<lambda>(n, b). (nat n, b))
       (usb_protocol_build_evt (Some (replicate 300 0)) 300 BT_EVT_DFU_STATUS 1 2 (Some (replicate 65 1)) 65 5)
   \<longleftrightarrow> \<not> (64 < unat (65 :: u16) \<and> unat (65 :: u16) \<le> 256 \<and> 20 + unat (65 :: u16) \<le> 300)"
  by (rule evt_encoders_differ_iff) auto

definition writes_only :: "byte list \<Rightarrow> nat \<Rightarrow> (int \<times> byte list option) res \<Rightarrow> bool" where
  "writes_only m cap r \<longleftrightarrow>
     (case r of
        Inr (n, Some m') \<Rightarrow>
          length m' = length m \<and> n \<le> int cap \<and> (\<forall>i<length m. n \<le> int i \<longrightarrow> m' ! i = m ! i)
      | _ \<Rightarrow> False)"

lemma writes_only_patch:
  "length bs \<le> k \<Longrightarrow> k \<le> cap \<Longrightarrow> cap \<le> length m \<Longrightarrow> n = int k \<Longrightarrow>
   writes_only m cap (Inr (n, Some (patch m 0 bs)))"
  by (simp add: writes_only_def length_patch patch_nth_beyond)

lemma writes_only_refused: "writes_only m cap (Inr (-1, Some m))"
  by (simp add: writes_only_def)

text \<open>C35: The firmware's message builders are memory safe: with a capacity no larger than the buffer
  and a payload at least as long as announced, they never touch memory outside an object, keep the
  buffer's size, never report more than the capacity, and change no byte at or beyond the length
  they return (none at all when they refuse).\<close>

theorem fw_builders_memory_safe:
  assumes "cap \<le> length m" and "\<And>src. payload = Some src \<Longrightarrow> unat plen \<le> length src"
    and "unat n * sizeof_frame e \<le> length frames"
  shows "writes_only m cap (usb_protocol_build_cmd (Some m) cap cmd ch pa payload plen seq) \<and>
         writes_only m cap (usb_protocol_build_evt (Some m) cap evt ch pa payload plen seq) \<and>
         writes_only m cap (usb_protocol_build_data e (Some m) cap (Some frames) n seq)"
proof -
  have pl: "length (case payload of Some src \<Rightarrow> take (unat plen) src | None \<Rightarrow> []) \<le> unat plen"
    by (simp split: option.split)
  have msg: "writes_only m cap (Inr (if bad then (-1, Some m)
      else (20 + int (unat plen), Some (patch m 0 (header_wire k l seq @ body_wire c ch pa
        (case payload of Some src \<Rightarrow> take (unat plen) src | None \<Rightarrow> []))))))"
    if "\<not> bad \<Longrightarrow> 20 + unat plen \<le> cap" for bad k l c
    using that pl assms(1)
    by (auto simp: writes_only_refused intro!: writes_only_patch [where k = "20 + unat plen"])
  have "writes_only m cap (usb_protocol_build_cmd (Some m) cap cmd ch pa payload plen seq)"
    by (subst build_cmd_spec, rule assms(1), erule assms(2), rule msg, simp)
  moreover have "writes_only m cap (usb_protocol_build_evt (Some m) cap evt ch pa payload plen seq)"
    by (subst build_evt_spec, rule assms(1), erule assms(2), rule msg, simp)
  moreover have "writes_only m cap (usb_protocol_build_data e (Some m) cap (Some frames) n seq)"
    using assms(1,3)
    by (subst build_data_spec) (auto simp: writes_only_refused
        intro!: writes_only_patch [where k = "12 + unat n * sizeof_frame e"])
  ultimately show ?thesis by blast
qed

theorem fw_builders_memory_safe_witness:
  "writes_only (replicate 200 0) 200
     (usb_protocol_build_cmd (Some (replicate 200 0)) 200 BT_CMD_DFU_DATA 0 0 (Some [1, 2]) 2 0) \<and>
   writes_only (replicate 200 0) 200
     (usb_protocol_build_evt (Some (replicate 200 0)) 200 BT_EVT_DEVICE_ERROR 0 0 (Some [1, 2]) 2 0) \<and>
   writes_only (replicate 200 0) 200
     (usb_protocol_build_data 4 (Some (replicate 200 0)) 200 (Some (replicate 96 3)) 1 0)"
  by (rule fw_builders_memory_safe) auto

text \<open>C34: The firmware's parser is safe on hostile input: for any bytes received it reads inside the
  buffer only, accepts exactly the byte strings that start with the magic number, the version and a
  length that fits, and the payload region it reports lies inside the received bytes.\<close>

theorem fw_parser_sound:
  assumes "len \<le> length m"
  shows "\<exists>out. usb_protocol_parse (Some m) len (Some h) True True = Inr out \<and>
               (po_ret out = 0 \<longleftrightarrow> header_ok (take len m)) \<and>
               (case (po_payload out, po_plen out) of
                  (Some off, Some n) \<Rightarrow> po_ret out = 0 \<and> off + n \<le> len
                | _ \<Rightarrow> po_ret out = -1)"
proof (cases "header_ok (take len m)")
  case True
  then have "12 + le_nat [m ! 4, m ! 5] \<le> len" "\<not> len < 12"
    using header_ok_lengths [OF True assms] by auto
  then show ?thesis
    using True parse_spec [OF assms, of h True True] by (simp del: le_nat.simps)
next
  case False
  then show ?thesis
    using parse_spec [OF assms, of h True True] by (cases "len < 12") (simp_all del: le_nat.simps)
qed

theorem fw_parser_sound_witness:
  "\<exists>out. usb_protocol_parse (Some (replicate 14 0x42)) 13 (Some uninit_header) True True = Inr out \<and>
         (po_ret out = 0 \<longleftrightarrow> header_ok (take 13 (replicate 14 0x42))) \<and>
         (case (po_payload out, po_plen out) of
            (Some off, Some n) \<Rightarrow> po_ret out = 0 \<and> off + n \<le> 13
          | _ \<Rightarrow> po_ret out = -1)"
  by (rule fw_parser_sound) simp

text \<open>The two header parsers agree on every input: the host's returns a kind, a length and a
  sequence number exactly when the firmware's returns zero, and then the same ones.\<close>

theorem header_parsers_agree:
  assumes "len \<le> length m"
  shows "parse_header (Some m) len
       = map_sum id (\<lambda>out. if po_ret out = 0
                         then map_option (\<lambda>h. (ucast (h_kind h), h_length h, h_seq h)) (po_hdr out)
                         else None)
           (usb_protocol_parse (Some m) len (Some h0) wp wl)"
proof (cases "len < 12")
  case True
  then have "\<not> header_ok (take len m)"
    by (simp add: header_ok_def BT_USB_HEADER_SIZE_def)
  with True assms show ?thesis
    by (simp add: parse_header_spec parse_spec)
next
  case False
  with assms show ?thesis
    by (simp add: parse_header_spec parse_spec header_of_def header_fields_def del: le_nat.simps)
qed

theorem header_parsers_agree_witness:
  "parse_header (Some (replicate 14 0x42)) 13
   = map_sum id (\<lambda>out. if po_ret out = 0
                     then map_option (\<lambda>h. (ucast (h_kind h), h_length h, h_seq h)) (po_hdr out)
                     else None)
       (usb_protocol_parse (Some (replicate 14 0x42)) 13 (Some uninit_header) True True)"
  by (rule header_parsers_agree) simp

text \<open>No proper prefix of a message is taken for a message: if fewer bytes of a command arrive
  than its header announces, the firmware's dispatcher and the host's decoder both reject them.\<close>

theorem truncated_command_rejected:
  assumes "cap \<le> length m" and "length pl \<le> 256" and "20 + length pl \<le> cap"
    and "len < 20 + length pl"
  shows "\<exists>m'. encode_cmd (Some m) cap cmd ch pa (Some pl) (length pl) seq
               = Inr (20 + length pl, Some m') \<and>
             usb_protocol_handle_cmd (Some m') len = Inr (-1) \<and>
             decode_cmd (Some m') len = Inr None"
proof -
  let ?m' = "patch m 0 (packet_wire BT_PKT_CMD seq (body_wire cmd ch pa pl))"
  have e: "host_sent (encode_cmd (Some m) cap cmd ch pa (Some pl) (length pl) seq)
         = Some (20 + length pl, ?m')"
    using assms by (intro host_cmd.enc_wire) auto
  have w: "take (20 + length pl) ?m' = packet_wire BT_PKT_CMD seq (body_wire cmd ch pa pl)"
    "length ?m' = length m"
    using host_cmd.enc_prefix [OF _ _ _ e] assms by auto
  have l: "le_nat [?m' ! 4, ?m' ! 5] = 8 + length pl"
    using fw_accepts_command [OF assms(2) le_refl _ w(1)] assms w(2) by auto
  have len: "len \<le> length ?m'" using assms w(2) by simp
  have "\<not> header_ok (take len ?m')"
    using header_ok_lengths [OF _ len] l assms(4) by auto
  then show ?thesis
    using e handle_cmd_spec [OF len] decode_message_spec [OF len]
    by (auto simp: host_sent_Some decode_cmd_def)
qed

theorem truncated_command_rejected_witness:
  "\<exists>m'. encode_cmd (Some (replicate 30 0)) 30 5 1 2 (Some [1, 2, 3]) (length [1 :: byte, 2, 3]) 4
           = Inr (20 + length [1 :: byte, 2, 3], Some m') \<and>
         usb_protocol_handle_cmd (Some m') 22 = Inr (-1) \<and> decode_cmd (Some m') 22 = Inr None"
  by (rule truncated_command_rejected) simp_all

text \<open>The dispatcher does not look at the command code: overwriting the code field of any
  received packet with any other code never changes what it returns, so an unknown command is
  reported as handled.\<close>

theorem dispatcher_ignores_code:
  assumes "len \<le> length m"
  shows "usb_protocol_handle_cmd (Some (m[12 := a, 13 := b])) len
       = usb_protocol_handle_cmd (Some m) len"
proof -
  have "header_ok (take len (m[12 := a, 13 := b])) \<longleftrightarrow> header_ok (take len m)"
    by (simp add: header_ok_def BT_USB_HEADER_SIZE_def take_update_swap)
  then show ?thesis
    using assms handle_cmd_spec [of len m] handle_cmd_spec [of len "m[12 := a, 13 := b]"]
    by simp
qed

theorem dispatcher_ignores_code_witness:
  "usb_protocol_handle_cmd (Some ((packet_wire BT_PKT_CMD 0 (body_wire 1 0 0 []))[12 := 0xEE, 13 := 0xEE])) 20
   = usb_protocol_handle_cmd (Some (packet_wire BT_PKT_CMD 0 (body_wire 1 0 0 []))) 20"
  by (rule dispatcher_ignores_code) simp

end
