(* ===== verification/BusFrame.thy ===== *)
theory BusFrame
  imports BusTypes
begin

text \<open>
  \<^verbatim>\<open>software/src/core/bus_frame.cpp\<close>: the frame factory, the conversion of ticks to nanoseconds
  and the one-line trace of a frame, with the number formats of \<^verbatim>\<open>snprintf\<close> it uses.
\<close>

section \<open>The factory\<close>

definition zero_frame :: bt_bus_frame where
  "zero_frame =
     \<lparr>f_timestamp = 0, f_type = BT_BUS_UNKNOWN, f_channel = 0, f_dir = BT_DIR_RX, f_id = 0,
      f_extended = 0, f_fd = 0, f_dlc = 0, f_data = replicate 64 0, f_status = BT_FRAME_OK\<rparr>"

definition make_frame ::
  "bt_bus_type \<Rightarrow> u8 \<Rightarrow> bt_bus_direction \<Rightarrow> u32 \<Rightarrow> bool \<Rightarrow> bool \<Rightarrow> u8 \<Rightarrow> byte list option \<Rightarrow> u64 \<Rightarrow>
   bt_bus_frame res" where
  "make_frame type channel dir fid extended fd dlc data timestamp =
     (let f = zero_frame
        \<lparr>f_timestamp := timestamp, f_type := type, f_channel := channel, f_dir := dir, f_id := fid,
         f_extended := (if extended then 1 else 0), f_fd := (if fd then 1 else 0),
         f_dlc := (if unat dlc > BT_BUS_MAX_PAYLOAD then of_nat BT_BUS_MAX_PAYLOAD else dlc),
         f_status := BT_FRAME_OK\<rparr>
      in case data of
           Some src \<Rightarrow>
             if f_dlc f > 0
             then bindr (memcpy_at (f_data f) 0 src (unat (f_dlc f))) (\<lambda>d. Inr (f\<lparr>f_data := d\<rparr>))
             else Inr f
         | None \<Rightarrow> Inr f)"

definition timestamp_ns :: "bt_bus_frame \<Rightarrow> u64" where
  "timestamp_ns f = f_timestamp f * 100"

section \<open>Number formats\<close>

definition digit_char :: "nat \<Rightarrow> char" where
  "digit_char d = (if d < 10 then char_of (48 + d) else char_of (55 + d))"

text \<open>Digits of \<open>n\<close> to the base \<open>b\<close>, most significant first (\<^verbatim>\<open>%u\<close>, \<^verbatim>\<open>%llu\<close>, \<^verbatim>\<open>%X\<close>).\<close>

fun digits_base :: "nat \<Rightarrow> nat \<Rightarrow> string" where
  "digits_base b n =
     (if n < b \<or> b < 2 then [digit_char n]
      else digits_base b (n div b) @ [digit_char (n mod b)])"

declare digits_base.simps [simp del]

definition fmt_u :: "nat \<Rightarrow> string" where "fmt_u n = digits_base 10 n"
definition fmt_X :: "nat \<Rightarrow> string" where "fmt_X n = digits_base 16 n"

text \<open>Zero padding to a minimal width (\<^verbatim>\<open>%03llu\<close>, \<^verbatim>\<open>%02X\<close>).\<close>

definition pad0 :: "nat \<Rightarrow> string \<Rightarrow> string" where
  "pad0 w s = replicate (w - length s) (CHR ''0'') @ s"

section \<open>The trace line\<close>

definition frame_header_string :: "bt_bus_frame \<Rightarrow> string" where
  "frame_header_string f =
     ''['' @ fmt_u (unat (timestamp_ns f div 1000)) @ ''.'' @
     pad0 3 (fmt_u (unat (timestamp_ns f mod 1000))) @ '' us] '' @ bt_bus_type_str (f_type f) @
     '' ch'' @ fmt_u (unat (f_channel f)) @ '' '' @
     (if f_dir f = BT_DIR_RX then ''RX'' else ''TX'') @
     '' id=0x'' @ fmt_X (unat (f_id f)) @ '' ext='' @ fmt_u (unat (f_extended f)) @
     '' fd='' @ fmt_u (unat (f_fd f)) @ '' dlc='' @ fmt_u (unat (f_dlc f)) @
     '' st='' @ fmt_u (status_code (f_status f))"

text \<open>
  \<^verbatim>\<open>snprintf\<close> into a buffer of \<open>cap\<close> bytes returns the length of the whole text but stores at most
  \<open>cap - 1\<close> characters and a terminator; \<^verbatim>\<open>std::string(buf, n)\<close> then reads \<open>n\<close> bytes of the buffer.
\<close>

definition snprintf_string :: "nat \<Rightarrow> string \<Rightarrow> string res" where
  "snprintf_string cap s =
     (if length s < cap then Inr s
      else if length s = cap then Inr (take (cap - 1) s @ [CHR 0x00])
      else Inl OutOfBounds)"

text \<open>The loop \<^verbatim>\<open>for (i = 0; i < dlc; ++i) s += "%02X "\<close>; \<open>n\<close> counts the remaining rounds.\<close>

fun hex_loop :: "nat \<Rightarrow> nat \<Rightarrow> byte list \<Rightarrow> string \<Rightarrow> string res" where
  "hex_loop 0 i data s = Inr s"
| "hex_loop (Suc n) i data s =
     bindr (load data i) (\<lambda>b. hex_loop n (Suc i) data (s @ pad0 2 (fmt_X (unat b)) @ '' ''))"

definition frame_to_string :: "bt_bus_frame \<Rightarrow> string res" where
  "frame_to_string f =
     bindr (snprintf_string 256 (frame_header_string f)) (\<lambda>s.
     hex_loop (unat (f_dlc f)) 0 (f_data f) (s @ '' ''))"

section \<open>Lemmas\<close>

lemma make_frame_spec:
  assumes "\<And>src. data = Some src \<Longrightarrow> min (unat dlc) 64 \<le> length src"
  shows "make_frame type channel dir fid extended fd dlc data ts =
     Inr \<lparr>f_timestamp = ts, f_type = type, f_channel = channel, f_dir = dir, f_id = fid,
          f_extended = (if extended then 1 else 0), f_fd = (if fd then 1 else 0),
          f_dlc = of_nat (min (unat dlc) 64),
          f_data = (let d = (case data of Some src \<Rightarrow> take (min (unat dlc) 64) src | None \<Rightarrow> [])
                    in d @ replicate (64 - length d) 0),
          f_status = BT_FRAME_OK\<rparr>"
proof (cases data)
  case None
  then show ?thesis
    by (simp add: make_frame_def zero_frame_def BT_BUS_MAX_PAYLOAD_def min_def)
next
  case (Some src)
  consider (big) "64 < unat dlc" | (zero) "dlc = 0" | (mid) "unat dlc \<le> 64" "0 < dlc"
    using not_less [of 64 "unat dlc"] word_gt_0 [of dlc] by blast
  then show ?thesis
  proof cases
    case big
    with assms Some have "64 \<le> length src" by simp
    with big Some show ?thesis
      by (simp add: make_frame_def zero_frame_def BT_BUS_MAX_PAYLOAD_def memcpy_at_def)
  next
    case zero
    with Some show ?thesis
      by (simp add: make_frame_def zero_frame_def BT_BUS_MAX_PAYLOAD_def)
  next
    case mid
    with assms Some have "unat dlc \<le> length src" by simp
    with mid Some show ?thesis
      by (simp add: make_frame_def zero_frame_def BT_BUS_MAX_PAYLOAD_def memcpy_at_def min_def)
  qed
qed

lemma wf_make_frame:
  "make_frame type channel dir fid extended fd dlc data ts = Inr f \<Longrightarrow>
   wf_frame f \<and> unat (f_dlc f) \<le> 64"
  by (auto simp: make_frame_def zero_frame_def wf_frame_def BT_BUS_MAX_PAYLOAD_def Let_def
      memcpy_at_def bindr_Inr_iff split: option.splits if_splits)

section \<open>Lengths of formatted numbers\<close>

lemma length_digits_base:
  "2 \<le> b \<Longrightarrow> n < b ^ k \<Longrightarrow> 1 \<le> k \<Longrightarrow> length (digits_base b n) \<le> k"
proof (induction b n arbitrary: k rule: digits_base.induct)
  case (1 b n)
  show ?case
  proof (cases "n < b")
    case True
    with "1.prems" show ?thesis by (subst digits_base.simps) simp
  next
    case False
    then have k: "2 \<le> k"
      using "1.prems" by (cases k; cases "k - 1") (auto simp: not_less)
    have "n div b < b ^ (k - 1)"
      using "1.prems" k by (simp add: less_mult_imp_div_less power_eq_if mult.commute)
    then have "length (digits_base b (n div b)) \<le> k - 1"
      using "1.IH" False "1.prems"(1) k by simp
    with False "1.prems"(1) k show ?thesis
      by (subst digits_base.simps) simp
  qed
qed

lemma length_fmt_u: "n < 10 ^ k \<Longrightarrow> 1 \<le> k \<Longrightarrow> length (fmt_u n) \<le> k"
  by (simp add: fmt_u_def length_digits_base)

lemma length_fmt_X: "n < 16 ^ k \<Longrightarrow> 1 \<le> k \<Longrightarrow> length (fmt_X n) \<le> k"
  by (simp add: fmt_X_def length_digits_base)

lemma length_pad0: "length s \<le> w \<Longrightarrow> length (pad0 w s) = w"
  by (simp add: pad0_def)

lemma length_fmt_byte: "length (fmt_u (unat (b :: u8))) \<le> 3"
  using unat_byte_less [of b] by (intro length_fmt_u) simp_all

lemma length_frame_header_string: "length (frame_header_string f) < 256"
proof -
  have "unat (timestamp_ns f) < 18446744073709551616"
    using unat_u64_less [of "timestamp_ns f"] by simp
  then have "unat (timestamp_ns f) div 1000 < 10 ^ 17"
    by (simp add: less_mult_imp_div_less)
  then have ts: "unat (timestamp_ns f div 1000) < 10 ^ 17"
    "unat (timestamp_ns f mod 1000) < 1000"
    by (simp_all add: unat_div unat_mod)
  have "length (fmt_u (unat (timestamp_ns f div 1000))) \<le> 17"
    using ts by (intro length_fmt_u) simp_all
  moreover have "length (pad0 3 (fmt_u (unat (timestamp_ns f mod 1000)))) = 3"
    using ts by (intro length_pad0 length_fmt_u) simp_all
  moreover have "length (bt_bus_type_str (f_type f)) \<le> 7"
    by (cases "f_type f") (simp_all add: bt_bus_type_str_def)
  moreover have "length (fmt_X (unat (f_id f))) \<le> 8"
    using unat_u32_less [of "f_id f"] by (intro length_fmt_X) simp_all
  moreover have "length (fmt_u (status_code (f_status f))) \<le> 1"
    by (cases "f_status f") (simp_all add: fmt_u_def digits_base.simps)
  ultimately show ?thesis
    using length_fmt_byte [of "f_channel f"] length_fmt_byte [of "f_extended f"]
      length_fmt_byte [of "f_fd f"] length_fmt_byte [of "f_dlc f"]
    by (simp add: frame_header_string_def)
qed

lemma hex_loop_ok:
  "i + n \<le> length data \<Longrightarrow> \<exists>s'. hex_loop n i data s = Inr s' \<and> length s' = length s + 3 * n"
proof (induction n arbitrary: i s)
  case (Suc n)
  have "length (pad0 2 (fmt_X (unat (data ! i)))) = 2"
    using unat_byte_less [of "data ! i"] by (intro length_pad0 length_fmt_X) simp_all
  moreover obtain s' where
    "hex_loop n (Suc i) data (s @ pad0 2 (fmt_X (unat (data ! i))) @ '' '') = Inr s'"
    "length s' = length (s @ pad0 2 (fmt_X (unat (data ! i))) @ '' '') + 3 * n"
    using Suc.IH [of "Suc i" "s @ pad0 2 (fmt_X (unat (data ! i))) @ '' ''"] Suc.prems by auto
  ultimately show ?case
    using Suc.prems by (simp add: load_def)
qed simp

lemma hex_loop_fault:
  "i \<le> length data \<Longrightarrow> length data < i + n \<Longrightarrow> hex_loop n i data s = Inl OutOfBounds"
proof (induction n arbitrary: i s)
  case (Suc n)
  then show ?case
    by (cases "i < length data") (simp_all add: load_def)
qed simp

lemma frame_to_string_loop:
  "frame_to_string f = hex_loop (unat (f_dlc f)) 0 (f_data f) (frame_header_string f @ '' '')"
  using length_frame_header_string [of f] by (simp add: frame_to_string_def snprintf_string_def)

lemma trace_line_exists:
  assumes "wf_frame f" and "unat (f_dlc f) \<le> 64"
  shows "\<exists>t. frame_to_string f = Inr t"
  using assms hex_loop_ok [of 0 "unat (f_dlc f)" "f_data f" "frame_header_string f @ '' ''"]
  by (auto simp: frame_to_string_loop wf_frame_def BT_BUS_MAX_PAYLOAD_def)

section \<open>Properties\<close>

text \<open>The factory always yields a frame that is safe to use: whatever length code the caller
  passes, the frame's is at most 64 and its payload array holds the first bytes of the caller's data
  followed by zeros, as long as the caller's data has the bytes the clamped code announces.\<close>

theorem make_frame_clamps:
  assumes "min (unat dlc) 64 \<le> length src"
  shows "\<exists>f. make_frame type channel dir fid extended fd dlc (Some src) ts = Inr f \<and>
             wf_frame f \<and> unat (f_dlc f) = min (unat dlc) 64 \<and>
             f_data f = take (min (unat dlc) 64) src @ replicate (64 - min (unat dlc) 64) 0 \<and>
             f_id f = fid \<and> f_channel f = channel \<and> f_dir f = dir \<and> f_timestamp f = ts"
proof -
  have "unat (of_nat (min (unat dlc) 64) :: u8) = min (unat dlc) 64"
    by (intro unat_of_nat_id) simp
  then show ?thesis
    using assms make_frame_spec [of "Some src" dlc type channel dir fid extended fd ts]
    by (simp add: wf_frame_def BT_BUS_MAX_PAYLOAD_def Let_def min_def split: if_splits)
qed

theorem make_frame_clamps_witness:
  "\<exists>f. make_frame BT_BUS_CANXL 1 BT_DIR_TX 7 False True 200 (Some (replicate 64 5)) 3 = Inr f \<and>
       wf_frame f \<and> unat (f_dlc f) = min (unat (200 :: u8)) 64 \<and>
       f_data f = take (min (unat (200 :: u8)) 64) (replicate 64 5) @
                  replicate (64 - min (unat (200 :: u8)) 64) 0 \<and>
       f_id f = 7 \<and> f_channel f = 1 \<and> f_dir f = BT_DIR_TX \<and> f_timestamp f = 3"
  by (rule make_frame_clamps) simp

text \<open>C39: The trace line of a frame is produced without leaving any buffer exactly when the frame's
  length code is at most 64, the size of the payload array; its length then is that of the head
  (always below the 256 bytes of the local buffer) plus one blank plus three characters per byte. A
  larger length code, which the packet decoder does not reject, makes it read past the array.\<close>

theorem frame_to_string_safe_iff:
  assumes "wf_frame f"
  shows "frame_to_string f =
           (if unat (f_dlc f) \<le> 64
            then hex_loop (unat (f_dlc f)) 0 (f_data f) (frame_header_string f @ '' '')
            else Inl OutOfBounds) \<and>
         ((\<exists>s. frame_to_string f = Inr s) \<longleftrightarrow> unat (f_dlc f) \<le> 64) \<and>
         (\<forall>s. frame_to_string f = Inr s \<longrightarrow>
              length s = length (frame_header_string f) + 1 + 3 * unat (f_dlc f))"
proof -
  have l: "length (f_data f) = 64"
    using assms by (simp add: wf_frame_def BT_BUS_MAX_PAYLOAD_def)
  note e = frame_to_string_loop [of f]
  show ?thesis
  proof (cases "unat (f_dlc f) \<le> 64")
    case True
    with e l hex_loop_ok [of 0 "unat (f_dlc f)" "f_data f" "frame_header_string f @ '' ''"]
    show ?thesis by auto
  next
    case False
    with e l hex_loop_fault [of 0 "f_data f" "unat (f_dlc f)" "frame_header_string f @ '' ''"]
    show ?thesis by auto
  qed
qed

theorem frame_to_string_safe_iff_witness:
  "wf_frame (zero_frame\<lparr>f_dlc := 65\<rparr>) \<and>
   \<not> (\<exists>s. frame_to_string (zero_frame\<lparr>f_dlc := 65\<rparr>) = Inr s)"
proof -
  have wf: "wf_frame (zero_frame\<lparr>f_dlc := 65\<rparr>)"
    by (simp add: wf_frame_def zero_frame_def BT_BUS_MAX_PAYLOAD_def)
  show ?thesis
    using wf frame_to_string_safe_iff [OF wf] by simp
qed

end
