(* ===== verification/Doubles.thy ===== *)
theory Doubles
  imports Prelude Complex_Main "HOL-Library.Log_Nat"
begin

text \<open>
  The C++ type \<^verbatim>\<open>double\<close>: IEEE 754 binary64 with rounding to nearest, ties to even, as the
  sources use it for signal scaling and for the figures of the benchmark. A finite value is a sign
  and an exact rational magnitude; every operation computes the exact result and rounds once.
  NaN payloads and the inexact flag are not modelled: no source line observes them.
\<close>

section \<open>Values\<close>

datatype double = DNan | DInf bool | DFin bool rat

fun val :: "double \<Rightarrow> rat" where
  "val (DFin s x) = (if s then - x else x)"
| "val _ = 0"

definition is_fin :: "double \<Rightarrow> bool" where
  "is_fin d \<longleftrightarrow> (case d of DFin _ _ \<Rightarrow> True | _ \<Rightarrow> False)"

definition dzero :: double where "dzero = DFin False 0"
definition done1 :: double where "done1 = DFin False 1"

section \<open>Rounding\<close>

definition pow2 :: "int \<Rightarrow> rat" where "pow2 e = 2 powi e"

text \<open>The exponent \<open>k\<close> with \<open>2 powi k \<le> x < 2 powi (k + 1)\<close>, for a positive \<open>x\<close>.\<close>

definition ilog2 :: "rat \<Rightarrow> int" where
  "ilog2 x =
     (let (n, d) = quotient_of x; k = bitlen n - bitlen d
      in if pow2 k \<le> x then k else k - 1)"

text \<open>Nearest integer, ties to even.\<close>

definition round_even :: "rat \<Rightarrow> int" where
  "round_even q =
     (let f = \<lfloor>q\<rfloor>; r = q - of_int f
      in if r < 1 / 2 then f else if r > 1 / 2 then f + 1 else if even f then f else f + 1)"

text \<open>The unit in the last place: 53 significant bits, and never below the least subnormal.\<close>

definition ulp_exp :: "rat \<Rightarrow> int" where
  "ulp_exp x = max (ilog2 x - 52) (- 1074)"

definition round_mag :: "rat \<Rightarrow> rat" where
  "round_mag x =
     (if x = 0 then 0 else of_int (round_even (x / pow2 (ulp_exp x))) * pow2 (ulp_exp x))"

definition round64 :: "bool \<Rightarrow> rat \<Rightarrow> double" where
  "round64 s x = (let r = round_mag x in if r \<ge> pow2 1024 then DInf s else DFin s r)"

text \<open>The signed rational \<open>v\<close>, rounded.\<close>

definition of_rat64 :: "rat \<Rightarrow> double" where
  "of_rat64 v = round64 (v < 0) \<bar>v\<bar>"

section \<open>Operations\<close>

fun dneg :: "double \<Rightarrow> double" where
  "dneg DNan = DNan"
| "dneg (DInf s) = DInf (\<not> s)"
| "dneg (DFin s x) = DFin (\<not> s) x"

fun dadd :: "double \<Rightarrow> double \<Rightarrow> double" where
  "dadd (DFin s x) (DFin t y) =
     (let v = val (DFin s x) + val (DFin t y)
      in if v = 0 then DFin (s \<and> t) 0 else of_rat64 v)"
| "dadd (DInf s) (DInf t) = (if s = t then DInf s else DNan)"
| "dadd (DInf s) (DFin _ _) = DInf s"
| "dadd (DFin _ _) (DInf t) = DInf t"
| "dadd _ _ = DNan"

definition dsub :: "double \<Rightarrow> double \<Rightarrow> double" where
  "dsub a b = dadd a (dneg b)"

fun dmul :: "double \<Rightarrow> double \<Rightarrow> double" where
  "dmul (DFin s x) (DFin t y) = round64 (s \<noteq> t) (x * y)"
| "dmul (DInf s) (DInf t) = DInf (s \<noteq> t)"
| "dmul (DInf s) (DFin t y) = (if y = 0 then DNan else DInf (s \<noteq> t))"
| "dmul (DFin s x) (DInf t) = (if x = 0 then DNan else DInf (s \<noteq> t))"
| "dmul _ _ = DNan"

fun ddiv :: "double \<Rightarrow> double \<Rightarrow> double" where
  "ddiv (DFin s x) (DFin t y) =
     (if y = 0 then (if x = 0 then DNan else DInf (s \<noteq> t)) else round64 (s \<noteq> t) (x / y))"
| "ddiv (DInf s) (DFin t y) = DInf (s \<noteq> t)"
| "ddiv (DFin s x) (DInf t) = DFin (s \<noteq> t) 0"
| "ddiv _ _ = DNan"

text \<open>Comparisons are false on NaN.\<close>

fun dle :: "double \<Rightarrow> double \<Rightarrow> bool" where
  "dle DNan _ = False"
| "dle _ DNan = False"
| "dle (DInf s) (DInf t) = (s \<or> \<not> t)"
| "dle (DInf s) (DFin _ _) = s"
| "dle (DFin _ _) (DInf t) = (\<not> t)"
| "dle (DFin s x) (DFin t y) = (val (DFin s x) \<le> val (DFin t y))"

fun dlt :: "double \<Rightarrow> double \<Rightarrow> bool" where
  "dlt DNan _ = False"
| "dlt _ DNan = False"
| "dlt (DInf s) (DInf t) = (s \<and> \<not> t)"
| "dlt (DInf s) (DFin _ _) = s"
| "dlt (DFin _ _) (DInf t) = (\<not> t)"
| "dlt (DFin s x) (DFin t y) = (val (DFin s x) < val (DFin t y))"

definition dof_u64 :: "u64 \<Rightarrow> double" where
  "dof_u64 w = of_rat64 (of_nat (unat w))"

definition dof_i64 :: "u64 \<Rightarrow> double" where
  "dof_i64 w = of_rat64 (of_int (sint w))"

text \<open>
  Conversion to \<^verbatim>\<open>uint64_t\<close> truncates; a value whose truncation does not fit (or an infinity or a
  NaN) is undefined behaviour.
\<close>

fun dto_u64 :: "double \<Rightarrow> u64 res" where
  "dto_u64 (DFin s x) =
     (let v = val (DFin s x)
      in if v > -1 \<and> v < pow2 64 then Inr (of_nat (nat \<lfloor>v\<rfloor>)) else Inl BadConversion)"
| "dto_u64 _ = Inl BadConversion"

section \<open>Powers of two and the binary logarithm\<close>

lemma pow2_pos [simp]: "0 < pow2 e"
  by (simp add: pow2_def)

lemma pow2_nonzero [simp]: "pow2 e \<noteq> 0"
  using pow2_pos [of e] by linarith

lemma pow2_add: "pow2 (a + b) = pow2 a * pow2 b"
  by (simp add: pow2_def power_int_add)

lemma pow2_diff: "pow2 (a - b) = pow2 a / pow2 b"
  by (simp add: pow2_def power_int_diff)

lemma pow2_0 [simp]: "pow2 0 = 1"
  by (simp add: pow2_def)

lemma pow2_of_nat: "pow2 (int n) = 2 ^ n"
  by (simp add: pow2_def)

lemma pow2_numeral [simp]: "pow2 (numeral n) = 2 ^ numeral n"
  by (simp add: pow2_def)

lemma pow2_mono: "a \<le> b \<Longrightarrow> pow2 a \<le> pow2 b"
  by (simp add: pow2_def power_int_increasing)

lemma pow2_strict_mono: "a < b \<Longrightarrow> pow2 a < pow2 b"
  by (simp add: pow2_def power_int_strict_increasing)

lemma pow2_less_cancel: "pow2 a < pow2 b \<Longrightarrow> a < b"
  using pow2_mono [of b a] by (meson not_less)

lemma bitlen_pow2_bounds:
  assumes "0 < n"
  shows "pow2 (bitlen n - 1) \<le> of_int n" and "of_int n < pow2 (bitlen n)"
proof -
  have b: "1 \<le> bitlen n"
    using assms bitlen_nonneg [of n] bitlen_eq_zero_iff [of n] by linarith
  have 1: "2 ^ nat (bitlen n - 1) \<le> n" and 2: "n < 2 ^ nat (bitlen n)"
    using bitlen_bounds [OF assms] by auto
  have "pow2 (bitlen n - 1) = of_int (2 ^ nat (bitlen n - 1))"
    using b by (simp add: pow2_def power_int_def)
  also have "\<dots> \<le> of_int n" using 1 by (simp only: of_int_le_iff)
  finally show "pow2 (bitlen n - 1) \<le> of_int n" .
  have "of_int n < (of_int (2 ^ nat (bitlen n)) :: rat)" using 2 by (simp only: of_int_less_iff)
  also have "\<dots> = pow2 (bitlen n)"
    using b by (simp add: pow2_def power_int_def)
  finally show "of_int n < pow2 (bitlen n)" .
qed

lemma ilog2_bounds:
  assumes "0 < x"
  shows "pow2 (ilog2 x) \<le> x" and "x < pow2 (ilog2 x + 1)"
proof -
  obtain n d where q: "quotient_of x = (n, d)" by fastforce
  have d: "0 < d" and x: "x = of_int n / of_int d"
    using q quotient_of_denom_pos quotient_of_div by auto
  then have n: "0 < n"
    using assms by (simp add: zero_less_divide_iff)
  let ?k = "bitlen n - bitlen d"
  have lo: "pow2 (?k - 1) < x"
  proof -
    have "pow2 (?k - 1) * of_int d < pow2 (?k - 1) * pow2 (bitlen d)"
      using bitlen_pow2_bounds(2) [OF d] by simp
    also have "\<dots> = pow2 (bitlen n - 1)"
      by (simp add: pow2_add [symmetric] algebra_simps)
    also have "\<dots> \<le> of_int n" by (rule bitlen_pow2_bounds(1) [OF n])
    finally show ?thesis using d x by (simp add: pos_less_divide_eq)
  qed
  have hi: "x < pow2 (?k + 1)"
  proof -
    have "of_int n < pow2 (bitlen n)" by (rule bitlen_pow2_bounds(2) [OF n])
    also have "\<dots> = pow2 (?k + 1) * pow2 (bitlen d - 1)"
      by (simp add: pow2_add [symmetric] algebra_simps)
    also have "\<dots> \<le> pow2 (?k + 1) * of_int d"
      using bitlen_pow2_bounds(1) [OF d] by simp
    finally show ?thesis using d x by (simp add: pos_divide_less_eq)
  qed
  show "pow2 (ilog2 x) \<le> x" and "x < pow2 (ilog2 x + 1)"
    using lo hi by (auto simp: ilog2_def q Let_def)
qed

lemma ilog2_less:
  assumes "0 < x" and "x < pow2 k"
  shows "ilog2 x < k"
  using ilog2_bounds(1) [OF assms(1)] assms(2) pow2_less_cancel le_less_trans by blast

section \<open>Rounding: exactness and error\<close>

lemma round_even_of_int [simp]: "round_even (of_int k) = k"
  by (simp add: round_even_def Let_def)

lemma round_even_error: "\<bar>of_int (round_even q) - q\<bar> \<le> 1 / 2"
proof -
  define f r where "f = \<lfloor>q\<rfloor>" and "r = q - of_int f"
  have r: "0 \<le> r" "r < 1" and q: "q = of_int f + r"
    unfolding r_def f_def by linarith+
  have "round_even q = (if r < 1 / 2 then f else if r > 1 / 2 then f + 1
                        else if even f then f else f + 1)"
    by (simp only: round_even_def Let_def f_def r_def)
  then have "of_int (round_even q) - q = - r \<and> r \<le> 1 / 2
           \<or> of_int (round_even q) - q = 1 - r \<and> 1 / 2 \<le> r"
    by (auto simp: q)
  then show ?thesis
    using r by linarith
qed

text \<open>Numbers with 53 significant bits above the least subnormal and below overflow.\<close>

definition rep64 :: "rat \<Rightarrow> bool" where
  "rep64 v \<longleftrightarrow>
     (\<exists>m e. v = of_int m * pow2 e \<and> \<bar>m\<bar> < 2 ^ 53 \<and> - 1074 \<le> e) \<and> \<bar>v\<bar> < pow2 1024"

lemma rep64_of_int: "\<bar>k\<bar> < 2 ^ 53 \<Longrightarrow> rep64 (of_int k)"
proof -
  assume k: "\<bar>k\<bar> < 2 ^ 53"
  then have "of_int \<bar>k\<bar> < (of_int (2 ^ 53) :: rat)" by (simp only: of_int_less_iff)
  then have "\<bar>of_int k\<bar> < (2 ^ 53 :: rat)" by simp
  also have "\<dots> < 2 ^ 1024" by (rule power_strict_increasing) simp_all
  finally show ?thesis
    using k unfolding rep64_def by (intro conjI exI [of _ k] exI [of _ 0]) auto
qed

lemma rep64_half: "\<bar>k\<bar> < 2 ^ 53 \<Longrightarrow> rep64 (of_int k / 2)"
proof -
  assume k: "\<bar>k\<bar> < 2 ^ 53"
  then have "\<bar>of_int k\<bar> < pow2 1024" using rep64_of_int rep64_def by blast
  then have "\<bar>of_int k / 2\<bar> < pow2 1024" by (simp add: abs_divide del: pow2_numeral)
  moreover have "of_int k / 2 = of_int k * pow2 (- 1)" by (simp add: pow2_def)
  ultimately show ?thesis using k unfolding rep64_def by fastforce
qed

lemma round_mag_exact:
  assumes "x = of_int m * pow2 e" and "0 \<le> m" and "m < 2 ^ 53" and "- 1074 \<le> e"
  shows "round_mag x = x"
proof (cases "x = 0")
  case False
  then have m: "0 < m" using assms(1,2) by auto
  then have x: "0 < x" using assms(1) by simp
  have "of_int m < (of_int (2 ^ 53) :: rat)" using assms(3) by (simp only: of_int_less_iff)
  then have "x < pow2 (53 + e)"
    using assms(1) by (simp add: pow2_add)
  then have "ilog2 x < 53 + e" by (rule ilog2_less [OF x])
  then have u: "ulp_exp x \<le> e"
    using assms(4) by (simp add: ulp_exp_def)
  have "x / pow2 (ulp_exp x) = of_int m * pow2 (int (nat (e - ulp_exp x)))"
    using u assms(1) by (simp add: pow2_diff)
  also have "\<dots> = of_int (m * 2 ^ nat (e - ulp_exp x))"
    by (simp only: pow2_of_nat) simp
  finally have q: "x / pow2 (ulp_exp x) = of_int (m * 2 ^ nat (e - ulp_exp x))" .
  have "of_int (round_even (x / pow2 (ulp_exp x))) * pow2 (ulp_exp x)
      = x / pow2 (ulp_exp x) * pow2 (ulp_exp x)"
    unfolding q by (simp only: round_even_of_int)
  then show ?thesis
    using False by (simp add: round_mag_def)
qed (simp add: round_mag_def)

lemma of_rat64_exact:
  assumes "rep64 v"
  shows "of_rat64 v = DFin (v < 0) \<bar>v\<bar>"
proof -
  obtain m e where v: "v = of_int m * pow2 e" and b: "\<bar>m\<bar> < 2 ^ 53" "- 1074 \<le> e"
    and o: "\<bar>v\<bar> < pow2 1024"
    using assms by (auto simp: rep64_def)
  have "\<bar>v\<bar> = of_int \<bar>m\<bar> * pow2 e"
    unfolding v abs_mult of_int_abs abs_of_pos [OF pow2_pos] ..
  then have "round_mag \<bar>v\<bar> = \<bar>v\<bar>"
    using b by (intro round_mag_exact [where m = "\<bar>m\<bar>" and e = e]) auto
  then show ?thesis
    using o by (simp add: of_rat64_def round64_def Let_def del: pow2_numeral)
qed

lemma val_of_rat64 [simp]: "rep64 v \<Longrightarrow> val (of_rat64 v) = v"
  by (simp add: of_rat64_exact)

lemma is_fin_of_rat64 [simp]: "rep64 v \<Longrightarrow> is_fin (of_rat64 v)"
  by (simp add: of_rat64_exact is_fin_def)

end
