(* ===== verification/Registry.thy ===== *)
theory Registry
  imports Prelude
begin

text \<open>
  The contract of a container that owns objects under unique keys and hands out stable handles: a
  linear search by key, and an insertion that refuses a key that is already present. The workspace
  keeps its channels (by number) and its nodes (by name) under this contract, and the lemmas
  below are proved once for both.
\<close>

text \<open>The search loop over the keys: the first place of a key, counting from \<open>b\<close>.\<close>

fun first_index :: "nat \<Rightarrow> 'k list \<Rightarrow> 'k \<Rightarrow> nat option" where
  "first_index b [] k = None"
| "first_index b (x # xs) k = (if x = k then Some b else first_index (Suc b) xs k)"

lemma first_index_Some:
  "first_index b xs k = Some i \<longleftrightarrow>
     (\<exists>j<length xs. i = b + j \<and> xs ! j = k \<and> k \<notin> set (take j xs))"
proof (induction b xs k rule: first_index.induct)
  case (2 b x xs k)
  then show ?case
    by (auto simp: Ex_less_Suc2)
qed simp

lemma first_index_None: "first_index b xs k = None \<longleftrightarrow> k \<notin> set xs"
  by (induction b xs k rule: first_index.induct) auto

locale registry =
  fixes keys :: "'w \<Rightarrow> 'k list"
    and find :: "'w \<Rightarrow> 'k \<Rightarrow> nat option"
    and add :: "'w \<Rightarrow> 'k \<Rightarrow> 'a \<Rightarrow> nat option \<times> 'w"
  assumes find_Some: "find w k = Some i \<longleftrightarrow> i < length (keys w) \<and> keys w ! i = k \<and> k \<notin> set (take i (keys w))"
    and add_present: "k \<in> set (keys w) \<Longrightarrow> add w k a = (None, w)"
    and add_absent: "k \<notin> set (keys w) \<Longrightarrow>
      fst (add w k a) = Some (length (keys w)) \<and> keys (snd (add w k a)) = keys w @ [k]"
begin

lemma find_None: "find w k = None \<longleftrightarrow> k \<notin> set (keys w)"
proof
  assume n: "find w k = None"
  show "k \<notin> set (keys w)"
  proof
    assume "k \<in> set (keys w)"
    then obtain ys zs where "keys w = ys @ k # zs" "k \<notin> set ys"
      by (auto dest: split_list_first)
    then have "find w k = Some (length ys)"
      by (simp add: find_Some)
    with n show False by simp
  qed
next
  assume "k \<notin> set (keys w)"
  then have "find w k \<noteq> Some i" for i
    using find_Some [of w k i] by (metis nth_mem)
  then show "find w k = None" by (meson not_None_eq)
qed

lemma find_in_distinct:
  assumes "distinct (keys w)"
  shows "find w k = Some i \<longleftrightarrow> i < length (keys w) \<and> keys w ! i = k"
proof -
  have "k \<notin> set (take i (keys w))" if "i < length (keys w)" "keys w ! i = k"
    using that id_take_nth_drop [OF that(1)] assms distinct_append
    by (metis disjoint_iff list.set_intros(1))
  then show ?thesis by (auto simp: find_Some)
qed

lemma add_handle:
  "fst (add w k a) = (if find w k = None then Some (length (keys w)) else None)"
  using add_present add_absent find_None by (cases "k \<in> set (keys w)") auto

lemma keys_add:
  "keys (snd (add w k a)) = (if find w k = None then keys w @ [k] else keys w)"
  using add_present add_absent find_None by (cases "k \<in> set (keys w)") auto

lemma distinct_add: "distinct (keys w) \<Longrightarrow> distinct (keys (snd (add w k a)))"
  by (auto simp: keys_add find_None)

lemma find_added: "find w k = None \<Longrightarrow> find (snd (add w k a)) k = Some (length (keys w))"
  by (simp add: find_Some keys_add find_None)

lemma find_kept: "find w j = Some i \<Longrightarrow> find (snd (add w k a)) j = Some i"
  by (auto simp: find_Some keys_add nth_append)

lemma find_other:
  assumes "j \<noteq> k"
  shows "find (snd (add w k a)) j = find w j"
proof (cases "find w j")
  case (Some i)
  then show ?thesis using find_kept by simp
next
  case None
  then have "j \<notin> set (keys (snd (add w k a)))"
    using assms by (auto simp: keys_add find_None)
  then show ?thesis using None find_None [of "snd (add w k a)" j] by metis
qed

lemma add_twice: "add (snd (add w k a)) k b = (None, snd (add w k a))"
  using add_present add_absent by (cases "k \<in> set (keys w)") auto

lemma find_twice: "find w k = Some i \<Longrightarrow> find w j = Some i \<Longrightarrow> j = k"
  by (auto simp: find_Some)

end

section \<open>Registries as finite maps\<close>

text \<open>What a client sees of a registry by key: the object a search leads to.\<close>

definition object_at :: "('w \<Rightarrow> 'k \<Rightarrow> nat option) \<Rightarrow> ('w \<Rightarrow> 'o list) \<Rightarrow> 'w \<Rightarrow> 'k \<Rightarrow> 'o option" where
  "object_at search objs w k = map_option (\<lambda>i. objs w ! i) (search w k)"

text \<open>A registry whose keys are a field of the objects it owns is a finite map, insertion adds a
  binding, and a change of an object through its handle changes the binding of its key.\<close>

locale object_registry = registry keys find add
  for keys :: "'w \<Rightarrow> 'k list" and find and add :: "'w \<Rightarrow> 'k \<Rightarrow> 'a \<Rightarrow> nat option \<times> 'w" +
  fixes objs :: "'w \<Rightarrow> 'o list" and key :: "'o \<Rightarrow> 'k" and make :: "'k \<Rightarrow> 'a \<Rightarrow> 'o"
  assumes keys_objs: "keys w = map key (objs w)"
    and objs_add: "find w k = None \<Longrightarrow> objs (snd (add w k a)) = objs w @ [make k a]"
begin

lemma find_same_keys: "keys w' = keys w \<Longrightarrow> find w' k = find w k"
proof -
  assume k: "keys w' = keys w"
  have "find w' k = Some i \<longleftrightarrow> find w k = Some i" for i
    by (simp only: find_Some [of w'] find_Some [of w] k)
  then show "find w' k = find w k" by (metis not_Some_eq)
qed

lemma dom_object_at: "dom (object_at find objs w) = set (keys w)"
proof -
  have "k \<in> dom (object_at find objs w) \<longleftrightarrow> find w k \<noteq> None" for k
    by (auto simp: object_at_def)
  then show ?thesis using find_None by blast
qed

lemma object_at_key: "object_at find objs w k = Some x \<Longrightarrow> key x = k \<and> x \<in> set (objs w)"
  by (auto simp: object_at_def find_Some keys_objs)

lemma object_at_nth:
  "distinct (keys w) \<Longrightarrow> i < length (objs w) \<Longrightarrow> object_at find objs w (keys w ! i) = Some (objs w ! i)"
  using find_in_distinct [of w "keys w ! i" i] by (simp add: object_at_def keys_objs)

lemma object_at_add:
  "object_at find objs (snd (add w k a)) =
     (if find w k = None then (object_at find objs w)(k \<mapsto> make k a) else object_at find objs w)"
proof (cases "find w k")
  case None
  have "object_at find objs (snd (add w k a)) j = ((object_at find objs w)(k \<mapsto> make k a)) j" for j
  proof (cases "j = k")
    case True
    then show ?thesis
      using find_added [OF None, of a] by (simp add: object_at_def objs_add [OF None] keys_objs nth_append)
  next
    case False
    have "i < length (objs w)" if "find w j = Some i" for i using that by (simp add: find_Some keys_objs)
    then show ?thesis
      using False find_other [OF False, of w a]
      by (cases "find w j") (simp_all add: object_at_def objs_add [OF None] nth_append)
  qed
  then show ?thesis using None by auto
next
  case (Some i)
  then have "k \<in> set (keys w)" using find_None by (metis option.distinct(1))
  then show ?thesis using Some add_present by simp
qed

lemma object_at_update:
  assumes "distinct (keys w)" and "i < length (objs w)" and "objs w' = (objs w)[i := f (objs w ! i)]"
    and "key (f (objs w ! i)) = key (objs w ! i)"
  shows "object_at find objs w' =
    (object_at find objs w)(keys w ! i := map_option f (object_at find objs w (keys w ! i)))"
proof -
  have k: "keys w' = keys w" unfolding keys_objs assms(3) using assms(2,4)
    by (metis list_update_id map_update)
  have "object_at find objs w' j =
      ((object_at find objs w)(keys w ! i := map_option f (object_at find objs w (keys w ! i)))) j" for j
  proof (cases "j = keys w ! i")
    case True
    then show ?thesis
      using object_at_nth [of w' i] object_at_nth [OF assms(1,2)] assms(1-3) k by simp
  next
    case False
    then have "find w j \<noteq> Some i" by (auto simp: find_Some)
    then show ?thesis
      using False by (cases "find w j") (simp_all add: object_at_def find_same_keys [OF k] assms(3))
  qed
  then show ?thesis by auto
qed

lemma object_at_map:
  assumes "objs w' = map f (objs w)" and "\<And>x. key (f x) = key x"
  shows "object_at find objs w' = map_option f \<circ> object_at find objs w"
proof
  fix j
  have k: "keys w' = keys w" by (simp add: keys_objs assms)
  have "i < length (objs w)" if "find w j = Some i" for i using that by (simp add: find_Some keys_objs)
  then show "object_at find objs w' j = (map_option f \<circ> object_at find objs w) j"
    by (cases "find w j") (simp_all add: object_at_def find_same_keys [OF k] assms(1))
qed

lemma object_at_same: "objs w' = objs w \<Longrightarrow> object_at find objs w' = object_at find objs w"
  using object_at_map [of w' "\<lambda>x. x" w] by (simp add: option.map_ident comp_def)

end

text \<open>With finitely many possible keys a registry is bounded.\<close>

lemma distinct_length_card: "distinct (xs :: 'k::finite list) \<Longrightarrow> length xs \<le> card (UNIV :: 'k set)"
  by (metis card_mono distinct_card finite subset_UNIV)

lemma distinct_bytes_length: "distinct (xs :: u8 list) \<Longrightarrow> length xs \<le> 256"
  using distinct_length_card [of xs] by (simp add: card_word)

end
