(* ===== verification/Workspace.thy ===== *)
theory Workspace
  imports Registry BusTypes Doubles
begin

text \<open>
  The host's object model (\<^verbatim>\<open>core/channel.h\<close>, \<^verbatim>\<open>core/node.h\<close>, \<^verbatim>\<open>core/workspace.cpp\<close>). A pointer the
  workspace returns is the index of the object in the vector that owns it: the vectors only grow
  and hold owning pointers, so an index designates the same object for ever.
\<close>

section \<open>Channels and nodes\<close>

record Channel =
  ch_id :: u8
  ch_type :: bt_bus_type
  ch_name :: string
  ch_enabled :: bool
  ch_rx_count :: u64
  ch_tx_count :: u64
  ch_error_count :: u64
  ch_total_frames :: u64
  ch_load :: double

definition new_Channel :: "u8 \<Rightarrow> bt_bus_type \<Rightarrow> string \<Rightarrow> Channel" where
  "new_Channel i type name =
     \<lparr>ch_id = i, ch_type = type, ch_name = name, ch_enabled = True, ch_rx_count = 0,
      ch_tx_count = 0, ch_error_count = 0, ch_total_frames = 0, ch_load = dzero\<rparr>"

definition set_enabled :: "bool \<Rightarrow> Channel \<Rightarrow> Channel" where
  "set_enabled b c = c\<lparr>ch_enabled := b\<rparr>"

definition on_frame_rx :: "Channel \<Rightarrow> Channel" where
  "on_frame_rx c = c\<lparr>ch_rx_count := ch_rx_count c + 1, ch_total_frames := ch_total_frames c + 1\<rparr>"

definition on_frame_tx :: "Channel \<Rightarrow> Channel" where
  "on_frame_tx c = c\<lparr>ch_tx_count := ch_tx_count c + 1, ch_total_frames := ch_total_frames c + 1\<rparr>"

definition on_error :: "Channel \<Rightarrow> Channel" where
  "on_error c = c\<lparr>ch_error_count := ch_error_count c + 1\<rparr>"

definition set_load_estimate :: "double \<Rightarrow> Channel \<Rightarrow> Channel" where
  "set_load_estimate x c = c\<lparr>ch_load := x\<rparr>"

definition reset_stats :: "Channel \<Rightarrow> Channel" where
  "reset_stats c =
     c\<lparr>ch_rx_count := 0, ch_tx_count := 0, ch_error_count := 0, ch_total_frames := 0,
       ch_load := dzero\<rparr>"

record Node =
  nd_name :: string
  nd_channel_id :: u8
  nd_script_path :: string
  nd_active :: bool

definition new_Node :: "string \<Rightarrow> u8 \<Rightarrow> string \<Rightarrow> Node" where
  "new_Node name cid script =
     \<lparr>nd_name = name, nd_channel_id = cid, nd_script_path = script, nd_active = True\<rparr>"

definition set_script_path :: "string \<Rightarrow> Node \<Rightarrow> Node" where
  "set_script_path p n = n\<lparr>nd_script_path := p\<rparr>"

definition set_active :: "bool \<Rightarrow> Node \<Rightarrow> Node" where
  "set_active b n = n\<lparr>nd_active := b\<rparr>"

section \<open>The workspace\<close>

record Workspace =
  ws_channels :: "Channel list"
  ws_nodes :: "Node list"

definition empty_Workspace :: Workspace where
  "empty_Workspace = \<lparr>ws_channels = [], ws_nodes = []\<rparr>"

text \<open>The search loops: the first object with the key, counting from \<open>i\<close>.\<close>

fun find_channel_from :: "nat \<Rightarrow> Channel list \<Rightarrow> u8 \<Rightarrow> nat option" where
  "find_channel_from i [] k = None"
| "find_channel_from i (c # cs) k = (if ch_id c = k then Some i else find_channel_from (Suc i) cs k)"

definition find_channel :: "Workspace \<Rightarrow> u8 \<Rightarrow> nat option" where
  "find_channel w k = find_channel_from 0 (ws_channels w) k"

definition add_channel :: "Workspace \<Rightarrow> u8 \<Rightarrow> bt_bus_type \<Rightarrow> string \<Rightarrow> nat option \<times> Workspace" where
  "add_channel w i type name =
     (if find_channel w i \<noteq> None then (None, w)
      else let cs = ws_channels w @ [new_Channel i type name]
           in (Some (length cs - 1), w\<lparr>ws_channels := cs\<rparr>))"

definition channels :: "Workspace \<Rightarrow> nat list" where
  "channels w = [0..<length (ws_channels w)]"

fun find_node_from :: "nat \<Rightarrow> Node list \<Rightarrow> string \<Rightarrow> nat option" where
  "find_node_from i [] k = None"
| "find_node_from i (n # ns) k = (if nd_name n = k then Some i else find_node_from (Suc i) ns k)"

definition find_node :: "Workspace \<Rightarrow> string \<Rightarrow> nat option" where
  "find_node w k = find_node_from 0 (ws_nodes w) k"

definition add_node :: "Workspace \<Rightarrow> string \<Rightarrow> u8 \<Rightarrow> string \<Rightarrow> nat option \<times> Workspace" where
  "add_node w name cid script =
     (if find_node w name \<noteq> None then (None, w)
      else let ns = ws_nodes w @ [new_Node name cid script]
           in (Some (length ns - 1), w\<lparr>ws_nodes := ns\<rparr>))"

definition reset_all_stats :: "Workspace \<Rightarrow> Workspace" where
  "reset_all_stats w = w\<lparr>ws_channels := map reset_stats (ws_channels w)\<rparr>"

section \<open>Runs of a client\<close>

datatype channel_call = Rx | Tx | Error | Reset | Enable bool | Load double

fun channel_do :: "channel_call \<Rightarrow> Channel \<Rightarrow> Channel" where
  "channel_do Rx = on_frame_rx"
| "channel_do Tx = on_frame_tx"
| "channel_do Error = on_error"
| "channel_do Reset = reset_stats"
| "channel_do (Enable b) = set_enabled b"
| "channel_do (Load x) = set_load_estimate x"

datatype node_call = Script string | Active bool

fun node_do :: "node_call \<Rightarrow> Node \<Rightarrow> Node" where
  "node_do (Script p) = set_script_path p"
| "node_do (Active b) = set_active b"

datatype ws_call =
    AddChannel u8 bt_bus_type string
  | AddNode string u8 string
  | OnChannel nat channel_call
  | OnNode nat node_call
  | ResetAll

text \<open>A call through a channel or node pointer needs a pointer the workspace handed out.\<close>

inductive ws_step :: "Workspace \<Rightarrow> ws_call \<Rightarrow> Workspace \<Rightarrow> bool" where
  add_channel_step: "ws_step w (AddChannel i type name) (snd (add_channel w i type name))"
| add_node_step: "ws_step w (AddNode name cid script) (snd (add_node w name cid script))"
| on_channel_step: "i \<in> set (channels w) \<Longrightarrow>
    ws_step w (OnChannel i c) (w\<lparr>ws_channels := (ws_channels w)[i := channel_do c (ws_channels w ! i)]\<rparr>)"
| on_node_step: "i < length (ws_nodes w) \<Longrightarrow>
    ws_step w (OnNode i c) (w\<lparr>ws_nodes := (ws_nodes w)[i := node_do c (ws_nodes w ! i)]\<rparr>)"
| reset_all_step: "ws_step w ResetAll (reset_all_stats w)"

inductive_cases ws_stepE: "ws_step w c w'"

inductive ws_run :: "Workspace \<Rightarrow> ws_call list \<Rightarrow> Workspace \<Rightarrow> bool" where
  ws_done: "ws_run w [] w"
| ws_more: "ws_step w c w' \<Longrightarrow> ws_run w' cs w'' \<Longrightarrow> ws_run w (c # cs) w''"

text \<open>The same as a function: the state after a call, \<^const>\<open>None\<close> for a bad pointer.\<close>

fun ws_exec :: "Workspace \<Rightarrow> ws_call \<Rightarrow> Workspace option" where
  "ws_exec w (AddChannel i t n) = Some (snd (add_channel w i t n))"
| "ws_exec w (AddNode n c s) = Some (snd (add_node w n c s))"
| "ws_exec w (OnChannel i c) =
     (if i < length (ws_channels w)
      then Some (w\<lparr>ws_channels := (ws_channels w)[i := channel_do c (ws_channels w ! i)]\<rparr>) else None)"
| "ws_exec w (OnNode i c) =
     (if i < length (ws_nodes w)
      then Some (w\<lparr>ws_nodes := (ws_nodes w)[i := node_do c (ws_nodes w ! i)]\<rparr>) else None)"
| "ws_exec w ResetAll = Some (reset_all_stats w)"

fun ws_exec_all :: "Workspace \<Rightarrow> ws_call list \<Rightarrow> Workspace option" where
  "ws_exec_all w [] = Some w"
| "ws_exec_all w (c # cs) = Option.bind (ws_exec w c) (\<lambda>w'. ws_exec_all w' cs)"

lemma ws_step_exec: "ws_step w c w' \<longleftrightarrow> ws_exec w c = Some w'"
  by (cases c) (auto elim!: ws_stepE simp: channels_def intro: ws_step.intros split: if_splits)

lemma ws_run_exec: "ws_run w cs w' \<longleftrightarrow> ws_exec_all w cs = Some w'"
proof
  show "ws_run w cs w' \<Longrightarrow> ws_exec_all w cs = Some w'"
    by (induction rule: ws_run.induct) (auto simp: ws_step_exec)
  show "ws_exec_all w cs = Some w' \<Longrightarrow> ws_run w cs w'"
    by (induction cs arbitrary: w)
       (auto simp: bind_eq_Some_conv ws_step_exec intro: ws_run.intros)
qed

section \<open>Both containers are registries\<close>

lemma find_channel_from_eq: "find_channel_from b cs k = first_index b (map ch_id cs) k"
  by (induction b cs k rule: find_channel_from.induct) simp_all

lemma find_node_from_eq: "find_node_from b ns k = first_index b (map nd_name ns) k"
  by (induction b ns k rule: find_node_from.induct) simp_all

definition channel_ids :: "Workspace \<Rightarrow> u8 list" where
  "channel_ids w = map ch_id (ws_channels w)"

definition node_names :: "Workspace \<Rightarrow> string list" where
  "node_names w = map nd_name (ws_nodes w)"

lemma find_channel_eq: "find_channel w k = first_index 0 (channel_ids w) k"
  by (simp add: find_channel_def find_channel_from_eq channel_ids_def)

lemma find_node_eq: "find_node w k = first_index 0 (node_names w) k"
  by (simp add: find_node_def find_node_from_eq node_names_def)

interpretation chan: registry channel_ids find_channel
  "\<lambda>w k (type, name). add_channel w k type name"
proof unfold_locales
  fix w k i and a :: "bt_bus_type \<times> string"
  show "find_channel w k = Some i \<longleftrightarrow>
      i < length (channel_ids w) \<and> channel_ids w ! i = k \<and> k \<notin> set (take i (channel_ids w))"
    by (auto simp: find_channel_eq first_index_Some)
  show "k \<in> set (channel_ids w) \<Longrightarrow> (case a of (t, n) \<Rightarrow> add_channel w k t n) = (None, w)"
    by (auto simp: add_channel_def find_channel_eq first_index_None split: prod.split)
  show "k \<notin> set (channel_ids w) \<Longrightarrow>
      fst (case a of (t, n) \<Rightarrow> add_channel w k t n) = Some (length (channel_ids w)) \<and>
      channel_ids (snd (case a of (t, n) \<Rightarrow> add_channel w k t n)) = channel_ids w @ [k]"
    by (auto simp: add_channel_def find_channel_eq first_index_None new_Channel_def channel_ids_def Let_def split: prod.split)
qed

interpretation node: registry node_names find_node
  "\<lambda>w k (cid, script). add_node w k cid script"
proof unfold_locales
  fix w k i and a :: "u8 \<times> string"
  show "find_node w k = Some i \<longleftrightarrow>
      i < length (node_names w) \<and> node_names w ! i = k \<and> k \<notin> set (take i (node_names w))"
    by (auto simp: find_node_eq first_index_Some)
  show "k \<in> set (node_names w) \<Longrightarrow> (case a of (c, s) \<Rightarrow> add_node w k c s) = (None, w)"
    by (auto simp: add_node_def find_node_eq first_index_None split: prod.split)
  show "k \<notin> set (node_names w) \<Longrightarrow>
      fst (case a of (c, s) \<Rightarrow> add_node w k c s) = Some (length (node_names w)) \<and>
      node_names (snd (case a of (c, s) \<Rightarrow> add_node w k c s)) = node_names w @ [k]"
    by (auto simp: add_node_def find_node_eq first_index_None new_Node_def node_names_def split: prod.split)
qed

section \<open>What every call keeps\<close>

definition totals_ok :: "Workspace \<Rightarrow> bool" where
  "totals_ok w \<longleftrightarrow>
     (\<forall>c\<in>set (ws_channels w). ch_total_frames c = ch_rx_count c + ch_tx_count c)"

definition ws_inv :: "Workspace \<Rightarrow> bool" where
  "ws_inv w \<longleftrightarrow> distinct (channel_ids w) \<and> distinct (node_names w) \<and> totals_ok w"

lemmas channel_defs = on_frame_rx_def on_frame_tx_def on_error_def reset_stats_def
  set_enabled_def set_load_estimate_def

lemma channel_do_identity [simp]:
  "ch_id (channel_do c ch) = ch_id ch" "ch_type (channel_do c ch) = ch_type ch"
  "ch_name (channel_do c ch) = ch_name ch"
  by (cases c; simp add: channel_defs)+

lemma node_do_identity [simp]:
  "nd_name (node_do c n) = nd_name n" "nd_channel_id (node_do c n) = nd_channel_id n"
  by (cases c; simp add: set_script_path_def set_active_def)+

lemma channel_do_total:
  "ch_total_frames ch = ch_rx_count ch + ch_tx_count ch \<Longrightarrow>
   ch_total_frames (channel_do c ch) = ch_rx_count (channel_do c ch) + ch_tx_count (channel_do c ch)"
  by (cases c) (simp_all add: channel_defs)

lemma map_update_same: "f y = f (xs ! i) \<Longrightarrow> map f (xs[i := y]) = map f xs"
  by (metis list_update_id map_update)

lemma channel_ids_step:
  "ws_step w c w' \<Longrightarrow> channel_ids w' =
     (case c of AddChannel k t n \<Rightarrow> if find_channel w k = None then channel_ids w @ [k] else channel_ids w
      | _ \<Rightarrow> channel_ids w)"
  using chan.keys_add [of w _ "(_, _)"]
  by (auto elim!: ws_stepE simp: map_update_same add_node_def reset_all_stats_def Let_def
      channel_ids_def reset_stats_def)

lemma node_names_step:
  "ws_step w c w' \<Longrightarrow> node_names w' =
     (case c of AddNode k t n \<Rightarrow> if find_node w k = None then node_names w @ [k] else node_names w
      | _ \<Rightarrow> node_names w)"
  using node.keys_add [of w _ "(_, _)"]
  by (auto elim!: ws_stepE simp: map_update_same add_channel_def reset_all_stats_def Let_def
      node_names_def)

lemma ws_channels_add [simp]:
  "ws_channels (snd (add_channel w k t n)) =
     (if find_channel w k = None then ws_channels w @ [new_Channel k t n] else ws_channels w)"
  "ws_channels (snd (add_node w name cid script)) = ws_channels w"
  by (simp_all add: add_channel_def add_node_def Let_def)

lemma totals_step: "ws_step w c w' \<Longrightarrow> totals_ok w \<Longrightarrow> totals_ok w'"
  by (auto elim!: ws_stepE simp: totals_ok_def new_Channel_def reset_all_stats_def reset_stats_def channels_def
      intro!: channel_do_total dest!: set_update_subset_insert [THEN subsetD] split: if_splits)

lemma ws_inv_step: "ws_step w c w' \<Longrightarrow> ws_inv w \<Longrightarrow> ws_inv w'"
  using totals_step [of w c w']
  by (auto simp: ws_inv_def channel_ids_step node_names_step chan.find_None node.find_None
      split: ws_call.splits)

lemma ws_inv_run: "ws_run w cs w' \<Longrightarrow> ws_inv w \<Longrightarrow> ws_inv w'"
  by (induction rule: ws_run.induct) (auto intro: ws_inv_step)

lemma find_channel_step: "ws_step w c w' \<Longrightarrow> find_channel w k = Some i \<Longrightarrow> find_channel w' k = Some i"
  by (auto simp: channel_ids_step chan.find_Some nth_append split: ws_call.splits)

lemma find_node_step: "ws_step w c w' \<Longrightarrow> find_node w k = Some i \<Longrightarrow> find_node w' k = Some i"
  by (auto simp: node_names_step node.find_Some nth_append split: ws_call.splits)

lemma run_keeps_handles:
  "ws_run w cs w' \<Longrightarrow>
     (find_channel w k = Some i \<longrightarrow> find_channel w' k = Some i) \<and>
     (find_node w n = Some j \<longrightarrow> find_node w' n = Some j)"
  by (induction rule: ws_run.induct) (auto intro: find_channel_step find_node_step)

section \<open>What the calls on one channel add up to\<close>

text \<open>The calls of a run that reach channel \<open>i\<close>; those after its last reset.\<close>

fun calls_on :: "nat \<Rightarrow> ws_call list \<Rightarrow> channel_call list" where
  "calls_on i [] = []"
| "calls_on i (OnChannel j c # cs) = (if i = j then c # calls_on i cs else calls_on i cs)"
| "calls_on i (ResetAll # cs) = Reset # calls_on i cs"
| "calls_on i (_ # cs) = calls_on i cs"

definition since_reset :: "channel_call list \<Rightarrow> channel_call list" where
  "since_reset cs = rev (takeWhile (\<lambda>c. c \<noteq> Reset) (rev cs))"

lemma channel_step:
  "ws_step w c w' \<Longrightarrow> i < length (ws_channels w) \<Longrightarrow>
   i < length (ws_channels w') \<and>
   ws_channels w' ! i = fold channel_do (calls_on i [c]) (ws_channels w ! i)"
  by (auto elim!: ws_stepE simp: nth_append reset_all_stats_def nth_list_update)

lemma calls_on_Cons: "calls_on i (c # cs) = calls_on i [c] @ calls_on i cs"
  by (cases c) simp_all

lemma channel_run:
  "ws_run w cs w' \<Longrightarrow> i < length (ws_channels w) \<Longrightarrow>
   i < length (ws_channels w') \<and>
   ws_channels w' ! i = fold channel_do (calls_on i cs) (ws_channels w ! i)"
proof (induction rule: ws_run.induct)
  case (ws_more w c w' cs w'')
  then show ?case
    using channel_step [OF ws_more(1,4)] by (subst calls_on_Cons) simp
qed simp

lemma since_reset_snoc: "since_reset (cs @ [c]) = (if c = Reset then [] else since_reset cs @ [c])"
  by (simp add: since_reset_def)

lemma counters_fold:
  "ch_rx_count (fold channel_do cs ch) =
     (if Reset \<in> set cs then 0 else ch_rx_count ch) + of_nat (count_list (since_reset cs) Rx)"
  "ch_tx_count (fold channel_do cs ch) =
     (if Reset \<in> set cs then 0 else ch_tx_count ch) + of_nat (count_list (since_reset cs) Tx)"
  "ch_error_count (fold channel_do cs ch) =
     (if Reset \<in> set cs then 0 else ch_error_count ch) + of_nat (count_list (since_reset cs) Error)"
  by (induction cs rule: rev_induct; (simp add: since_reset_def; fail)?;
      case_tac x; simp add: since_reset_snoc channel_defs)+

lemma fold_identity:
  "ch_id (fold channel_do cs ch) = ch_id ch" "ch_type (fold channel_do cs ch) = ch_type ch"
  "ch_name (fold channel_do cs ch) = ch_name ch"
  by (induction cs arbitrary: ch) simp_all

text \<open>Nodes: their name and channel are fixed, the script and the active flag are what was set last.\<close>

fun node_calls_on :: "nat \<Rightarrow> ws_call list \<Rightarrow> node_call list" where
  "node_calls_on i [] = []"
| "node_calls_on i (OnNode j c # cs) = (if i = j then c # node_calls_on i cs else node_calls_on i cs)"
| "node_calls_on i (_ # cs) = node_calls_on i cs"

fun last_script :: "string \<Rightarrow> node_call list \<Rightarrow> string" where
  "last_script p [] = p"
| "last_script p (Script q # cs) = last_script q cs"
| "last_script p (Active b # cs) = last_script p cs"

fun last_active :: "bool \<Rightarrow> node_call list \<Rightarrow> bool" where
  "last_active a [] = a"
| "last_active a (Script q # cs) = last_active a cs"
| "last_active a (Active b # cs) = last_active b cs"

lemma node_step:
  "ws_step w c w' \<Longrightarrow> i < length (ws_nodes w) \<Longrightarrow>
   i < length (ws_nodes w') \<and>
   ws_nodes w' ! i = fold node_do (node_calls_on i [c]) (ws_nodes w ! i)"
  by (auto elim!: ws_stepE simp: nth_append reset_all_stats_def nth_list_update add_node_def
      add_channel_def Let_def)

lemma node_calls_on_Cons: "node_calls_on i (c # cs) = node_calls_on i [c] @ node_calls_on i cs"
  by (cases c) simp_all

lemma node_run:
  "ws_run w cs w' \<Longrightarrow> i < length (ws_nodes w) \<Longrightarrow>
   i < length (ws_nodes w') \<and>
   ws_nodes w' ! i = fold node_do (node_calls_on i cs) (ws_nodes w ! i)"
proof (induction rule: ws_run.induct)
  case (ws_more w c w' cs w'')
  then show ?case
    using node_step [OF ws_more(1,4)] by (subst node_calls_on_Cons) simp
qed simp

lemma node_fold:
  "nd_name (fold node_do cs n) = nd_name n" "nd_channel_id (fold node_do cs n) = nd_channel_id n"
  "nd_script_path (fold node_do cs n) = last_script (nd_script_path n) cs"
  "nd_active (fold node_do cs n) = last_active (nd_active n) cs"
  by (induction cs arbitrary: n; (simp; fail)?; case_tac a; simp add: set_script_path_def set_active_def)+

section \<open>Properties\<close>

text \<open>C22: Whatever sequence of calls a client makes on a fresh workspace, the channel numbers stay
  pairwise distinct (so there are at most 256 channels), the node names stay pairwise distinct, and
  on every channel the total equals received plus transmitted frames (as 64-bit counters).\<close>

theorem workspace_reachable_inv:
  assumes "ws_run empty_Workspace cs w"
  shows "distinct (map ch_id (ws_channels w)) \<and> length (ws_channels w) \<le> 256 \<and>
         distinct (map nd_name (ws_nodes w)) \<and>
         (\<forall>c\<in>set (ws_channels w). ch_total_frames c = ch_rx_count c + ch_tx_count c)"
proof -
  have "ws_inv empty_Workspace"
    by (simp add: ws_inv_def empty_Workspace_def channel_ids_def node_names_def totals_ok_def)
  then have "ws_inv w" by (rule ws_inv_run [OF assms])
  then show ?thesis
    using distinct_bytes_length [of "channel_ids w"]
    by (simp add: ws_inv_def totals_ok_def channel_ids_def node_names_def)
qed

text \<open>Inserting a channel succeeds exactly if its number is not taken, and then returns the
  handle under which the new, enabled channel with zero counters is found; a refused insertion
  changes nothing, and no insertion changes what any other number finds.\<close>

theorem add_channel_contract:
  "case add_channel w k t n of
     (Some i, w') \<Rightarrow> find_channel w k = None \<and> find_channel w' k = Some i \<and>
        ws_channels w' ! i = new_Channel k t n \<and> ws_nodes w' = ws_nodes w \<and>
        (\<forall>j. j \<noteq> k \<longrightarrow> find_channel w' j = find_channel w j)
   | (None, w') \<Rightarrow> find_channel w k \<noteq> None \<and> w' = w"
proof (cases "find_channel w k")
  case None
  have "add_channel w k t n = (Some (length (ws_channels w)), w\<lparr>ws_channels := ws_channels w @ [new_Channel k t n]\<rparr>)"
    using None by (simp add: add_channel_def)
  then show ?thesis
    using None chan.find_added [of w k "(t, n)"] chan.find_other [of _ k w "(t, n)"]
    by (simp add: channel_ids_def)
qed (simp add: add_channel_def)

text \<open>C24: Handles are stable and the objects behind them say what was called. A channel found before
  a run of calls is found at the same place after it, with the same number, type and name, and its
  counters are what they were (or zero if it was reset) plus the number of receptions, transmissions
  and errors reported since the last reset. A node found before the run is found at the same place
  after it, with the same name and channel, and its script and active flag are those set last.\<close>

theorem channel_run_counts:
  assumes "ws_run w cs w'"
  shows "(find_channel w k = Some i \<longrightarrow> find_channel w' k = Some i \<and>
    (let before = ws_channels w ! i; after = ws_channels w' ! i; calls = calls_on i cs;
         count = (\<lambda>c. of_nat (count_list (since_reset calls) c));
         base = (\<lambda>f. if Reset \<in> set calls then 0 else f before)
     in ch_id after = k \<and> ch_type after = ch_type before \<and> ch_name after = ch_name before \<and>
        ch_rx_count after = base ch_rx_count + count Rx \<and>
        ch_tx_count after = base ch_tx_count + count Tx \<and>
        ch_error_count after = base ch_error_count + count Error)) \<and>
    (find_node w nm = Some j \<longrightarrow> find_node w' nm = Some j \<and>
    (let before = ws_nodes w ! j; after = ws_nodes w' ! j; calls = node_calls_on j cs
     in nd_name after = nm \<and> nd_channel_id after = nd_channel_id before \<and>
        nd_script_path after = last_script (nd_script_path before) calls \<and>
        nd_active after = last_active (nd_active before) calls))"
proof (intro conjI impI)
  assume c: "find_channel w k = Some i"
  then show f: "find_channel w' k = Some i"
    using run_keeps_handles [OF assms] by blast
  have "ws_channels w' ! i = fold channel_do (calls_on i cs) (ws_channels w ! i)"
    and "i < length (ws_channels w')"
    using channel_run [OF assms, of i] c by (auto simp: chan.find_Some channel_ids_def)
  then show "let before = ws_channels w ! i; after = ws_channels w' ! i; calls = calls_on i cs;
         count = (\<lambda>c. of_nat (count_list (since_reset calls) c));
         base = (\<lambda>f. if Reset \<in> set calls then 0 else f before)
     in ch_id after = k \<and> ch_type after = ch_type before \<and> ch_name after = ch_name before \<and>
        ch_rx_count after = base ch_rx_count + count Rx \<and>
        ch_tx_count after = base ch_tx_count + count Tx \<and>
        ch_error_count after = base ch_error_count + count Error"
    using f by (simp add: counters_fold fold_identity chan.find_Some channel_ids_def Let_def)
next
  assume c: "find_node w nm = Some j"
  then show f: "find_node w' nm = Some j"
    using run_keeps_handles [OF assms] by blast
  have "ws_nodes w' ! j = fold node_do (node_calls_on j cs) (ws_nodes w ! j)"
    and "j < length (ws_nodes w')"
    using node_run [OF assms, of j] c by (auto simp: node.find_Some node_names_def)
  then show "let before = ws_nodes w ! j; after = ws_nodes w' ! j; calls = node_calls_on j cs
     in nd_name after = nm \<and> nd_channel_id after = nd_channel_id before \<and>
        nd_script_path after = last_script (nd_script_path before) calls \<and>
        nd_active after = last_active (nd_active before) calls"
    using f by (simp add: node_fold node.find_Some node_names_def Let_def)
qed

text \<open>A run that registers a channel twice, uses it and resets it.\<close>

definition sample_calls :: "ws_call list" where
  "sample_calls =
     [AddChannel 3 BT_BUS_LIN ''b'', OnChannel 0 Rx, ResetAll, OnChannel 0 Rx, OnChannel 0 Tx,
      AddNode ''ecu'' 3 '''', OnNode 0 (Active False)]"

definition sample_start :: Workspace where
  "sample_start = \<lparr>ws_channels = [new_Channel 3 BT_BUS_CAN ''a''], ws_nodes = []\<rparr>"

definition sample_end :: Workspace where
  "sample_end =
     \<lparr>ws_channels = [(new_Channel 3 BT_BUS_CAN ''a'')
        \<lparr>ch_rx_count := 1, ch_tx_count := 1, ch_total_frames := 2\<rparr>],
      ws_nodes = [(new_Node ''ecu'' 3 '''')\<lparr>nd_active := False\<rparr>]\<rparr>"

lemma sample_run: "ws_run sample_start sample_calls sample_end"
  by (simp add: ws_run_exec sample_start_def sample_calls_def sample_end_def add_channel_def
      add_node_def find_channel_def find_node_def reset_all_stats_def channel_defs new_Channel_def
      set_active_def)

lemma sample_run_fresh:
  "ws_run empty_Workspace (AddChannel 3 BT_BUS_CAN ''a'' # sample_calls) sample_end"
proof (rule ws_more [OF _ sample_run])
  show "ws_step empty_Workspace (AddChannel 3 BT_BUS_CAN ''a'') sample_start"
    by (simp add: ws_step_exec add_channel_def find_channel_def empty_Workspace_def sample_start_def)
qed

theorem workspace_reachable_inv_witness:
  "distinct (map ch_id (ws_channels sample_end)) \<and> length (ws_channels sample_end) \<le> 256 \<and>
   distinct (map nd_name (ws_nodes sample_end)) \<and>
   ch_total_frames (ws_channels sample_end ! 0)
     = ch_rx_count (ws_channels sample_end ! 0) + ch_tx_count (ws_channels sample_end ! 0)"
  using workspace_reachable_inv [OF sample_run_fresh] by (auto simp: sample_end_def)

theorem add_channel_contract_witness:
  "fst (add_channel sample_start 4 BT_BUS_LIN ''x'') = Some 1 \<and>
   find_channel (snd (add_channel sample_start 4 BT_BUS_LIN ''x'')) 4 = Some 1 \<and>
   find_channel (snd (add_channel sample_start 4 BT_BUS_LIN ''x'')) 3 = find_channel sample_start 3"
proof -
  have r: "fst (add_channel sample_start 4 BT_BUS_LIN ''x'') = Some 1"
    by (simp add: add_channel_def find_channel_def sample_start_def new_Channel_def)
  obtain w' where w: "add_channel sample_start 4 BT_BUS_LIN ''x'' = (Some 1, w')"
    using r by (cases "add_channel sample_start 4 BT_BUS_LIN ''x''") simp
  have "find_channel w' 4 = Some 1 \<and> find_channel w' 3 = find_channel sample_start 3"
    using add_channel_contract [of sample_start 4 BT_BUS_LIN "''x''"] by (simp add: w)
  then show ?thesis by (simp add: w)
qed

text \<open>The run without the registrations, on a workspace that has the node.\<close>

definition sample_both :: Workspace where
  "sample_both = \<lparr>ws_channels = [new_Channel 3 BT_BUS_CAN ''a''], ws_nodes = [new_Node ''ecu'' 3 '''']\<rparr>"

lemma sample_run_both:
  "ws_run sample_both [OnChannel 0 Rx, ResetAll, OnChannel 0 Rx, OnChannel 0 Tx, OnNode 0 (Active False)] sample_end"
  by (simp add: ws_run_exec sample_both_def sample_end_def reset_all_stats_def channel_defs
      new_Channel_def new_Node_def set_active_def)

theorem channel_run_counts_witness:
  "find_channel sample_end 3 = Some 0 \<and> ch_name (ws_channels sample_end ! 0) = ''a'' \<and>
   ch_rx_count (ws_channels sample_end ! 0) = 1 \<and> ch_tx_count (ws_channels sample_end ! 0) = 1 \<and>
   ch_error_count (ws_channels sample_end ! 0) = 0 \<and>
   find_node sample_end ''ecu'' = Some 0 \<and> nd_channel_id (ws_nodes sample_end ! 0) = 3 \<and>
   nd_script_path (ws_nodes sample_end ! 0) = [] \<and> \<not> nd_active (ws_nodes sample_end ! 0)"
proof -
  have f: "find_channel sample_both 3 = Some 0" "find_node sample_both ''ecu'' = Some 0"
    by (simp_all add: find_channel_def find_node_def sample_both_def new_Channel_def new_Node_def)
  have b: "ch_name (ws_channels sample_both ! 0) = ''a''" "nd_channel_id (ws_nodes sample_both ! 0) = 3"
    "nd_script_path (ws_nodes sample_both ! 0) = []"
    by (simp_all add: sample_both_def new_Channel_def new_Node_def)
  show ?thesis
    using channel_run_counts [OF sample_run_both, of 3 0 "''ecu''" 0] f b
    by (simp add: Let_def since_reset_def)
qed

end
