(* ===== verification/Signal.thy ===== *)
theory Signal
  imports Doubles
begin

text \<open>
  Signal definitions and their scaling (\<^verbatim>\<open>core/signal.h\<close>): the raw value of a signal to its
  physical value and back, in binary64 arithmetic with the rounding and the undefined conversions
  of the code.
\<close>

section \<open>The code\<close>

record Signal =
  sg_name :: string
  sg_start_bit :: u8
  sg_length :: u8
  sg_factor :: double
  sg_offset :: double
  sg_min_value :: double
  sg_max_value :: double
  sg_unit :: string
  sg_is_signed :: bool
  sg_little_endian :: bool

definition default_Signal :: Signal where
  "default_Signal =
     \<lparr>sg_name = [], sg_start_bit = 0, sg_length = 1, sg_factor = done1, sg_offset = dzero,
      sg_min_value = dzero, sg_max_value = dzero, sg_unit = [], sg_is_signed = False,
      sg_little_endian = True\<rparr>"

text \<open>A message of the database (\<^verbatim>\<open>DbcMessage\<close>): its signals in the order of the file.\<close>

record DbcMessage =
  dm_id :: u32
  dm_name :: string
  dm_dlc :: u8
  dm_tx_node :: string
  dm_signals :: "Signal list"

definition default_DbcMessage :: DbcMessage where
  "default_DbcMessage = \<lparr>dm_id = 0, dm_name = [], dm_dlc = 0, dm_tx_node = [], dm_signals = []\<rparr>"

definition raw_to_physical :: "Signal \<Rightarrow> u64 \<Rightarrow> double" where
  "raw_to_physical s raw =
     (if sg_is_signed s then dadd (dmul (dof_i64 raw) (sg_factor s)) (sg_offset s)
      else dadd (dmul (dof_u64 raw) (sg_factor s)) (sg_offset s))"

definition dhalf :: double where "dhalf = DFin False (1 / 2)"

definition physical_to_raw :: "Signal \<Rightarrow> double \<Rightarrow> u64 res" where
  "physical_to_raw s physical =
     (let raw = ddiv (dsub physical (sg_offset s)) (sg_factor s)
      in if dle raw dzero then Inr 0 else dto_u64 (dadd raw dhalf))"

section \<open>Exact operations\<close>

text \<open>\<open>d\<close> is a finite double with the value \<open>v\<close>.\<close>

definition denotes :: "double \<Rightarrow> rat \<Rightarrow> bool" where
  "denotes d v \<longleftrightarrow> (\<exists>s x. d = DFin s x \<and> 0 \<le> x \<and> v = (if s then - x else x))"

lemma denotes_val: "denotes d v \<Longrightarrow> val d = v"
  by (auto simp: denotes_def)

lemma denotes_of_rat64: "rep64 v \<Longrightarrow> denotes (of_rat64 v) v"
  by (auto simp: of_rat64_exact denotes_def)

lemma rep64_abs: "rep64 v \<longleftrightarrow> rep64 \<bar>v\<bar>"
proof -
  have neg: "rep64 w \<Longrightarrow> rep64 (- w)" for w
  proof -
    assume "rep64 w"
    then obtain m e where w: "w = of_int m * pow2 e" "\<bar>m\<bar> < 2 ^ 53" "- 1074 \<le> e" "\<bar>w\<bar> < pow2 1024"
      unfolding rep64_def by blast
    then have "- w = of_int (- m) * pow2 e" "\<bar>- m\<bar> < 2 ^ 53" "\<bar>- w\<bar> < pow2 1024"
      by (simp_all del: pow2_numeral)
    with w(3) show "rep64 (- w)" unfolding rep64_def by blast
  qed
  show ?thesis
    using neg [of v] neg [of "- v"] by (cases "0 \<le> v") auto
qed

lemma round64_exact: "rep64 v \<Longrightarrow> 0 \<le> v \<Longrightarrow> round64 s v = DFin s v"
proof -
  assume v: "rep64 v" "0 \<le> v"
  then have "round_mag v = v" "v < pow2 1024"
    using of_rat64_exact [OF v(1)] by (auto simp: of_rat64_def round64_def Let_def split: if_splits)
  then show "round64 s v = DFin s v" by (simp add: round64_def Let_def del: pow2_numeral)
qed

lemma denotes_dmul:
  assumes "denotes a x" and "denotes b y" and "rep64 (x * y)"
  shows "denotes (dmul a b) (x * y)"
proof -
  obtain s u t w where a: "a = DFin s u" "0 \<le> u" "x = (if s then - u else u)"
    and b: "b = DFin t w" "0 \<le> w" "y = (if t then - w else w)"
    using assms(1,2) by (auto simp: denotes_def)
  have "\<bar>x * y\<bar> = u * w" using a b by (simp add: abs_mult)
  then have "rep64 (u * w)" using assms(3) rep64_abs [of "x * y"] by simp
  then have "round64 (s \<noteq> t) (u * w) = DFin (s \<noteq> t) (u * w)"
    using a b by (intro round64_exact) simp_all
  then show ?thesis using a b by (simp add: denotes_def)
qed

lemma denotes_ddiv:
  assumes "denotes a x" and "denotes b y" and "rep64 (x / y)" and "y \<noteq> 0"
  shows "denotes (ddiv a b) (x / y)"
proof -
  obtain s u t w where a: "a = DFin s u" "0 \<le> u" "x = (if s then - u else u)"
    and b: "b = DFin t w" "0 < w" "y = (if t then - w else w)"
    using assms(1,2,4) by (fastforce simp: denotes_def split: if_splits)
  have "\<bar>x / y\<bar> = u / w" using a b by (simp add: abs_divide)
  then have "rep64 (u / w)" using assms(3) rep64_abs [of "x / y"] by simp
  then have "round64 (s \<noteq> t) (u / w) = DFin (s \<noteq> t) (u / w)"
    using a b by (intro round64_exact) simp_all
  then show ?thesis using a b by (simp add: denotes_def)
qed

lemma denotes_dadd:
  assumes "denotes a x" and "denotes b y" and "rep64 (x + y)"
  shows "denotes (dadd a b) (x + y)"
proof -
  obtain s u t w where a: "a = DFin s u" "x = (if s then - u else u)"
    and b: "b = DFin t w" "y = (if t then - w else w)"
    using assms(1,2) by (auto simp: denotes_def)
  have "val a = x" "val b = y" using a b by simp_all
  then have "dadd a b = (if x + y = 0 then DFin (s \<and> t) 0 else of_rat64 (x + y))"
    using a b by (simp add: Let_def)
  moreover have "denotes (DFin (s \<and> t) 0) 0" by (simp add: denotes_def)
  ultimately show ?thesis
    using denotes_of_rat64 [OF assms(3)] by metis
qed

lemma denotes_dneg:
  assumes "denotes a x"
  shows "denotes (dneg a) (- x)"
proof -
  obtain s u where "a = DFin s u" "0 \<le> u" "x = (if s then - u else u)"
    using assms unfolding denotes_def by blast
  then show ?thesis
    unfolding denotes_def by (intro exI [of _ "\<not> s"] exI [of _ u]) simp
qed

lemma denotes_dsub:
  assumes "denotes a x" and "denotes b y" and "rep64 (x - y)"
  shows "denotes (dsub a b) (x - y)"
  using denotes_dadd [OF assms(1) denotes_dneg [OF assms(2)]] assms(3) by (simp add: dsub_def)

lemma denotes_dle: "denotes a x \<Longrightarrow> denotes b y \<Longrightarrow> dle a b \<longleftrightarrow> x \<le> y"
  by (auto simp: denotes_def)

lemma denotes_DFin: "0 \<le> x \<Longrightarrow> denotes (DFin False x) x"
  unfolding denotes_def by (intro exI [of _ False] exI [of _ x]) simp

lemma denotes_zero [simp]: "denotes dzero 0"
  by (simp add: dzero_def denotes_DFin)

lemma denotes_half [simp]: "denotes dhalf (1 / 2)"
  by (simp add: dhalf_def denotes_DFin)

lemma denotes_one [simp]: "denotes done1 1"
  by (simp add: done1_def denotes_DFin)

lemma dto_u64_denotes:
  "denotes a x \<Longrightarrow> 0 \<le> x \<Longrightarrow> x < 2 ^ 64 \<Longrightarrow> dto_u64 a = Inr (of_nat (nat \<lfloor>x\<rfloor>))"
  by (auto simp: denotes_def Let_def)

text \<open>The integer a raw value stands for.\<close>

definition raw_int :: "Signal \<Rightarrow> u64 \<Rightarrow> int" where
  "raw_int s raw = (if sg_is_signed s then sint raw else uint raw)"

lemma raw_to_physical_denotes:
  assumes "denotes (sg_factor s) f" and "denotes (sg_offset s) c"
    and "\<bar>raw_int s raw\<bar> < 2 ^ 53"
    and "rep64 (of_int (raw_int s raw) * f)" and "rep64 (of_int (raw_int s raw) * f + c)"
  shows "denotes (raw_to_physical s raw) (of_int (raw_int s raw) * f + c)"
proof -
  have "denotes (of_rat64 (of_int (raw_int s raw))) (of_int (raw_int s raw))"
    using assms(3) by (intro denotes_of_rat64 rep64_of_int)
  then have "denotes (dadd (dmul (of_rat64 (of_int (raw_int s raw))) (sg_factor s)) (sg_offset s))
     (of_int (raw_int s raw) * f + c)"
    using assms by (intro denotes_dadd denotes_dmul)
  moreover have "dof_u64 raw = of_rat64 (of_int (uint raw))"
    by (simp add: dof_u64_def)
  ultimately show ?thesis
    by (simp add: raw_to_physical_def raw_int_def dof_i64_def split: if_splits)
qed

lemma physical_to_raw_denotes:
  assumes "denotes p (of_int n * f + c)" and "denotes (sg_factor s) f" and "denotes (sg_offset s) c"
    and "f \<noteq> 0" and "rep64 (of_int n * f)" and "\<bar>n\<bar> < 2 ^ 52"
  shows "physical_to_raw s p = Inr (if n \<le> 0 then 0 else of_int n)"
proof -
  have "denotes (dsub p (sg_offset s)) (of_int n * f)"
    using denotes_dsub [OF assms(1,3)] assms(5) by simp
  then have q: "denotes (ddiv (dsub p (sg_offset s)) (sg_factor s)) (of_int n)"
    using denotes_ddiv [OF _ assms(2), of _ "of_int n * f"] assms rep64_of_int [of n] by simp
  have "rep64 (of_int (2 * n + 1) / 2)" using assms(6) by (intro rep64_half) auto
  then have h: "denotes (dadd (ddiv (dsub p (sg_offset s)) (sg_factor s)) dhalf) (of_int n + 1 / 2)"
    using denotes_dadd [OF q denotes_half] by (simp add: add_divide_distrib)
  show ?thesis
  proof (cases "n \<le> 0")
    case True
    then show ?thesis
      using denotes_dle [OF q denotes_zero] by (simp add: physical_to_raw_def Let_def)
  next
    case False
    have "of_int n < (of_int (2 ^ 52) :: rat)" using assms(6) by (simp only: of_int_less_iff)
    then have b: "0 \<le> of_int n + (1 / 2 :: rat)" "of_int n + 1 / 2 < (2 ^ 64 :: rat)"
      using False by auto
    have fl: "\<lfloor>of_int n + (1 / 2 :: rat)\<rfloor> = n" by linarith
    have "dto_u64 (dadd (ddiv (dsub p (sg_offset s)) (sg_factor s)) dhalf)
        = Inr (of_nat (nat \<lfloor>of_int n + (1 / 2 :: rat)\<rfloor>))"
      by (rule dto_u64_denotes [OF h b])
    then show ?thesis
      using False denotes_dle [OF q denotes_zero] fl
      by (simp add: physical_to_raw_def Let_def)
  qed
qed

section \<open>Properties\<close>

text \<open>C25: Scaling a raw value and scaling it back. If the product of raw value and factor and the
  physical value are representable (as with decimal-free factors and raw values below 2^52), the
  conversion back returns the raw value exactly, except that every negative value of a signed
  signal comes back as zero: the code clamps instead of rounding.\<close>

theorem physical_roundtrip:
  assumes "denotes (sg_factor s) f" and "denotes (sg_offset s) c" and "f \<noteq> 0"
    and "\<bar>raw_int s raw\<bar> < 2 ^ 52"
    and "rep64 (of_int (raw_int s raw) * f)" and "rep64 (of_int (raw_int s raw) * f + c)"
  shows "val (raw_to_physical s raw) = of_int (raw_int s raw) * f + c \<and>
         physical_to_raw s (raw_to_physical s raw)
           = Inr (if sg_is_signed s \<and> sint raw < 0 then 0 else raw)"
proof -
  have d: "denotes (raw_to_physical s raw) (of_int (raw_int s raw) * f + c)"
    using assms by (intro raw_to_physical_denotes) auto
  have "physical_to_raw s (raw_to_physical s raw)
      = Inr (if raw_int s raw \<le> 0 then 0 else of_int (raw_int s raw))"
    using assms by (intro physical_to_raw_denotes [OF d]) auto
  moreover have "of_int (raw_int s raw) = raw"
    by (simp add: raw_int_def)
  moreover have "raw_int s raw = 0 \<Longrightarrow> raw = 0"
    using calculation(2) by auto
  moreover have "raw_int s raw < 0 \<longleftrightarrow> sg_is_signed s \<and> sint raw < 0"
    by (simp add: raw_int_def)
  ultimately show ?thesis
    using denotes_val [OF d] by (auto simp: le_less)
qed

text \<open>A temperature-like signal: half a degree per unit, offset minus 40.\<close>

definition sample_signal :: Signal where
  "sample_signal = default_Signal\<lparr>sg_factor := dhalf, sg_offset := DFin True 40, sg_is_signed := True\<rparr>"

lemma sample_signal_scaling:
  "denotes (sg_factor sample_signal) (1 / 2)" "denotes (sg_offset sample_signal) (- 40)"
  using denotes_dneg [OF denotes_DFin [of 40]] by (simp_all add: sample_signal_def)

theorem physical_roundtrip_witness:
  "val (raw_to_physical sample_signal (- 7)) = - 43.5 \<and>
   physical_to_raw sample_signal (raw_to_physical sample_signal (- 7)) = Inr 0 \<and>
   sint (- 7 :: u64) < 0"
proof -
  have s: "raw_int sample_signal (- 7) = - 7" "sint (- 7 :: u64) = - 7" "sg_is_signed sample_signal"
    by (simp_all add: raw_int_def sample_signal_def)
  have "rep64 (of_int (- 7) / 2)" "rep64 (of_int (- 87) / 2)"
    by (rule rep64_half, simp)+
  then show ?thesis
    using physical_roundtrip [OF sample_signal_scaling, of "- 7"] s by simp
qed

end
