(* ===== verification/CanDecoder.thy ===== *)
theory CanDecoder
  imports Signal BusTypes
begin

text \<open>
  Decoding a frame against a message of the database (\<^verbatim>\<open>protocol/can/can_decoder.cpp\<close>): the two bit
  extraction loops, sign extension and the loop over the signals. The payload is read through the
  faulting load of the prelude, so that absence of out-of-bounds reads is a theorem.
\<close>

section \<open>The code\<close>

text \<open>\<open>n\<close> iterations are left, \<open>i\<close> is the loop counter.\<close>

fun intel_loop :: "nat \<Rightarrow> nat \<Rightarrow> u8 \<Rightarrow> byte list \<Rightarrow> u8 \<Rightarrow> u64 \<Rightarrow> u64 res" where
  "intel_loop 0 i start data dlc v = Inr v"
| "intel_loop (Suc n) i start data dlc v =
     (let bit = unat start + i; byte = bit div 8 in
      if byte \<ge> unat dlc then Inr v
      else let b = bit mod 8 in
        bindr (load data byte) (\<lambda>x.
        intel_loop n (Suc i) start data dlc
          (if drop_bit b x AND 1 \<noteq> 0 then v OR push_bit i 1 else v)))"

fun motorola_loop :: "nat \<Rightarrow> nat \<Rightarrow> byte list \<Rightarrow> u8 \<Rightarrow> u64 \<Rightarrow> u64 res" where
  "motorola_loop 0 pos data dlc v = Inr v"
| "motorola_loop (Suc n) pos data dlc v =
     (let byte = pos div 8 in
      if byte \<ge> unat dlc then Inr v
      else let b = 7 - pos mod 8 in
        bindr (load data byte) (\<lambda>x.
        motorola_loop n (pos + 1) data dlc (push_bit 1 v OR ucast (drop_bit b x AND 1))))"

definition extract_raw :: "Signal \<Rightarrow> byte list option \<Rightarrow> u8 \<Rightarrow> u64 res" where
  "extract_raw sig data dlc =
     (case data of
        None \<Rightarrow> Inr 0
      | Some d \<Rightarrow>
          let len = (if unat (sg_length sig) > 64 then 64 else unat (sg_length sig)) in
          if len = 0 then Inr 0
          else if sg_little_endian sig then intel_loop len 0 (sg_start_bit sig) d dlc 0
          else motorola_loop len (unat (sg_start_bit sig)) d dlc 0)"

definition sign_extend :: "u64 \<Rightarrow> u8 \<Rightarrow> u64" where
  "sign_extend raw len =
     (if len = 0 \<or> unat len \<ge> 64 then raw
      else let sign = push_bit (unat len - 1) 1 in
        if raw AND sign \<noteq> 0 then raw OR NOT (push_bit (unat len) 1 - 1) else raw)"

record SignalValue =
  sv_message_name :: string
  sv_signal_name :: string
  sv_raw :: u64
  sv_physical :: double

fun decode_loop :: "DbcMessage \<Rightarrow> bt_bus_frame \<Rightarrow> Signal list \<Rightarrow> SignalValue list \<Rightarrow> SignalValue list res" where
  "decode_loop msg frame [] out = Inr out"
| "decode_loop msg frame (s # ss) out =
     bindr (extract_raw s (Some (f_data frame)) (f_dlc frame)) (\<lambda>raw.
       let raw = (if sg_is_signed s then sign_extend raw (sg_length s) else raw);
           sv = \<lparr>sv_message_name = dm_name msg, sv_signal_name = sg_name s, sv_raw = raw,
                 sv_physical = raw_to_physical s raw\<rparr>
       in decode_loop msg frame ss (out @ [sv]))"

text \<open>The result and the output vector (\<^const>\<open>None\<close> for a null pointer).\<close>

definition decode_frame ::
  "DbcMessage \<Rightarrow> bt_bus_frame \<Rightarrow> SignalValue list option \<Rightarrow> (bool \<times> SignalValue list option) res" where
  "decode_frame msg frame out =
     (case out of
        None \<Rightarrow> Inr (False, None)
      | Some _ \<Rightarrow> bindr (decode_loop msg frame (dm_signals msg) []) (\<lambda>vs. Inr (True, Some vs)))"

section \<open>The payload as a number\<close>

lemma bit_le_nat:
  "bit (le_nat bs) k \<longleftrightarrow> k div 8 < length bs \<and> bit (bs ! (k div 8)) (k mod 8)"
proof (induction bs arbitrary: k)
  case Nil
  then show ?case by simp
next
  case (Cons b bs)
  have low: "bit (unat b) j \<longleftrightarrow> j < 8 \<and> bit b j" for j
    by (auto simp: bit_simps dest: bit_imp_le_length)
  have "unat b AND push_bit 8 (le_nat bs) = 0"
    by (rule bit_eqI) (auto simp: bit_simps dest: bit_imp_le_length)
  then have "unat b + 256 * le_nat bs = unat b OR push_bit 8 (le_nat bs)"
    by (simp add: disjunctive_add_eq_or [symmetric] push_bit_eq_mult)
  then show ?case
    using low [of k] Cons.IH [of "k - 8"]
    by (cases "k < 8") (auto simp: bit_or_iff bit_push_bit_iff le_div_geq le_mod_geq not_less)
qed

text \<open>The big-endian reading, used by the Motorola order: the first byte is the most significant.\<close>

definition be_nat :: "byte list \<Rightarrow> nat" where
  "be_nat bs = le_nat (rev bs)"

lemma bit_be_nat:
  assumes "p < 8 * length bs"
  shows "bit (be_nat bs) (8 * length bs - 1 - p) \<longleftrightarrow> bit (bs ! (p div 8)) (7 - p mod 8)"
proof -
  have l: "p div 8 < length bs" using assms by (simp add: less_mult_imp_div_less mult.commute)
  define r where "r = 7 - p mod 8"
  have "8 * length bs - 1 - p = r + 8 * (length bs - 1 - p div 8)"
    using l div_mult_mod_eq [of p 8] mod_less_divisor [of 8 p] unfolding r_def by linarith
  moreover have "r < 8" by (simp add: r_def)
  ultimately have "(8 * length bs - 1 - p) div 8 = length bs - 1 - p div 8"
    "(8 * length bs - 1 - p) mod 8 = r"
    by simp_all
  then have q: "(8 * length bs - 1 - p) div 8 = length bs - 1 - p div 8"
    "(8 * length bs - 1 - p) mod 8 = 7 - p mod 8" "p div 8 < length bs"
    using l unfolding r_def by blast+
  have "length bs - Suc (length bs - 1 - p div 8) = p div 8" using l by linarith
  then have "rev bs ! (length bs - 1 - p div 8) = bs ! (p div 8)"
    using l by (subst rev_nth) simp_all
  moreover have "length bs - 1 - p div 8 < length bs" using l by linarith
  ultimately show ?thesis
    unfolding be_nat_def bit_le_nat q(1,2) length_rev by simp
qed

lemma be_nat_bound: "be_nat bs < 256 ^ length bs"
  using le_nat_bound [of "rev bs"] by (simp add: be_nat_def)

section \<open>The Intel loop\<close>

text \<open>The bytes the loops may read: those below the length code.\<close>

definition window :: "byte list \<Rightarrow> u8 \<Rightarrow> byte list" where
  "window d dlc = take (unat dlc) d"

lemma test_bit_byte: "drop_bit b (x :: byte) AND 1 \<noteq> 0 \<longleftrightarrow> bit x b"
  by (simp add: bit_iff_odd_drop_bit and_one_eq odd_iff_mod_2_eq_one)

lemma intel_loop_bits:
  assumes "unat dlc \<le> length d \<or> unat start + i + n \<le> 8 * length d" and "i + n \<le> 64"
  shows "\<exists>r. intel_loop n i start d dlc v = Inr r \<and>
    (\<forall>j. bit r j \<longleftrightarrow> bit v j \<or> i \<le> j \<and> j < i + n \<and> bit (le_nat (window d dlc)) (unat start + j))"
  using assms
proof (induction n arbitrary: i v)
  case 0
  then show ?case by auto
next
  case (Suc n)
  let ?k = "unat start + i"
  show ?case
  proof (cases "?k div 8 \<ge> unat dlc")
    case True
    have "\<not> bit (le_nat (window d dlc)) (unat start + j)" if "i \<le> j" for j
    proof -
      have "?k div 8 \<le> (unat start + j) div 8" using that by (intro div_le_mono) simp
      then show ?thesis using True by (simp add: bit_le_nat window_def)
    qed
    then show ?thesis using True by auto
  next
    case False
    then have b: "?k div 8 < length d" using Suc.prems by auto
    let ?w = "if bit (d ! (?k div 8)) (?k mod 8) then v OR push_bit i 1 else v"
    have here: "bit (le_nat (window d dlc)) ?k \<longleftrightarrow> bit (d ! (?k div 8)) (?k mod 8)"
      using False b by (simp add: bit_le_nat window_def)
    have w: "bit ?w j \<longleftrightarrow> bit v j \<or> j = i \<and> bit (le_nat (window d dlc)) ?k" for j
      using Suc.prems(2) here by (auto simp: bit_simps)
    obtain r where r: "intel_loop n (Suc i) start d dlc ?w = Inr r"
      "\<forall>j. bit r j \<longleftrightarrow> bit ?w j \<or> Suc i \<le> j \<and> j < Suc i + n \<and>
         bit (le_nat (window d dlc)) (unat start + j)"
      using Suc.IH [of "Suc i" ?w] Suc.prems by auto
    have "intel_loop (Suc n) i start d dlc v = Inr r"
      using r(1) b False by (simp add: load_def test_bit_byte Let_def)
    moreover have "bit r j \<longleftrightarrow> bit v j \<or> i \<le> j \<and> j < i + Suc n \<and>
         bit (le_nat (window d dlc)) (unat start + j)" for j
      using r(2) w [of j] by (cases j i rule: linorder_cases) simp_all
    ultimately show ?thesis by blast
  qed
qed

lemma intel_loop_value:
  assumes "unat dlc \<le> length d \<or> unat start + n \<le> 8 * length d" and "n \<le> 64"
  shows "\<exists>r. intel_loop n 0 start d dlc 0 = Inr r \<and>
    unat r = le_nat (window d dlc) div 2 ^ unat start mod 2 ^ n"
proof -
  obtain r where r: "intel_loop n 0 start d dlc 0 = Inr r"
    "\<And>j. bit r j \<longleftrightarrow> j < n \<and> bit (le_nat (window d dlc)) (unat start + j)"
    using intel_loop_bits [of dlc d start 0 n 0] assms by auto
  have "unat r = take_bit n (drop_bit (unat start) (le_nat (window d dlc)))"
    using r(2) assms(2) by (intro bit_eqI) (auto simp: bit_simps)
  with r(1) show ?thesis by (auto simp: take_bit_eq_mod drop_bit_eq_div)
qed

section \<open>The Motorola loop\<close>

lemma bit_shift_in:
  "bit (push_bit 1 v OR ucast (drop_bit b (x :: byte) AND 1) :: u64) j \<longleftrightarrow>
     j < 64 \<and> (0 < j \<and> bit v (j - 1) \<or> j = 0 \<and> bit x b)"
proof -
  have "bit (push_bit 1 v) j \<longleftrightarrow> j < 64 \<and> 0 < j \<and> bit v (j - 1)"
    unfolding bit_push_bit_iff by (auto simp: possible_bit_def)
  moreover have "bit (ucast (drop_bit b x AND 1) :: u64) j \<longleftrightarrow> j = 0 \<and> bit x b"
    by (auto simp: bit_simps)
  ultimately show ?thesis
    unfolding bit_or_iff by auto
qed

lemma motorola_loop_value:
  assumes "unat dlc \<le> length d \<or> pos + n \<le> 8 * length d"
    and "s \<le> pos" and "pos - s + n \<le> 64"
    and "unat v = be_nat (window d dlc) div 2 ^ (8 * length (window d dlc) - pos) mod 2 ^ (pos - s)"
  shows "\<exists>r. motorola_loop n pos d dlc v = Inr r \<and>
    (let T = 8 * length (window d dlc); e = max pos (min (pos + n) T) in
     unat r = be_nat (window d dlc) div 2 ^ (T - e) mod 2 ^ (e - s))"
  using assms
proof (induction n arbitrary: pos v)
  case 0
  then show ?case by (simp add: Let_def max_def min_def)
next
  case (Suc n)
  let ?W = "window d dlc"
  let ?N = "be_nat ?W"
  let ?T = "8 * length ?W"
  show ?case
  proof (cases "pos div 8 \<ge> unat dlc")
    case True
    then have "?T \<le> pos" by (simp add: window_def)
    then show ?thesis using True Suc.prems by (simp add: Let_def max_def min_def)
  next
    case False
    then have b: "pos div 8 < length d" using Suc.prems(1) by auto
    have pT: "pos < ?T"
      using False b by (simp add: window_def)
    have nth: "?W ! (pos div 8) = d ! (pos div 8)" using False by (simp add: window_def)
    let ?b = "drop_bit (7 - pos mod 8) (d ! (pos div 8)) AND 1"
    let ?v = "push_bit 1 v OR ucast ?b"
    have e: "?T - pos = Suc (?T - (pos + 1))" using pT by simp
    have "unat ?v = ?N div 2 ^ (?T - (pos + 1)) mod 2 ^ (pos + 1 - s)"
    proof (rule bit_eqI)
      fix j
      have "bit (unat v) j \<longleftrightarrow> j < pos - s \<and> bit ?N (?T - pos + j)" for j
        using Suc.prems(4)
        by (simp add: take_bit_eq_mod [symmetric] drop_bit_eq_div [symmetric] bit_simps)
      then have vb: "bit v j \<longleftrightarrow> j < pos - s \<and> bit ?N (?T - pos + j)" for j
        by (simp add: bit_unsigned_iff)
      have bb: "bit (d ! (pos div 8)) (7 - pos mod 8) \<longleftrightarrow> bit ?N (?T - (pos + 1))"
        using bit_be_nat [OF pT] nth by simp
      have "bit (unat ?v) j \<longleftrightarrow> j < 64 \<and> (0 < j \<and> bit v (j - 1) \<or> j = 0 \<and> bit (d ! (pos div 8)) (7 - pos mod 8))"
        by (simp only: bit_unsigned_iff bit_shift_in) (simp add: possible_bit_def)
      also have "\<dots> \<longleftrightarrow> j < pos + 1 - s \<and> bit ?N (?T - (pos + 1) + j)"
        using Suc.prems(2,3) vb [of "j - 1"] bb e by (cases j) (auto simp: Suc_diff_le)
      finally show "bit (unat ?v) j \<longleftrightarrow>
          bit (?N div 2 ^ (?T - (pos + 1)) mod 2 ^ (pos + 1 - s)) j"
        by (simp add: take_bit_eq_mod [symmetric] drop_bit_eq_div [symmetric] bit_simps)
    qed
    then obtain r where r: "motorola_loop n (pos + 1) d dlc ?v = Inr r"
      "let e = max (pos + 1) (min (pos + 1 + n) ?T) in unat r = ?N div 2 ^ (?T - e) mod 2 ^ (e - s)"
    proof -
      have "unat dlc \<le> length d \<or> pos + 1 + n \<le> 8 * length d" "s \<le> pos + 1" "pos + 1 - s + n \<le> 64"
        using Suc.prems(1-3) by linarith+
      then show thesis
        using Suc.IH [of "pos + 1" ?v] \<open>unat ?v = _\<close> that by (auto simp only: Let_def)
    qed
    have m: "max (pos + 1) (min (pos + 1 + n) ?T) = max pos (min (pos + Suc n) ?T)"
      using pT by simp
    have "motorola_loop (Suc n) pos d dlc v = Inr r"
      using r(1) b False by (simp only: motorola_loop.simps load_def Let_def if_True if_False bindr.simps)
    with r(2) m show ?thesis by (simp only: Let_def) blast
  qed
qed

section \<open>Extraction and sign extension against their specification\<close>

definition sig_len :: "Signal \<Rightarrow> nat" where
  "sig_len s = min 64 (unat (sg_length s))"

text \<open>
  The value of a signal in a payload. Intel: the bits from the start bit upwards of the payload
  read as a little-endian number; missing bits are zero. Motorola: the bits from the start
  position on of the payload written most significant bit first, as far as the frame reaches.
\<close>

definition motorola_end :: "Signal \<Rightarrow> byte list \<Rightarrow> nat" where
  "motorola_end s w =
     max (unat (sg_start_bit s)) (min (unat (sg_start_bit s) + sig_len s) (8 * length w))"

definition raw_spec :: "Signal \<Rightarrow> byte list \<Rightarrow> nat" where
  "raw_spec s w =
     (if sg_little_endian s then le_nat w div 2 ^ unat (sg_start_bit s) mod 2 ^ sig_len s
      else be_nat w div 2 ^ (8 * length w - motorola_end s w)
             mod 2 ^ (motorola_end s w - unat (sg_start_bit s)))"

lemma extract_raw_spec:
  assumes "unat dlc \<le> length d \<or> 40 \<le> length d"
  shows "\<exists>r. extract_raw s (Some d) dlc = Inr r \<and> unat r = raw_spec s (window d dlc)"
proof -
  define n where "n = sig_len s"
  have n: "n = (if unat (sg_length s) > 64 then 64 else unat (sg_length s))" "n \<le> 64"
    by (auto simp: n_def sig_len_def)
  have in_range: "unat dlc \<le> length d \<or> unat (sg_start_bit s) + n \<le> 8 * length d"
    using assms unat_byte_less [of "sg_start_bit s"] n(2) by auto
  obtain r where r: "intel_loop n 0 (sg_start_bit s) d dlc 0 = Inr r"
    "unat r = le_nat (window d dlc) div 2 ^ unat (sg_start_bit s) mod 2 ^ n"
    using intel_loop_value [OF in_range n(2)] by blast
  obtain q where q: "motorola_loop n (unat (sg_start_bit s)) d dlc 0 = Inr q"
    "unat q = be_nat (window d dlc) div 2 ^ (8 * length (window d dlc) - motorola_end s (window d dlc))
       mod 2 ^ (motorola_end s (window d dlc) - unat (sg_start_bit s))"
    using motorola_loop_value [OF in_range order_refl, of 0] n(2)
    by (auto simp: Let_def motorola_end_def n_def)
  have z: "raw_spec s (window d dlc) = 0" if "n = 0"
    using that by (simp add: raw_spec_def motorola_end_def n_def max_def)
  show ?thesis
  proof (cases "n = 0")
    case True
    then show ?thesis using z by (simp add: extract_raw_def n(1) [symmetric] Let_def)
  next
    case False
    then show ?thesis
      using r q by (simp add: extract_raw_def n(1) [symmetric] Let_def raw_spec_def n_def [symmetric])
  qed
qed

lemma raw_spec_bound: "raw_spec s w < 2 ^ sig_len s"
proof -
  have "motorola_end s w - unat (sg_start_bit s) \<le> sig_len s"
    by (simp add: motorola_end_def)
  then have "(2 :: nat) ^ (motorola_end s w - unat (sg_start_bit s)) \<le> 2 ^ sig_len s"
    by (rule power_increasing) simp
  then show ?thesis
    by (auto simp: raw_spec_def intro: less_le_trans [OF mod_less_divisor])
qed

lemma bit_mask_above:
  "bit (NOT (push_bit n 1 - 1) :: u64) j \<longleftrightarrow> n \<le> j \<and> j < 64"
proof -
  have "push_bit n 1 - 1 = (mask n :: u64)" by (simp add: mask_eq_exp_minus_1)
  then show ?thesis by (auto simp: bit_not_iff bit_mask_iff possible_bit_def)
qed

lemma sign_extend_bits:
  assumes "1 \<le> unat len" and "unat len \<le> 63" and "unat raw < 2 ^ unat len"
  shows "bit (sign_extend raw len) j \<longleftrightarrow>
     j < 64 \<and> (if j < unat len then bit raw j else bit raw (unat len - 1))"
proof -
  have "take_bit (unat len) (unat raw) = unat raw"
    using assms(3) by (simp add: take_bit_nat_eq_self_iff)
  then have hi: "\<not> bit raw i" if "unat len \<le> i" for i
    using that by (metis bit_take_bit_iff bit_unsigned_iff not_less possible_bit_nat)
  have s: "raw AND push_bit (unat len - 1) 1 \<noteq> 0 \<longleftrightarrow> bit raw (unat len - 1)"
    by (simp add: bit_iff_and_push_bit_not_eq_0)
  have l: "len \<noteq> 0" "\<not> 64 \<le> unat len" using assms(1,2) by auto
  have "bit raw j \<Longrightarrow> j < 64" using bit_imp_le_length [of raw j] by simp
  then show ?thesis
    using l hi [of j] unfolding sign_extend_def Let_def s
    by (auto simp add: bit_or_iff bit_mask_above not_less simp del: push_bit_of_1)
qed

lemma sign_extend_value:
  assumes "1 \<le> unat len" and "unat len \<le> 63" and "unat raw < 2 ^ unat len"
  shows "sint (sign_extend raw len) = signed_take_bit (unat len - 1) (uint raw)"
proof (rule bit_eqI)
  fix j
  have "bit (sint (sign_extend raw len)) j = bit (sign_extend raw len) (min j 63)"
    by (simp add: bit_signed_iff min_def)
  then show "bit (sint (sign_extend raw len)) j \<longleftrightarrow> bit (signed_take_bit (unat len - 1) (uint raw)) j"
    using assms(1,2) by (simp add: sign_extend_bits [OF assms] bit_signed_take_bit_iff bit_unsigned_iff)
      (auto simp: min_def)
qed

lemma sign_extend_of_int:
  assumes "unat raw < 2 ^ min 64 (unat len)"
  shows "sign_extend raw len =
    word_of_int (if 1 \<le> unat len \<and> unat len \<le> 63 then signed_take_bit (unat len - 1) (uint raw)
                 else uint raw)"
proof (cases "1 \<le> unat len \<and> unat len \<le> 63")
  case True
  then have "sint (sign_extend raw len) = signed_take_bit (unat len - 1) (uint raw)"
    using assms by (intro sign_extend_value) (auto simp: min_def split: if_splits)
  then show ?thesis
    using True by (metis (mono_tags) of_int_sint scast_id)
next
  case False
  then have "len = 0 \<or> 64 \<le> unat len" by (auto simp: unat_eq_zero [symmetric] not_le)
  then show ?thesis using False by (auto simp: sign_extend_def)
qed

text \<open>The integer a signal has in a payload, and what the decoder reports for it.\<close>

definition signal_int :: "Signal \<Rightarrow> byte list \<Rightarrow> int" where
  "signal_int s w =
     (let n = int (raw_spec s w); len = unat (sg_length s)
      in if sg_is_signed s \<and> 1 \<le> len \<and> len \<le> 63 then signed_take_bit (len - 1) n else n)"

definition reported :: "DbcMessage \<Rightarrow> byte list \<Rightarrow> Signal \<Rightarrow> SignalValue" where
  "reported msg w s =
     \<lparr>sv_message_name = dm_name msg, sv_signal_name = sg_name s,
      sv_raw = word_of_int (signal_int s w),
      sv_physical = raw_to_physical s (word_of_int (signal_int s w))\<rparr>"

text \<open>A value has the signal's name and lies in the range of its length.\<close>

definition in_range :: "Signal \<Rightarrow> SignalValue \<Rightarrow> bool" where
  "in_range s v \<longleftrightarrow> sv_signal_name v = sg_name s \<and>
     (let len = unat (sg_length s)
      in if sg_is_signed s \<and> 1 \<le> len \<and> len \<le> 63
         then - (2 ^ (len - 1)) \<le> sint (sv_raw v) \<and> sint (sv_raw v) < 2 ^ (len - 1)
         else unat (sv_raw v) < 2 ^ sig_len s)"

lemma reported_in_range: "in_range s (reported msg w s)"
proof (cases "sg_is_signed s \<and> 1 \<le> unat (sg_length s) \<and> unat (sg_length s) \<le> 63")
  case True
  let ?k = "unat (sg_length s) - 1" and ?n = "int (raw_spec s w)"
  have "min 63 ?k = ?k" using True by linarith
  then have "sint (word_of_int (signed_take_bit ?k ?n) :: u64) = signed_take_bit ?k ?n"
    by (simp add: sint_sbintrunc' signed_take_bit_signed_take_bit)
  moreover have "- (2 ^ ?k) \<le> signed_take_bit ?k ?n" "signed_take_bit ?k ?n < 2 ^ ?k"
    by (simp_all add: signed_take_bit_int_greater_eq_minus_exp signed_take_bit_int_less_exp)
  ultimately show ?thesis using True by (simp add: in_range_def reported_def signal_int_def Let_def)
next
  case False
  have "(2 :: nat) ^ sig_len s \<le> 2 ^ 64" by (rule power_increasing) (simp_all add: sig_len_def)
  then have "raw_spec s w < 2 ^ 64" using raw_spec_bound [of s w] by linarith
  then have "unat (of_nat (raw_spec s w) :: u64) = raw_spec s w" by (intro unat_of_nat_id) simp
  then show ?thesis
    using False raw_spec_bound [of s w] by (auto simp: in_range_def reported_def signal_int_def Let_def)
qed

lemma decode_one:
  assumes "unat dlc \<le> length d \<or> 40 \<le> length d"
  shows "\<exists>r. extract_raw s (Some d) dlc = Inr r \<and>
    (if sg_is_signed s then sign_extend r (sg_length s) else r)
      = word_of_int (signal_int s (window d dlc))"
proof -
  obtain r where r: "extract_raw s (Some d) dlc = Inr r" "unat r = raw_spec s (window d dlc)"
    using extract_raw_spec [OF assms] by blast
  have b: "unat r < 2 ^ min 64 (unat (sg_length s))"
    using raw_spec_bound [of s "window d dlc"] r(2) by (simp add: sig_len_def)
  have u: "uint r = int (raw_spec s (window d dlc))"
    using r(2) by (simp add: uint_nat)
  have "r = word_of_int (uint r)" by simp
  then show ?thesis
    using r(1) sign_extend_of_int [OF b] unfolding u signal_int_def Let_def by auto
qed

lemma decode_loop_spec:
  assumes "unat (f_dlc f) \<le> length (f_data f) \<or> 40 \<le> length (f_data f)"
  shows "decode_loop msg f ss out = Inr (out @ map (reported msg (window (f_data f) (f_dlc f))) ss)"
proof (induction ss arbitrary: out)
  case (Cons s ss)
  obtain r where r: "extract_raw s (Some (f_data f)) (f_dlc f) = Inr r"
    "(if sg_is_signed s then sign_extend r (sg_length s) else r)
       = word_of_int (signal_int s (window (f_data f) (f_dlc f)))"
    using decode_one [OF assms] by blast
  show ?case
    using Cons.IH by (simp only: decode_loop.simps r bindr.simps Let_def reported_def list.map append_assoc append.simps)
qed simp

lemma le_nat_append: "le_nat (xs @ ys) = le_nat xs + 256 ^ length xs * le_nat ys"
  by (induction xs) (simp_all add: algebra_simps)

lemma le_nat_zeros [simp]: "le_nat (replicate k 0) = 0"
  by (induction k) simp_all

lemma be_nat_pad: "be_nat (w @ replicate k 0) = be_nat w * 2 ^ (8 * k)"
proof -
  have "(256 :: nat) ^ k = 2 ^ (8 * k)" by (simp add: power_mult)
  then show ?thesis by (simp add: be_nat_def le_nat_append)
qed

lemma power_slice:
  fixes N :: nat
  assumes "s + l \<le> T"
  shows "N * 2 ^ k div 2 ^ (T + k - (s + l)) = N div 2 ^ (T - (s + l))"
proof -
  have "T + k - (s + l) = k + (T - (s + l))" using assms by simp
  then show ?thesis by (simp add: power_add mult.commute [of N])
qed

lemma power_div_left: "(N :: nat) * 2 ^ (j + m) div 2 ^ j = N * 2 ^ m"
proof -
  have "N * 2 ^ (j + m) = 2 ^ j * (N * 2 ^ m)" by (simp add: power_add)
  then show ?thesis by (simp only: nonzero_mult_div_cancel_left [of "2 ^ j"] power_not_zero) simp
qed

lemma motorola_pad:
  assumes "unat (sg_start_bit s) + sig_len s \<le> 8 * (length w + k)" and "\<not> sg_little_endian s"
  shows "raw_spec s (w @ replicate k 0) =
    raw_spec s w * 2 ^ (min (sig_len s) (unat (sg_start_bit s) + sig_len s - 8 * length w))
      mod 2 ^ sig_len s"
proof -
  define S l T where d: "S = unat (sg_start_bit s)" "l = sig_len s" "T = 8 * length w"
  define N where "N = be_nat w"
  have full: "raw_spec s (w @ replicate k 0) = N * 2 ^ (8 * k) div 2 ^ (T + 8 * k - (S + l)) mod 2 ^ l"
    using assms unfolding raw_spec_def motorola_end_def be_nat_pad N_def d [symmetric]
    by (simp add: max_def min_def algebra_simps d(3))
  show ?thesis
  proof (cases "S + l \<le> T")
    case True
    have "raw_spec s w = N div 2 ^ (T - (S + l)) mod 2 ^ l"
      using True assms(2) by (simp add: raw_spec_def motorola_end_def N_def d [symmetric] max_def min_def)
    then show ?thesis
      using full True by (simp add: power_slice d [symmetric])
  next
    case False
    have "8 * k = (T + 8 * k - (S + l)) + (S + l - T)"
      using False assms(1) d by simp
    then have "N * 2 ^ (8 * k) div 2 ^ (T + 8 * k - (S + l)) = N * 2 ^ (S + l - T)"
      using power_div_left [of N "T + 8 * k - (S + l)" "S + l - T"] by simp
    then have f: "raw_spec s (w @ replicate k 0) = N * 2 ^ (S + l - T) mod 2 ^ l"
      using full by simp
    show ?thesis
    proof (cases "T \<le> S")
      case True
      then have "2 ^ l dvd N * 2 ^ (S + l - T)"
        by (intro dvd_mult le_imp_power_dvd) simp
      moreover have "raw_spec s w = 0"
        using True assms(2) by (simp add: raw_spec_def motorola_end_def d [symmetric] max_def min_def)
      ultimately show ?thesis using f by simp
    next
      case ST: False
      have r: "raw_spec s w = N mod 2 ^ (T - S)"
        using False ST assms(2) by (simp add: raw_spec_def motorola_end_def N_def d [symmetric] max_def min_def)
      have e: "l = (T - S) + (S + l - T)" "min l (S + l - T) = S + l - T" using False ST by auto
      have "N * 2 ^ (S + l - T) mod 2 ^ l = (N mod 2 ^ (T - S)) * 2 ^ (S + l - T)"
        by (subst e(1)) (simp only: power_add mult_mod_left)
      then have "raw_spec s (w @ replicate k 0) = raw_spec s w * 2 ^ min l (S + l - T) mod 2 ^ l"
        using f r e(2) by (metis mod_mod_trivial)
      then show ?thesis by (simp only: d)
    qed
  qed
qed

text \<open>The value \<^verbatim>\<open>can_decoder.h\<close> documents: the bits beyond the length code are zero, so it is the value
  in the payload padded with zero bytes. The two agree where the frame carries all bits of the
  signal.\<close>

definition documented_raw :: "Signal \<Rightarrow> byte list \<Rightarrow> nat" where
  "documented_raw s w = raw_spec s (w @ replicate (64 - length w) 0)"

lemma documented_raw_eq:
  assumes "length w \<le> 64"
  shows "documented_raw s w =
    (if sg_little_endian s then raw_spec s w
     else raw_spec s w * 2 ^ min (sig_len s) (unat (sg_start_bit s) + sig_len s - 8 * length w)
            mod 2 ^ sig_len s)"
proof (cases "sg_little_endian s")
  case True
  then show ?thesis by (simp add: documented_raw_def raw_spec_def le_nat_append)
next
  case False
  have "unat (sg_start_bit s) + sig_len s \<le> 8 * (length w + (64 - length w))"
    using assms unat_byte_less [of "sg_start_bit s"] by (simp add: sig_len_def)
  then show ?thesis using False motorola_pad by (simp add: documented_raw_def)
qed

lemma documented_raw_in_frame:
  assumes "length w \<le> 64" and "sg_little_endian s \<or> unat (sg_start_bit s) + sig_len s \<le> 8 * length w"
  shows "documented_raw s w = raw_spec s w"
  using assms raw_spec_bound [of s w] by (auto simp: documented_raw_eq)

lemma decode_frame_spec:
  assumes "wf_frame f"
  shows "decode_frame msg f (Some out)
       = Inr (True, Some (map (reported msg (window (f_data f) (f_dlc f))) (dm_signals msg)))"
  using decode_loop_spec [of f msg "dm_signals msg" "[]"] assms
  by (simp add: decode_frame_def wf_frame_def BT_BUS_MAX_PAYLOAD_def)

section \<open>Properties\<close>

text \<open>C16: Decoding never reads outside the payload, whatever the length code of the frame (also
  beyond 64) and the geometry of the signals, and reports every signal of the message, in order,
  sign-extended exactly for signed signals of 1 to 63 bits, and scaled from that value. The value of
  an Intel signal, and of a Motorola signal all of whose bits lie below the length code, is the
  documented one (\<^verbatim>\<open>can_decoder.h\<close>: bits beyond the length code read as zero). Where a Motorola
  signal runs past the end of the frame the code departs from its header: it reports only the bits
  that are there, and the documented value is that one shifted left by the number of missing bits.\<close>

theorem decode_frame_total:
  assumes "wf_frame f"
  shows "decode_frame msg f (Some out)
       = Inr (True, Some (map (reported msg (window (f_data f) (f_dlc f))) (dm_signals msg))) \<and>
    documented_raw s (window (f_data f) (f_dlc f)) =
      (if sg_little_endian s \<or> unat (sg_start_bit s) + sig_len s \<le> 8 * min 64 (unat (f_dlc f))
       then raw_spec s (window (f_data f) (f_dlc f))
       else raw_spec s (window (f_data f) (f_dlc f)) *
              2 ^ min (sig_len s) (unat (sg_start_bit s) + sig_len s - 8 * min 64 (unat (f_dlc f)))
              mod 2 ^ sig_len s)"
proof
  show "decode_frame msg f (Some out)
       = Inr (True, Some (map (reported msg (window (f_data f) (f_dlc f))) (dm_signals msg)))"
    using assms by (rule decode_frame_spec)
  have "length (window (f_data f) (f_dlc f)) = min 64 (unat (f_dlc f))"
    using assms by (simp add: window_def wf_frame_def BT_BUS_MAX_PAYLOAD_def)
  then show "documented_raw s (window (f_data f) (f_dlc f)) =
      (if sg_little_endian s \<or> unat (sg_start_bit s) + sig_len s \<le> 8 * min 64 (unat (f_dlc f))
       then raw_spec s (window (f_data f) (f_dlc f))
       else raw_spec s (window (f_data f) (f_dlc f)) *
              2 ^ min (sig_len s) (unat (sg_start_bit s) + sig_len s - 8 * min 64 (unat (f_dlc f)))
              mod 2 ^ sig_len s)"
    using documented_raw_in_frame [of "window (f_data f) (f_dlc f)" s]
      documented_raw_eq [of "window (f_data f) (f_dlc f)" s] by auto
qed

text \<open>An Intel signal is a bit slice: extraction returns the payload, read as a little-endian
  number cut off at the length code, divided by two to the start bit and reduced to the signal's
  length, so bits the frame does not carry are zero.\<close>

theorem intel_extract_slice:
  assumes "length d = 64" and "sg_little_endian s"
  shows "\<exists>r. extract_raw s (Some d) dlc = Inr r \<and>
     unat r = le_nat (take (unat dlc) d) div 2 ^ unat (sg_start_bit s) mod 2 ^ min 64 (unat (sg_length s))"
  using extract_raw_spec [of dlc d s] assms by (auto simp: raw_spec_def window_def sig_len_def)

text \<open>C26: Short frames. Padding the payload with zero bytes up to the full 64 does not change what
  an Intel signal reads. For a Motorola signal the documented value (missing bits read as zero) is
  the padded one, and the code's value has to be shifted left by the number of missing bits to get
  it: on a frame that is too short, a Motorola signal is reported too small.\<close>

theorem short_frame_padding:
  assumes "length d = 64" and "unat dlc \<le> 64"
  shows "\<exists>r r'. extract_raw s (Some d) dlc = Inr r \<and>
     extract_raw s (Some (take (unat dlc) d @ replicate (64 - unat dlc) 0)) 64 = Inr r' \<and>
     unat r' = (if sg_little_endian s then unat r
                else unat r * 2 ^ min (sig_len s) (unat (sg_start_bit s) + sig_len s - 8 * unat dlc)
                       mod 2 ^ sig_len s)"
proof -
  let ?w = "take (unat dlc) d"
  let ?p = "?w @ replicate (64 - unat dlc) 0"
  obtain r where r: "extract_raw s (Some d) dlc = Inr r" "unat r = raw_spec s ?w"
    using extract_raw_spec [of dlc d s] assms by (auto simp: window_def)
  obtain r' where r': "extract_raw s (Some ?p) 64 = Inr r'" "unat r' = raw_spec s ?p"
    using extract_raw_spec [of 64 ?p s] assms by (auto simp: window_def)
  have "length ?w = unat dlc" using assms by simp
  then have "raw_spec s ?p = (if sg_little_endian s then raw_spec s ?w
      else raw_spec s ?w * 2 ^ min (sig_len s) (unat (sg_start_bit s) + sig_len s - 8 * unat dlc)
             mod 2 ^ sig_len s)"
    using documented_raw_eq [of ?w s] assms(2) by (simp add: documented_raw_def)
  then show ?thesis using r r' by auto
qed

text \<open>A twelve-bit signed Motorola signal starting at position 4, in a frame cut off after one byte,
  and an Intel one.\<close>

definition motorola_signal :: Signal where
  "motorola_signal = default_Signal\<lparr>sg_name := ''torque'', sg_start_bit := 4, sg_length := 12,
     sg_is_signed := True, sg_little_endian := False\<rparr>"

definition intel_signal :: Signal where
  "intel_signal = default_Signal\<lparr>sg_name := ''speed'', sg_start_bit := 12, sg_length := 12\<rparr>"

definition short_frame :: bt_bus_frame where
  "short_frame =
     \<lparr>f_timestamp = 1, f_type = BT_BUS_CAN, f_channel = 0, f_dir = BT_DIR_RX, f_id = 0x10,
      f_extended = 0, f_fd = 0, f_dlc = 1, f_data = 0xAB # replicate 63 0x11,
      f_status = BT_FRAME_OK\<rparr>"

theorem decode_frame_total_witness:
  "decode_frame (default_DbcMessage\<lparr>dm_signals := [motorola_signal, intel_signal]\<rparr>) short_frame (Some [])
   = Inr (True, Some [reported (default_DbcMessage\<lparr>dm_signals := [motorola_signal, intel_signal]\<rparr>)
                        [0xAB] motorola_signal,
                      reported (default_DbcMessage\<lparr>dm_signals := [motorola_signal, intel_signal]\<rparr>)
                        [0xAB] intel_signal]) \<and>
   raw_spec motorola_signal [0xAB] = 0xB \<and> documented_raw motorola_signal [0xAB] = 0xB00"
proof -
  have f: "wf_frame short_frame" by (simp add: wf_frame_def short_frame_def BT_BUS_MAX_PAYLOAD_def)
  have w: "f_dlc short_frame = 1" "window (f_data short_frame) 1 = [0xAB]"
    by (simp_all add: short_frame_def window_def)
  have r: "raw_spec motorola_signal [0xAB] = 0xB"
    by (simp add: raw_spec_def motorola_end_def motorola_signal_def sig_len_def be_nat_def le_nat_def
        default_Signal_def)
  have m: "\<not> sg_little_endian motorola_signal" "unat (sg_start_bit motorola_signal) = 4" "sig_len motorola_signal = 12"
    by (simp_all add: motorola_signal_def sig_len_def default_Signal_def)
  note d = decode_frame_total [OF f, of "default_DbcMessage\<lparr>dm_signals := [motorola_signal, intel_signal]\<rparr>"
      "[]" motorola_signal, unfolded w r]
  show ?thesis
    using d r by (simp add: m)
qed

theorem intel_extract_slice_witness:
  "\<exists>r. extract_raw intel_signal (Some (f_data short_frame)) 8 = Inr r \<and>
     unat r = le_nat (take (unat (8 :: u8)) (f_data short_frame))
       div 2 ^ unat (sg_start_bit intel_signal) mod 2 ^ min 64 (unat (sg_length intel_signal))"
  by (rule intel_extract_slice) (simp_all add: short_frame_def intel_signal_def default_Signal_def)

theorem short_frame_padding_witness:
  "\<exists>r r'. extract_raw motorola_signal (Some (f_data short_frame)) 1 = Inr r \<and>
     extract_raw motorola_signal
       (Some (take (unat (1 :: u8)) (f_data short_frame) @ replicate (64 - unat (1 :: u8)) 0)) 64 = Inr r' \<and>
     unat r' = (if sg_little_endian motorola_signal then unat r
                else unat r * 2 ^ min (sig_len motorola_signal)
                       (unat (sg_start_bit motorola_signal) + sig_len motorola_signal - 8 * unat (1 :: u8))
                       mod 2 ^ sig_len motorola_signal)"
  by (rule short_frame_padding) (simp_all add: short_frame_def)

end
