(* ===== verification/Rbs.thy ===== *)
theory Rbs
  imports BusFrame
begin

text \<open>
  The restbus scheduler (\<^verbatim>\<open>engine/rbs/rbs_scheduler.cpp\<close>): periodic transmit templates on a 64-bit
  virtual time base. The catch-up loop of \<^verbatim>\<open>tick\<close> need not end when the time base wraps, so it is a
  partial function: \<^const>\<open>None\<close> is a run that never returns.
\<close>

section \<open>The code\<close>

record RbsTask =
  rt_msg_id :: u32
  rt_channel :: u8
  rt_bus_type :: bt_bus_type
  rt_period_us :: u32
  rt_dlc :: u8
  rt_data :: "byte list"
  rt_enabled :: bool
  rt_next_tick_us :: u64

definition default_RbsTask :: RbsTask where
  "default_RbsTask =
     \<lparr>rt_msg_id = 0, rt_channel = 0, rt_bus_type = BT_BUS_CANFD, rt_period_us = 1000, rt_dlc = 8,
      rt_data = replicate 64 0, rt_enabled = True, rt_next_tick_us = 0\<rparr>"

definition rbs_reset :: "RbsTask list \<Rightarrow> RbsTask list" where
  "rbs_reset ts = map (\<lambda>t. t\<lparr>rt_next_tick_us := 0\<rparr>) ts"

definition add_task :: "RbsTask list \<Rightarrow> RbsTask \<Rightarrow> RbsTask list" where
  "add_task ts t = ts @ [t]"

fun remove_task :: "RbsTask list \<Rightarrow> u32 \<Rightarrow> u8 \<Rightarrow> bool \<times> RbsTask list" where
  "remove_task [] i c = (False, [])"
| "remove_task (t # ts) i c =
     (if rt_msg_id t = i \<and> rt_channel t = c then (True, ts)
      else let (r, ts') = remove_task ts i c in (r, t # ts'))"

definition clear_tasks :: "RbsTask list \<Rightarrow> RbsTask list" where
  "clear_tasks ts = []"

definition rbs_frame :: "u64 \<Rightarrow> RbsTask \<Rightarrow> bt_bus_frame res" where
  "rbs_frame now t =
     make_frame (rt_bus_type t) (rt_channel t) BT_DIR_TX (rt_msg_id t) False
       (rt_bus_type t = BT_BUS_CANFD \<or> rt_bus_type t = BT_BUS_CANXL)
       (rt_dlc t) (Some (rt_data t)) (now * 10)"

partial_function (option) catch_up ::
  "u64 \<Rightarrow> RbsTask \<Rightarrow> bt_bus_frame list \<Rightarrow> nat \<Rightarrow> (RbsTask \<times> bt_bus_frame list \<times> nat) res option" where
  "catch_up now t out emitted =
     (if rt_next_tick_us t \<le> now
      then case rbs_frame now t of
             Inl e \<Rightarrow> Some (Inl e)
           | Inr f \<Rightarrow> catch_up now (t\<lparr>rt_next_tick_us := rt_next_tick_us t + ucast (rt_period_us t)\<rparr>)
                       (out @ [f]) (emitted + 1)
      else Some (Inr (t, out, emitted)))"

text \<open>One pass of the loop over the tasks, then the loop.\<close>

definition tick_task ::
  "u64 \<Rightarrow> RbsTask \<Rightarrow> bt_bus_frame list \<Rightarrow> nat \<Rightarrow> (RbsTask \<times> bt_bus_frame list \<times> nat) res option" where
  "tick_task now t out emitted =
     (if \<not> rt_enabled t \<or> rt_period_us t = 0 then Some (Inr (t, out, emitted))
      else if rt_next_tick_us t = 0
      then Some (Inr (t\<lparr>rt_next_tick_us := now + ucast (rt_period_us t)\<rparr>, out, emitted))
      else catch_up now t out emitted)"

fun tick_loop ::
  "u64 \<Rightarrow> RbsTask list \<Rightarrow> bt_bus_frame list \<Rightarrow> nat \<Rightarrow>
   (RbsTask list \<times> bt_bus_frame list \<times> nat) res option" where
  "tick_loop now [] out emitted = Some (Inr ([], out, emitted))"
| "tick_loop now (t # ts) out emitted =
     (case tick_task now t out emitted of
        Some (Inr (t', out', emitted')) \<Rightarrow>
          (case tick_loop now ts out' emitted' of
             Some (Inr (ts', out'', emitted'')) \<Rightarrow> Some (Inr (t' # ts', out'', emitted''))
           | r \<Rightarrow> r)
      | Some (Inl e) \<Rightarrow> Some (Inl e)
      | None \<Rightarrow> None)"

text \<open>The tasks after the call, the output vector and the number of frames.\<close>

definition tick ::
  "RbsTask list \<Rightarrow> u64 \<Rightarrow> bt_bus_frame list option \<Rightarrow>
   (RbsTask list \<times> bt_bus_frame list option \<times> nat) res option" where
  "tick ts now out =
     (case out of
        None \<Rightarrow> Some (Inr (ts, None, 0))
      | Some fs \<Rightarrow>
          (case tick_loop now ts fs 0 of
             Some (Inr (ts', fs', n)) \<Rightarrow> Some (Inr (ts', Some fs', n))
           | Some (Inl e) \<Rightarrow> Some (Inl e)
           | None \<Rightarrow> None))"

section \<open>What one tick does to a task\<close>

definition wf_task :: "RbsTask \<Rightarrow> bool" where
  "wf_task t \<longleftrightarrow> length (rt_data t) = 64"

text \<open>The frame a task sends at a given time.\<close>

definition task_frame :: "u64 \<Rightarrow> RbsTask \<Rightarrow> bt_bus_frame" where
  "task_frame now t =
     \<lparr>f_timestamp = now * 10, f_type = rt_bus_type t, f_channel = rt_channel t, f_dir = BT_DIR_TX,
      f_id = rt_msg_id t, f_extended = 0,
      f_fd = (if rt_bus_type t = BT_BUS_CANFD \<or> rt_bus_type t = BT_BUS_CANXL then 1 else 0),
      f_dlc = of_nat (min (unat (rt_dlc t)) 64),
      f_data = take (min (unat (rt_dlc t)) 64) (rt_data t) @ replicate (64 - min (unat (rt_dlc t)) 64) 0,
      f_status = BT_FRAME_OK\<rparr>"

lemma rbs_frame_ok: "wf_task t \<Longrightarrow> rbs_frame now t = Inr (task_frame now t)"
  unfolding rbs_frame_def wf_task_def
  by (subst make_frame_spec) (auto simp: task_frame_def min_def Let_def)

definition period :: "RbsTask \<Rightarrow> nat" where "period t = unat (rt_period_us t)"
definition next_at :: "RbsTask \<Rightarrow> nat" where "next_at t = unat (rt_next_tick_us t)"

text \<open>The number of deadlines of a task up to \<open>now\<close>.\<close>

definition due_count :: "nat \<Rightarrow> RbsTask \<Rightarrow> nat" where
  "due_count now t = (if next_at t \<le> now then (now - next_at t) div period t + 1 else 0)"

lemma due_count_step:
  assumes "next_at t \<le> now" and "0 < period t" and "next_at t' = next_at t + period t"
    and "period t' = period t"
  shows "due_count now t = Suc (due_count now t')"
proof (cases "next_at t' \<le> now")
  case True
  then have "now - next_at t = (now - next_at t') + period t" using assms(3) by simp
  then have "(now - next_at t) div period t = (now - next_at t') div period t + 1"
    using assms(2) by (simp add: div_add_self2)
  then show ?thesis using assms True by (simp add: due_count_def)
next
  case False
  then have "now - next_at t < period t" using assms(1,3) by simp
  then show ?thesis using assms False by (simp add: due_count_def)
qed

lemma unat_add_period:
  assumes "rt_next_tick_us t \<le> now" and "unat now + period t < 2 ^ 64"
  shows "unat (rt_next_tick_us t + ucast (rt_period_us t)) = next_at t + period t"
proof -
  have "unat (ucast (rt_period_us t) :: u64) = period t"
    using unat_u32_less [of "rt_period_us t"]
    by (simp add: period_def unsigned_ucast_eq take_bit_nat_eq_self_iff)
  moreover have "unat (rt_next_tick_us t) \<le> unat now" using assms(1) by (simp add: word_le_nat_alt)
  ultimately show ?thesis
    using assms(2) by (simp add: next_at_def unat_word_ariths)
qed

lemma catch_up_spec:
  assumes "wf_task t" and "0 < period t" and "unat now + period t < 2 ^ 64"
  shows "catch_up now t out emitted =
    Some (Inr (t\<lparr>rt_next_tick_us := of_nat (next_at t + due_count (unat now) t * period t)\<rparr>,
               out @ replicate (due_count (unat now) t) (task_frame now t),
               emitted + due_count (unat now) t))"
  using assms
proof (induction "due_count (unat now) t" arbitrary: t out emitted)
  case 0
  then have "\<not> rt_next_tick_us t \<le> now"
    by (auto simp: due_count_def next_at_def word_le_nat_alt split: if_splits)
  with 0 show ?case
    by (subst catch_up.simps) (simp add: next_at_def)
next
  case (Suc n)
  let ?t = "t\<lparr>rt_next_tick_us := rt_next_tick_us t + ucast (rt_period_us t)\<rparr>"
  have due: "rt_next_tick_us t \<le> now"
    using Suc.hyps(2) by (auto simp: due_count_def next_at_def word_le_nat_alt split: if_splits)
  have n: "next_at ?t = next_at t + period t"
    using unat_add_period [OF due Suc.prems(3)] by (simp add: next_at_def)
  have p: "period ?t = period t" and f: "task_frame now ?t = task_frame now t"
    by (simp_all add: period_def task_frame_def)
  have d: "due_count (unat now) t = Suc (due_count (unat now) ?t)"
    using due Suc.prems(2) n p by (intro due_count_step) (simp_all add: next_at_def word_le_nat_alt)
  then have hyp: "n = due_count (unat now) ?t" using Suc.hyps(2) by simp
  have "catch_up now ?t (out @ [task_frame now t]) (emitted + 1) =
      Some (Inr (?t\<lparr>rt_next_tick_us := of_nat (next_at ?t + due_count (unat now) ?t * period ?t)\<rparr>,
                 (out @ [task_frame now t]) @ replicate (due_count (unat now) ?t) (task_frame now ?t),
                 emitted + 1 + due_count (unat now) ?t))"
    using Suc.prems p by (intro Suc.hyps(1) [OF hyp]) (simp_all add: wf_task_def)
  moreover have "next_at ?t + due_count (unat now) ?t * period ?t
      = next_at t + due_count (unat now) t * period t"
    using n p d by (simp add: algebra_simps)
  ultimately show ?case
    using due rbs_frame_ok [OF Suc.prems(1)] d f
    by (subst catch_up.simps) simp
qed

text \<open>The task after a tick and the number of frames it sends in it.\<close>

definition active :: "RbsTask \<Rightarrow> bool" where
  "active t \<longleftrightarrow> rt_enabled t \<and> 0 < period t"

definition task_after :: "u64 \<Rightarrow> RbsTask \<Rightarrow> RbsTask" where
  "task_after now t =
     (if \<not> active t then t
      else if rt_next_tick_us t = 0 then t\<lparr>rt_next_tick_us := now + ucast (rt_period_us t)\<rparr>
      else t\<lparr>rt_next_tick_us := of_nat (next_at t + due_count (unat now) t * period t)\<rparr>)"

definition sends :: "u64 \<Rightarrow> RbsTask \<Rightarrow> nat" where
  "sends now t = (if \<not> active t \<or> rt_next_tick_us t = 0 then 0 else due_count (unat now) t)"

definition no_wrap :: "RbsTask list \<Rightarrow> u64 \<Rightarrow> bool" where
  "no_wrap ts now \<longleftrightarrow> (\<forall>t\<in>set ts. wf_task t \<and> unat now + period t < 2 ^ 64)"

lemma tick_task_spec:
  assumes "wf_task t" and "unat now + period t < 2 ^ 64"
  shows "tick_task now t out emitted =
    Some (Inr (task_after now t, out @ replicate (sends now t) (task_frame now t),
               emitted + sends now t))"
proof (cases "active t \<and> rt_next_tick_us t \<noteq> 0")
  case True
  then show ?thesis
    using catch_up_spec [OF assms(1) _ assms(2)]
    by (auto simp: tick_task_def task_after_def sends_def active_def period_def unat_gt_0)
next
  case False
  then show ?thesis
    by (auto simp: tick_task_def task_after_def sends_def active_def period_def unat_gt_0)
qed

definition frames_of_tick :: "u64 \<Rightarrow> RbsTask list \<Rightarrow> bt_bus_frame list" where
  "frames_of_tick now ts = concat (map (\<lambda>t. replicate (sends now t) (task_frame now t)) ts)"

lemma length_frames_of_tick: "length (frames_of_tick now ts) = sum_list (map (sends now) ts)"
  by (simp add: frames_of_tick_def length_concat comp_def)

lemma tick_loop_spec:
  "no_wrap ts now \<Longrightarrow> tick_loop now ts out emitted =
     Some (Inr (map (task_after now) ts, out @ frames_of_tick now ts,
                emitted + length (frames_of_tick now ts)))"
proof (induction ts arbitrary: out emitted)
  case Nil
  then show ?case by (simp add: frames_of_tick_def)
next
  case (Cons t ts)
  then have "wf_task t" "unat now + period t < 2 ^ 64" "no_wrap ts now"
    by (simp_all add: no_wrap_def)
  then show ?case
    using Cons.IH tick_task_spec [of t now] by (simp add: frames_of_tick_def)
qed

lemma tick_spec:
  "no_wrap ts now \<Longrightarrow> tick ts now (Some out) =
     Some (Inr (map (task_after now) ts, Some (out @ frames_of_tick now ts),
                length (frames_of_tick now ts)))"
  by (simp add: tick_def tick_loop_spec)

lemma catch_up_returns:
  assumes "catch_up now t out k = Some r"
  shows "wf_task t \<longrightarrow> now \<noteq> - 1"
proof (rule catch_up.raw_induct [where P = "\<lambda>now t out k r. wf_task t \<longrightarrow> now \<noteq> - 1", OF _ assms])
  fix rec and now and t and out k r
  assume ih: "\<And>now t out k r. rec now t out k = Some r \<Longrightarrow> wf_task t \<longrightarrow> now \<noteq> - 1"
    and eq: "(if rt_next_tick_us t \<le> now
      then case rbs_frame now t of
             Inl e \<Rightarrow> Some (Inl e)
           | Inr f \<Rightarrow> rec now (t\<lparr>rt_next_tick_us := rt_next_tick_us t + ucast (rt_period_us t)\<rparr>)
                       (out @ [f]) (k + 1)
      else Some (Inr (t, out, k))) = Some r"
  show "wf_task t \<longrightarrow> now \<noteq> - 1"
  proof
    assume wf: "wf_task t"
    let ?t = "t\<lparr>rt_next_tick_us := rt_next_tick_us t + ucast (rt_period_us t)\<rparr>"
    have w: "wf_task ?t" using wf by (simp add: wf_task_def)
    show "now \<noteq> - 1"
    proof (cases "rt_next_tick_us t \<le> now")
      case True
      then have "rec now ?t (out @ [task_frame now t]) (k + 1) = Some r"
        using eq rbs_frame_ok [OF wf] by simp
      with w ih show ?thesis by blast
    qed auto
  qed
qed

lemma catch_up_max: "wf_task t \<Longrightarrow> catch_up (- 1) t out k = None"
  using catch_up_returns [of "- 1" t out k] by (cases "catch_up (- 1) t out k") auto

section \<open>Runs of ticks\<close>

fun run_ticks :: "u64 list \<Rightarrow> RbsTask list \<Rightarrow> bt_bus_frame list \<Rightarrow>
    (RbsTask list \<times> bt_bus_frame list) res option" where
  "run_ticks [] ts out = Some (Inr (ts, out))"
| "run_ticks (now # nows) ts out =
     (case tick ts now (Some out) of
        Some (Inr (ts', Some out', n)) \<Rightarrow> run_ticks nows ts' out'
      | Some (Inr (ts', None, n)) \<Rightarrow> Some (Inl OutOfBounds)
      | Some (Inl e) \<Rightarrow> Some (Inl e)
      | None \<Rightarrow> None)"

text \<open>The deadlines of a task anchored at \<open>t0\<close>, when the last tick was at \<open>tp\<close>.\<close>

definition anchored :: "nat \<Rightarrow> nat \<Rightarrow> RbsTask \<Rightarrow> bool" where
  "anchored t0 tp t \<longleftrightarrow>
     (active t \<longrightarrow> next_at t = t0 + ((tp - t0) div period t + 1) * period t)"

lemma div_catch_up:
  fixes p :: nat
  assumes "0 < p" and "a \<le> b" and "(a div p + 1) * p \<le> b"
  shows "(b - (a div p + 1) * p) div p + 1 = b div p - a div p"
proof -
  define c where "c = b - (a div p + 1) * p"
  have "b = (a div p + 1) * p + c" using assms(3) by (simp add: c_def)
  then have "b div p = a div p + 1 + c div p" using assms(1) by (simp only: div_mult_self3)
  then show ?thesis by (simp add: c_def)
qed

lemma due_count_anchored:
  assumes "active t" and "anchored t0 tp t" and "t0 \<le> tp" and "tp \<le> now"
  shows "due_count now t = (now - t0) div period t - (tp - t0) div period t"
proof -
  let ?p = "period t"
  have p: "0 < ?p" using assms(1) by (simp add: active_def)
  have n: "next_at t = t0 + ((tp - t0) div ?p + 1) * ?p"
    using assms(1,2) by (simp add: anchored_def)
  show ?thesis
  proof (cases "next_at t \<le> now")
    case True
    then have "((tp - t0) div ?p + 1) * ?p \<le> now - t0"
      and "now - next_at t = now - t0 - ((tp - t0) div ?p + 1) * ?p"
      using n by simp_all
    then show ?thesis
      using True div_catch_up [OF p, of "tp - t0" "now - t0"] assms(4) by (simp add: due_count_def)
  next
    case False
    then have "now - t0 < ((tp - t0) div ?p + 1) * ?p" using n assms(3,4) by linarith
    then have "(now - t0) div ?p < (tp - t0) div ?p + 1" by (simp add: less_mult_imp_div_less)
    then show ?thesis using False by (simp add: due_count_def)
  qed
qed

lemma task_after_same [simp]:
  "active (task_after now t) = active t" "period (task_after now t) = period t"
  "wf_task (task_after now t) = wf_task t"
  by (auto simp: task_after_def active_def period_def wf_task_def)

lemma next_at_anchor:
  assumes "active t" and "rt_next_tick_us t = 0" and "unat now + period t < 2 ^ 64"
  shows "next_at (task_after now t) = unat now + period t"
proof -
  have "unat (ucast (rt_period_us t) :: u64) = period t"
    using unat_u32_less [of "rt_period_us t"]
    by (simp add: period_def unsigned_ucast_eq take_bit_nat_eq_self_iff)
  then show ?thesis
    using assms by (simp add: task_after_def next_at_def unat_word_ariths)
qed

lemma due_bounds:
  assumes "next_at t \<le> now" and "0 < period t"
  shows "next_at t + due_count now t * period t \<le> now + period t"
    and "now < next_at t + due_count now t * period t"
proof -
  define q r where "q = (now - next_at t) div period t" and "r = (now - next_at t) mod period t"
  have "now - next_at t = q * period t + r" "r < period t"
    using assms(2) by (simp_all add: q_def r_def)
  then have "now = next_at t + q * period t + r" "r < period t" using assms(1) by simp_all
  moreover have "due_count now t * period t = q * period t + period t"
    using assms(1) by (simp add: due_count_def q_def)
  ultimately show "next_at t + due_count now t * period t \<le> now + period t"
    and "now < next_at t + due_count now t * period t" by simp_all
qed

lemma next_at_advance:
  assumes "active t" and "rt_next_tick_us t \<noteq> 0" and "unat now + period t < 2 ^ 64"
  shows "next_at (task_after now t) = next_at t + due_count (unat now) t * period t"
proof -
  have "next_at t + due_count (unat now) t * period t < 2 ^ 64"
  proof (cases "next_at t \<le> unat now")
    case True
    then show ?thesis
      using due_bounds(1) [OF True] assms(1,3) by (simp add: active_def)
  next
    case False
    then show ?thesis
      using unat_u64_less [of "rt_next_tick_us t"] by (simp add: due_count_def next_at_def)
  qed
  then show ?thesis
    using assms(1,2) unat_of_nat_id [where 'a = 64, of "next_at t + due_count (unat now) t * period t"]
    by (simp add: task_after_def next_at_def del: of_nat_add of_nat_mult unat_of_nat)
qed

lemma anchored_nonzero: "active t \<Longrightarrow> anchored t0 tp t \<Longrightarrow> rt_next_tick_us t \<noteq> 0"
  by (auto simp: anchored_def active_def next_at_def unat_eq_zero)

lemma anchored_step:
  assumes "anchored t0 tp t" and "t0 \<le> tp" and "tp \<le> unat now" and "unat now + period t < 2 ^ 64"
  shows "anchored t0 (unat now) (task_after now t)"
    and "active t \<Longrightarrow> sends now t = (unat now - t0) div period t - (tp - t0) div period t"
proof -
  show s: "sends now t = (unat now - t0) div period t - (tp - t0) div period t" if "active t"
    using due_count_anchored [OF that assms(1-3)] anchored_nonzero [OF that assms(1)] that
    by (simp add: sends_def)
  have m: "(tp - t0) div period t \<le> (unat now - t0) div period t"
    using assms(3) by (intro div_le_mono) simp
  show "anchored t0 (unat now) (task_after now t)"
  proof (cases "active t")
    case True
    let ?A = "(tp - t0) div period t" and ?B = "(unat now - t0) div period t"
    have "next_at (task_after now t) = t0 + (?A + 1) * period t + (?B - ?A) * period t"
      using next_at_advance [OF True anchored_nonzero [OF True assms(1)] assms(4)]
        due_count_anchored [OF True assms(1-3)] assms(1) True by (simp add: anchored_def)
    also have "\<dots> = t0 + (?A + 1 + (?B - ?A)) * period t" by (simp only: add_mult_distrib add.assoc)
    also have "\<dots> = t0 + (?B + 1) * period t" using m by simp
    finally show ?thesis by (simp add: anchored_def)
  qed (simp add: anchored_def)
qed

definition total_due :: "nat \<Rightarrow> RbsTask list \<Rightarrow> nat" where
  "total_due d ts = sum_list (map (\<lambda>t. if active t then d div period t else 0) ts)"

lemma sends_inactive: "\<not> active t \<Longrightarrow> sends now t = 0"
  by (simp add: sends_def)

lemma frames_anchored:
  assumes "\<forall>t\<in>set ts. anchored t0 tp t" and "t0 \<le> tp" and "tp \<le> unat now" and "no_wrap ts now"
  shows "length (frames_of_tick now ts) + total_due (tp - t0) ts = total_due (unat now - t0) ts"
proof -
  have one: "sends now t + (if active t then (tp - t0) div period t else 0)
      = (if active t then (unat now - t0) div period t else 0)" if "t \<in> set ts" for t
    using anchored_step(2) [of t0 tp t now] assms that
      div_le_mono [of "tp - t0" "unat now - t0" "period t"]
    by (auto simp: no_wrap_def sends_inactive)
  then show ?thesis
    unfolding length_frames_of_tick total_due_def sum_list_addf [symmetric]
    by (intro arg_cong [where f = sum_list] map_cong refl) simp
qed

lemma run_ticks_anchored:
  assumes "\<forall>t\<in>set ts. anchored t0 tp t" and "t0 \<le> tp" and "sorted (tp # map unat nows)"
    and "\<forall>now\<in>set nows. no_wrap ts now"
  shows "\<exists>ts' fs. run_ticks nows ts out = Some (Inr (ts', out @ fs)) \<and>
    length fs + total_due (tp - t0) ts = total_due (last (tp # map unat nows) - t0) ts"
  using assms
proof (induction nows arbitrary: tp ts out)
  case Nil
  then show ?case by simp
next
  case (Cons now nows)
  let ?ts = "map (task_after now) ts"
  have nw: "no_wrap ts now" and le: "tp \<le> unat now" using Cons.prems by simp_all
  have td: "total_due d ?ts = total_due d ts" for d
    by (simp add: total_due_def comp_def cong: if_cong)
  have "\<forall>t\<in>set ?ts. anchored t0 (unat now) t"
    using Cons.prems(1,2) le nw anchored_step(1) by (auto simp: no_wrap_def)
  moreover have "\<forall>n\<in>set nows. no_wrap ?ts n"
    using Cons.prems(4) by (auto simp: no_wrap_def)
  ultimately obtain ts' fs where
    "run_ticks nows ?ts (out @ frames_of_tick now ts) = Some (Inr (ts', (out @ frames_of_tick now ts) @ fs))"
    "length fs + total_due (unat now - t0) ts = total_due (last (unat now # map unat nows) - t0) ts"
    using Cons.IH [of ?ts "unat now" "out @ frames_of_tick now ts"] Cons.prems(2,3) le td by auto
  then show ?case
    using tick_spec [OF nw] frames_anchored [OF Cons.prems(1,2) le nw]
    by (intro exI [of _ ts'] exI [of _ "frames_of_tick now ts @ fs"]) simp
qed

section \<open>Properties\<close>

text \<open>C18: A tick emits, task after task and for each of them at once, one frame per deadline that
  has passed (none for a disabled task, a zero period or a task not yet anchored), all stamped with
  the time of the tick, and moves every task's next deadline past \<open>now\<close>, by less than one period
  too far. In particular the catch-up loop returns as long as \<open>now\<close> plus the period fits in 64
  bits; a stall of many periods does come out as a burst.\<close>

theorem tick_emits_due:
  assumes "\<forall>t\<in>set ts. wf_task t \<and> unat now + period t < 2 ^ 64"
  shows "tick ts now (Some out) =
      Some (Inr (map (task_after now) ts,
                 Some (out @ concat (map (\<lambda>t. replicate (sends now t) (task_frame now t)) ts)),
                 sum_list (map (sends now) ts))) \<and>
    (\<forall>t\<in>set ts. active t \<longrightarrow>
       unat now < next_at (task_after now t) \<and>
       (next_at t \<le> unat now \<longrightarrow> next_at (task_after now t) \<le> unat now + period t))"
proof -
  have nw: "no_wrap ts now" using assms by (simp add: no_wrap_def)
  have "unat now < next_at (task_after now t) \<and>
       (next_at t \<le> unat now \<longrightarrow> next_at (task_after now t) \<le> unat now + period t)"
    if t: "t \<in> set ts" "active t" for t
  proof (cases "rt_next_tick_us t = 0")
    case True
    then show ?thesis
      using next_at_anchor [OF t(2) True, of now] assms t by (auto simp: active_def)
  next
    case False
    have p: "0 < period t" using t(2) by (simp add: active_def)
    have n: "next_at (task_after now t) = next_at t + due_count (unat now) t * period t"
      using next_at_advance [OF t(2) False] assms t by blast
    show ?thesis
    proof (cases "next_at t \<le> unat now")
      case True
      then show ?thesis using due_bounds [OF True p] n by simp
    next
      case False
      then show ?thesis using n by (simp add: due_count_def)
    qed
  qed
  then show ?thesis
    using tick_spec [OF nw] by (simp add: frames_of_tick_def length_concat comp_def)
qed

text \<open>C17: The schedule does not drift and does not depend on how often it is polled. After a reset,
  the first tick at \<open>t0\<close> sends nothing, and whatever later times the scheduler is ticked at, the
  number of frames sent up to the last of them is, for every active task, the number of whole
  periods since \<open>t0\<close>.\<close>

theorem rbs_rate_exact:
  assumes "\<forall>t\<in>set ts. wf_task t"
    and "sorted (map unat (t0 # nows))"
    and "\<forall>now\<in>set (t0 # nows). \<forall>t\<in>set ts. unat now + period t < 2 ^ 64"
  shows "\<exists>ts' fs. run_ticks (t0 # nows) (rbs_reset ts) [] = Some (Inr (ts', fs)) \<and>
    length fs = sum_list (map (\<lambda>t. if active t then (unat (last (t0 # nows)) - unat t0) div period t
                                   else 0) ts)"
proof -
  let ?r = "rbs_reset ts"
  let ?ts = "map (task_after t0) ?r"
  have r: "active (t\<lparr>rt_next_tick_us := 0\<rparr>) = active t" "period (t\<lparr>rt_next_tick_us := 0\<rparr>) = period t"
    "wf_task (t\<lparr>rt_next_tick_us := 0\<rparr>) = wf_task t" for t
    by (simp_all add: active_def period_def wf_task_def)
  have nw: "no_wrap ?r now" if "now \<in> set (t0 # nows)" for now
    using assms(1,3) that by (auto simp: no_wrap_def rbs_reset_def r)
  have "frames_of_tick t0 ?r = []"
    by (auto simp: frames_of_tick_def rbs_reset_def sends_def)
  then have first: "tick ?r t0 (Some []) = Some (Inr (?ts, Some [], 0))"
    using tick_spec [OF nw, of t0] by simp
  have a: "\<forall>t\<in>set ?ts. anchored (unat t0) (unat t0) t"
    using next_at_anchor assms(3) by (auto simp: anchored_def rbs_reset_def r)
  have d: "total_due k ?ts = sum_list (map (\<lambda>t. if active t then k div period t else 0) ts)" for k
    by (simp add: total_due_def rbs_reset_def comp_def r cong: if_cong)
  have "\<forall>now\<in>set nows. no_wrap ?ts now"
    using nw by (auto simp: no_wrap_def)
  then obtain ts' fs where f: "run_ticks nows ?ts [] = Some (Inr (ts', fs))"
    "length fs + total_due 0 ?ts = total_due (last (unat t0 # map unat nows) - unat t0) ?ts"
    using run_ticks_anchored [OF a, of nows "[]"] assms(2) by auto
  have l: "last (unat t0 # map unat nows) = unat (last (t0 # nows))"
    by (simp add: last_map)
  have "(\<lambda>t. if active t then 0 div period t else 0) = (\<lambda>t. 0)" by auto
  then have z: "total_due 0 ?ts = 0" by (simp only: total_due_def) simp
  show ?thesis
    using f z by (intro exI [of _ ts'] exI [of _ fs]) (simp only: first run_ticks.simps option.case sum.case prod.case d l, simp)
qed

text \<open>C40: At the last value of the time base the catch-up loop never returns: for any anchored,
  enabled task the call hangs, appending frames for ever.\<close>

theorem tick_hangs_at_max:
  assumes "t \<in> set ts" and "active t" and "rt_next_tick_us t \<noteq> 0" and "\<forall>t\<in>set ts. wf_task t"
  shows "tick ts (- 1) (Some out) = None"
proof -
  have "tick_loop (- 1) ts out k = None" for k
    using assms
  proof (induction ts arbitrary: out k)
    case (Cons u us)
    have u: "wf_task u" using Cons.prems by simp
    show ?case
    proof (cases "active u \<and> rt_next_tick_us u \<noteq> 0")
      case True
      then show ?thesis
        using catch_up_max [OF u] by (simp add: tick_task_def active_def period_def unat_gt_0)
    next
      case False
      then have "\<exists>u'. tick_task (- 1) u out k = Some (Inr (u', out, k))"
        by (auto simp: tick_task_def active_def period_def unat_gt_0)
      moreover have "tick_loop (- 1) us out k = None"
        using Cons.IH [of out k] Cons.prems False by auto
      ultimately show ?thesis by auto
    qed
  qed simp
  then show ?thesis by (simp add: tick_def)
qed

definition sample_task :: RbsTask where
  "sample_task = default_RbsTask\<lparr>rt_msg_id := 0x100, rt_period_us := 10\<rparr>"

lemma sample_task_simps:
  "wf_task sample_task" "active sample_task" "period sample_task = 10"
  by (simp_all add: wf_task_def active_def period_def sample_task_def default_RbsTask_def)

theorem tick_emits_due_witness:
  "(tick [sample_task\<lparr>rt_next_tick_us := 5\<rparr>] 38 (Some []) =
      Some (Inr (map (task_after 38) [sample_task\<lparr>rt_next_tick_us := 5\<rparr>],
                 Some (concat (map (\<lambda>t. replicate (sends 38 t) (task_frame 38 t))
                                [sample_task\<lparr>rt_next_tick_us := 5\<rparr>])),
                 4))) \<and>
   38 < next_at (task_after 38 (sample_task\<lparr>rt_next_tick_us := 5\<rparr>))"
proof -
  let ?t = "sample_task\<lparr>rt_next_tick_us := 5\<rparr>"
  have t: "wf_task ?t" "active ?t" "period ?t = 10" "next_at ?t = 5" "rt_next_tick_us ?t = 5"
    using sample_task_simps by (simp_all add: wf_task_def active_def period_def next_at_def)
  then have "sends 38 ?t = 4" by (simp add: sends_def due_count_def)
  then show ?thesis
    using tick_emits_due [of "[?t]" 38 "[]"] t by simp
qed

theorem rbs_rate_exact_witness:
  "\<exists>ts' fs. run_ticks [7, 20, 20, 58] (rbs_reset [sample_task]) [] = Some (Inr (ts', fs)) \<and>
    length fs = 5"
  using rbs_rate_exact [of "[sample_task]" 7 "[20, 20, 58]"] sample_task_simps by simp

theorem tick_hangs_at_max_witness:
  "tick [sample_task\<lparr>rt_next_tick_us := 5\<rparr>] (- 1) (Some []) = None"
  by (rule tick_hangs_at_max [of "sample_task\<lparr>rt_next_tick_us := 5\<rparr>"])
     (use sample_task_simps in \<open>simp_all add: wf_task_def active_def period_def\<close>)

end
