(* ===== verification/QueueInterface.thy ===== *)
theory QueueInterface
  imports Prelude
begin

text \<open>
  The contract of the bounded queue between the capture thread and its consumers: insertion at the
  back that refuses (and counts) what does not fit, removal from the front. The invariant carries a
  number: \<open>inv k s\<close> says that the queue is sound and stays so for \<open>k\<close> more operations, which is
  how a queue with fixed-width indices can keep the contract. Refusals are counted in 64 bits. The lemmas on whole runs of
  operations are proved here once.
\<close>

datatype 'a qop = Push 'a | Pop

datatype 'a qout = Accepted | Refused | Got 'a | Nothing

locale bounded_queue =
  fixes inv :: "nat \<Rightarrow> 's \<Rightarrow> bool"
    and items :: "'s \<Rightarrow> 'a list"
    and room :: "'s \<Rightarrow> nat"
    and drops :: "'s \<Rightarrow> u64"
    and enq :: "'s \<Rightarrow> 'a \<Rightarrow> bool \<times> 's"
    and deq :: "'s \<Rightarrow> 'a option \<times> 's"
  assumes items_bound: "inv k s \<Longrightarrow> length (items s) \<le> room s"
    and enq_fits: "inv (Suc k) s \<Longrightarrow> length (items s) < room s \<Longrightarrow>
      fst (enq s x) \<and> inv k (snd (enq s x)) \<and> items (snd (enq s x)) = items s @ [x] \<and>
      room (snd (enq s x)) = room s \<and> drops (snd (enq s x)) = drops s"
    and enq_full: "inv (Suc k) s \<Longrightarrow> length (items s) = room s \<Longrightarrow>
      \<not> fst (enq s x) \<and> inv k (snd (enq s x)) \<and> items (snd (enq s x)) = items s \<and>
      room (snd (enq s x)) = room s \<and> drops (snd (enq s x)) = drops s + 1"
    and deq_some: "inv (Suc k) s \<Longrightarrow> items s = x # xs \<Longrightarrow>
      fst (deq s) = Some x \<and> inv k (snd (deq s)) \<and> items (snd (deq s)) = xs \<and>
      room (snd (deq s)) = room s \<and> drops (snd (deq s)) = drops s"
    and deq_none: "inv (Suc k) s \<Longrightarrow> items s = [] \<Longrightarrow>
      fst (deq s) = None \<and> inv k (snd (deq s)) \<and> items (snd (deq s)) = [] \<and>
      room (snd (deq s)) = room s \<and> drops (snd (deq s)) = drops s"
begin

lemma enq_cases:
  assumes "inv (Suc k) s"
  shows "inv k (snd (enq s x)) \<and> room (snd (enq s x)) = room s \<and>
    (if length (items s) < room s
     then fst (enq s x) \<and> items (snd (enq s x)) = items s @ [x] \<and> drops (snd (enq s x)) = drops s
     else \<not> fst (enq s x) \<and> items (snd (enq s x)) = items s \<and> drops (snd (enq s x)) = drops s + 1)"
  using items_bound [OF assms] enq_fits [OF assms] enq_full [OF assms] by (auto simp: le_less)

lemma deq_cases:
  assumes "inv (Suc k) s"
  shows "inv k (snd (deq s)) \<and> room (snd (deq s)) = room s \<and> drops (snd (deq s)) = drops s \<and>
    (case items s of [] \<Rightarrow> fst (deq s) = None \<and> items (snd (deq s)) = []
     | x # xs \<Rightarrow> fst (deq s) = Some x \<and> items (snd (deq s)) = xs)"
  using deq_some [OF assms] deq_none [OF assms] by (cases "items s") auto

text \<open>A batch of insertions: a prefix of the batch is accepted, as much as there is room for.\<close>

lemma enq_batch:
  assumes "inv (length xs) s"
  defines "s' \<equiv> fold (\<lambda>x s. snd (enq s x)) xs s"
  shows "items s' = items s @ take (room s - length (items s)) xs \<and> room s' = room s \<and>
    drops s' = drops s + of_nat (length xs - (room s - length (items s))) \<and> inv 0 s'"
  using assms(1) unfolding s'_def
proof (induction xs arbitrary: s)
  case (Cons x xs)
  have b: "length (items s) \<le> room s" using items_bound Cons.prems by blast
  show ?case
  proof (cases "length (items s) < room s")
    case True
    then have "room s - length (items s) = Suc (room s - Suc (length (items s)))" by simp
    then show ?thesis
      using enq_cases [of "length xs" s x] Cons.IH [of "snd (enq s x)"] Cons.prems True by auto
  next
    case False
    then show ?thesis
      using enq_cases [of "length xs" s x] Cons.IH [of "snd (enq s x)"] Cons.prems b by auto
  qed
qed (simp add: assms)

end

text \<open>Runs of operations, with the outcome of each.\<close>

fun qrun :: "('s \<Rightarrow> 'a \<Rightarrow> bool \<times> 's) \<Rightarrow> ('s \<Rightarrow> 'a option \<times> 's) \<Rightarrow> 'a qop list \<Rightarrow> 's \<Rightarrow>
    'a qout list \<times> 's" where
  "qrun enq deq [] s = ([], s)"
| "qrun enq deq (Push x # ops) s =
     (let (b, s') = enq s x; (os, s'') = qrun enq deq ops s'
      in ((if b then Accepted else Refused) # os, s''))"
| "qrun enq deq (Pop # ops) s =
     (let (r, s') = deq s; (os, s'') = qrun enq deq ops s'
      in ((case r of Some x \<Rightarrow> Got x | None \<Rightarrow> Nothing) # os, s''))"

text \<open>What was accepted, what was handed out, and how many were refused.\<close>

fun accepted :: "'a qop list \<Rightarrow> 'a qout list \<Rightarrow> 'a list" where
  "accepted (Push x # ops) (Accepted # os) = x # accepted ops os"
| "accepted (_ # ops) (_ # os) = accepted ops os"
| "accepted _ _ = []"

fun handed_out :: "'a qout list \<Rightarrow> 'a list" where
  "handed_out [] = []"
| "handed_out (Got x # os) = x # handed_out os"
| "handed_out (_ # os) = handed_out os"

fun refused :: "'a qout list \<Rightarrow> nat" where
  "refused [] = 0"
| "refused (Refused # os) = Suc (refused os)"
| "refused (_ # os) = refused os"

text \<open>The abstract queue: a list of at most \<open>c\<close> items.\<close>

definition list_enq :: "nat \<Rightarrow> 'a list \<Rightarrow> 'a \<Rightarrow> bool \<times> 'a list" where
  "list_enq c q x = (if length q < c then (True, q @ [x]) else (False, q))"

definition list_deq :: "'a list \<Rightarrow> 'a option \<times> 'a list" where
  "list_deq q = (case q of [] \<Rightarrow> (None, []) | x # xs \<Rightarrow> (Some x, xs))"

context bounded_queue
begin

text \<open>Every run has the outcomes of the abstract queue and ends in the state that stands for its.\<close>

lemma run_refines:
  assumes "inv (length ops) s" and "qrun enq deq ops s = (os, s')"
  shows "qrun (list_enq (room s)) list_deq ops (items s) = (os, items s')"
  using assms
proof (induction ops arbitrary: s os)
  case (Cons op ops)
  show ?case
  proof (cases op)
    case (Push x)
    obtain os' where r: "qrun enq deq ops (snd (enq s x)) = (os', s')"
      and os: "os = (if fst (enq s x) then Accepted else Refused) # os'"
      using Cons.prems(2) Push by (auto simp: Let_def split: prod.splits)
    have c: "inv (Suc (length ops)) s" using Cons.prems(1) by simp
    show ?thesis
      using Cons.IH [OF _ r] enq_cases [OF c, of x] os Push
      by (cases "length (items s) < room s") (auto simp: list_enq_def)
  next
    case Pop
    obtain os' where r: "qrun enq deq ops (snd (deq s)) = (os', s')"
      and os: "os = (case fst (deq s) of Some x \<Rightarrow> Got x | None \<Rightarrow> Nothing) # os'"
      using Cons.prems(2) Pop by (auto simp: Let_def split: prod.splits)
    have c: "inv (Suc (length ops)) s" using Cons.prems(1) by simp
    show ?thesis
      using Cons.IH [OF _ r] deq_cases [OF c] os Pop
      by (cases "items s") (auto simp: list_deq_def)
  qed
qed simp

text \<open>First in, first out: what was in the queue and what was accepted is what was handed out
  followed by what is still in it; and every refusal is counted.\<close>

lemma run_fifo:
  assumes "inv (length ops) s" and "qrun enq deq ops s = (os, s')"
  shows "items s @ accepted ops os = handed_out os @ items s' \<and>
    drops s' = drops s + of_nat (refused os) \<and> room s' = room s \<and> inv 0 s'"
  using assms
proof (induction ops arbitrary: s os)
  case (Cons op ops)
  show ?case
  proof (cases op)
    case (Push x)
    obtain os' where r: "qrun enq deq ops (snd (enq s x)) = (os', s')"
      and os: "os = (if fst (enq s x) then Accepted else Refused) # os'"
      using Cons.prems(2) Push by (auto simp: Let_def split: prod.splits)
    have c: "inv (Suc (length ops)) s" using Cons.prems(1) by simp
    show ?thesis
      using Cons.IH [OF _ r] enq_cases [OF c, of x] os Push
      by (cases "length (items s) < room s") auto
  next
    case Pop
    obtain os' where r: "qrun enq deq ops (snd (deq s)) = (os', s')"
      and os: "os = (case fst (deq s) of Some x \<Rightarrow> Got x | None \<Rightarrow> Nothing) # os'"
      using Cons.prems(2) Pop by (auto simp: Let_def split: prod.splits)
    have c: "inv (Suc (length ops)) s" using Cons.prems(1) by simp
    show ?thesis
      using Cons.IH [OF _ r] deq_cases [OF c] os Pop
      by (cases "items s") auto
  qed
qed simp

end

end
