(* ===== verification/Pipeline.thy ===== *)
theory Pipeline
  imports QueueInterface BusFrame
begin

text \<open>
  The ring buffer between capture and consumers (\<^verbatim>\<open>data/pipeline.cpp\<close>), used from one thread: 64-bit
  read and write indices that are never reduced, a slot index taken modulo the capacity, a counter
  of dropped frames. The interleaving of producer and consumer is in \<^verbatim>\<open>SpscRing\<close>.
\<close>

section \<open>The code\<close>

record Pipeline =
  pl_buf :: "bt_bus_frame list"
  pl_capacity :: u64
  pl_head :: u64
  pl_tail :: u64
  pl_dropped :: u64

definition new_Pipeline :: "u64 \<Rightarrow> Pipeline" where
  "new_Pipeline capacity =
     \<lparr>pl_buf = replicate (unat (if capacity > 0 then capacity else 1)) zero_frame,
      pl_capacity = (if capacity > 0 then capacity else 1), pl_head = 0, pl_tail = 0,
      pl_dropped = 0\<rparr>"

definition slot :: "Pipeline \<Rightarrow> u64 \<Rightarrow> nat" where
  "slot p i = unat (i mod pl_capacity p)"

definition push :: "Pipeline \<Rightarrow> bt_bus_frame \<Rightarrow> (bool \<times> Pipeline) res" where
  "push p frame =
     (let h = pl_head p; t = pl_tail p in
      if t - h \<ge> pl_capacity p then Inr (False, p\<lparr>pl_dropped := pl_dropped p + 1\<rparr>)
      else if slot p t < length (pl_buf p)
      then Inr (True, p\<lparr>pl_buf := (pl_buf p)[slot p t := frame], pl_tail := t + 1\<rparr>)
      else Inl OutOfBounds)"

text \<open>\<open>out\<close> tells whether the caller passed a place for the frame.\<close>

definition pop :: "Pipeline \<Rightarrow> bool \<Rightarrow> (bt_bus_frame option \<times> Pipeline) res" where
  "pop p out =
     (if \<not> out then Inr (None, p)
      else let h = pl_head p; t = pl_tail p in
        if h = t then Inr (None, p)
        else if slot p h < length (pl_buf p)
        then Inr (Some (pl_buf p ! slot p h), p\<lparr>pl_head := h + 1\<rparr>)
        else Inl OutOfBounds)"

definition pl_size :: "Pipeline \<Rightarrow> u64" where
  "pl_size p = pl_tail p - pl_head p"

definition pl_empty :: "Pipeline \<Rightarrow> bool" where
  "pl_empty p \<longleftrightarrow> pl_size p = 0"

definition pl_reset :: "Pipeline \<Rightarrow> Pipeline" where
  "pl_reset p = p\<lparr>pl_head := 0, pl_tail := 0, pl_dropped := 0\<rparr>"

section \<open>The queue it stands for\<close>

definition pl_items :: "Pipeline \<Rightarrow> bt_bus_frame list" where
  "pl_items p = map (\<lambda>i. pl_buf p ! slot p (pl_head p + of_nat i)) [0..<unat (pl_size p)]"

definition shape :: "Pipeline \<Rightarrow> bool" where
  "shape p \<longleftrightarrow> 0 < pl_capacity p \<and> length (pl_buf p) = unat (pl_capacity p) \<and>
     pl_size p \<le> pl_capacity p"

text \<open>
  The slot of a frame is its index modulo the capacity, which agrees with counting in 64 bits only
  if the capacity divides 2^64 or the write index has not wrapped. \<open>k\<close> operations are left.
\<close>

definition pl_inv :: "nat \<Rightarrow> Pipeline \<Rightarrow> bool" where
  "pl_inv k p \<longleftrightarrow> shape p \<and>
     (unat (pl_capacity p) dvd 2 ^ 64 \<or> pl_head p \<le> pl_tail p \<and> unat (pl_tail p) + k < 2 ^ 64)"

lemma slot_less: "shape p \<Longrightarrow> slot p i < length (pl_buf p)"
  by (simp add: slot_def shape_def unat_mod word_less_nat_alt)

lemma slot_eq: "slot p i = unat i mod unat (pl_capacity p)"
  by (simp add: slot_def unat_mod)

lemma unat_add_of_nat:
  "unat (w + of_nat i :: u64) = (unat w + i) mod 2 ^ 64"
  by (simp add: unat_word_ariths unat_of_nat mod_add_right_eq)

lemma mod_neq_window:
  fixes a i j c :: nat
  assumes "i < j" and "j < c" and "c \<le> a + c"
  shows "(a + i) mod c \<noteq> (a + j) mod c"
proof
  assume e: "(a + i) mod c = (a + j) mod c"
  then have "c dvd (a + j) - (a + i)"
    using assms(1) by (metis add_le_cancel_left le_less mod_eq_dvd_iff_nat)
  then have "c dvd j - i" by simp
  with assms show False by (auto dest: dvd_imp_le)
qed

text \<open>Distinct places of the window are distinct slots.\<close>

lemma slot_neq:
  assumes "shape p" and "i < j" and "j < unat (pl_capacity p)"
    and "unat (pl_capacity p) dvd 2 ^ 64 \<or> unat (pl_head p) + j < 2 ^ 64"
  shows "slot p (pl_head p + of_nat i) \<noteq> slot p (pl_head p + of_nat j)"
proof -
  let ?c = "unat (pl_capacity p)"
  have m: "unat (pl_head p + of_nat k) mod ?c = (unat (pl_head p) + k) mod ?c"
    if "?c dvd 2 ^ 64 \<or> unat (pl_head p) + k < 2 ^ 64" for k
    using that unfolding unat_add_of_nat by (auto simp: mod_mod_cancel)
  show ?thesis
    using assms(2-4) m [of i] m [of j] mod_neq_window [OF assms(2,3), of "unat (pl_head p)"]
    by (auto simp: slot_eq)
qed

lemma length_items [simp]: "length (pl_items p) = unat (pl_size p)"
  by (simp add: pl_items_def)

lemma tail_eq: "pl_tail p = pl_head p + of_nat (unat (pl_size p))"
  by (simp add: pl_size_def)

lemma size_bound: "shape p \<Longrightarrow> unat (pl_size p) \<le> unat (pl_capacity p)"
  by (simp add: shape_def word_le_nat_alt)

lemma tail_nat:
  assumes "pl_head p \<le> pl_tail p"
  shows "unat (pl_tail p) = unat (pl_head p) + unat (pl_size p)"
  using assms by (simp add: pl_size_def unat_sub word_le_nat_alt)

text \<open>The state after an accepted insertion and after a removal.\<close>

definition pushed_state :: "Pipeline \<Rightarrow> bt_bus_frame \<Rightarrow> Pipeline" where
  "pushed_state p x = p\<lparr>pl_buf := (pl_buf p)[slot p (pl_tail p) := x], pl_tail := pl_tail p + 1\<rparr>"

definition popped_state :: "Pipeline \<Rightarrow> Pipeline" where
  "popped_state p = p\<lparr>pl_head := pl_head p + 1\<rparr>"

lemma push_cases:
  assumes "shape p"
  shows "push p x = (if unat (pl_size p) < unat (pl_capacity p) then Inr (True, pushed_state p x)
     else Inr (False, p\<lparr>pl_dropped := pl_dropped p + 1\<rparr>))"
  using slot_less [OF assms]
  by (auto simp: push_def Let_def pl_size_def [symmetric] word_le_nat_alt pushed_state_def)

lemma pop_cases:
  assumes "shape p"
  shows "pop p True = (if unat (pl_size p) = 0 then Inr (None, p)
     else Inr (Some (pl_buf p ! slot p (pl_head p)), popped_state p))"
proof -
  have "pl_head p = pl_tail p \<longleftrightarrow> unat (pl_size p) = 0"
    by (auto simp: pl_size_def unat_eq_zero)
  then show ?thesis
    using slot_less [OF assms] by (simp add: pop_def Let_def popped_state_def)
qed

lemma size_pushed:
  assumes "unat (pl_size p) < unat (pl_capacity p)"
  shows "unat (pl_size (pushed_state p x)) = Suc (unat (pl_size p))"
proof -
  have "pl_size (pushed_state p x) = pl_size p + 1"
    by (simp add: pl_size_def pushed_state_def)
  moreover have "unat (pl_size p) + 1 < 2 ^ 64"
    using assms unat_u64_less [of "pl_capacity p"] by simp
  ultimately show ?thesis by (simp add: unat_word_ariths)
qed

lemma size_popped:
  assumes "unat (pl_size p) = Suc n"
  shows "unat (pl_size (popped_state p)) = n"
proof -
  have "pl_size (popped_state p) = pl_size p - 1"
    by (simp add: pl_size_def popped_state_def)
  moreover have "1 \<le> pl_size p" using assms by (simp add: word_le_nat_alt)
  ultimately show ?thesis using assms by (simp add: unat_sub)
qed

lemma no_wrap_window:
  assumes "pl_inv (Suc k) p"
  shows "unat (pl_capacity p) dvd 2 ^ 64 \<or> unat (pl_head p) + unat (pl_size p) < 2 ^ 64"
  using assms tail_nat [of p] unat_u64_less [of "pl_tail p"] by (auto simp: pl_inv_def)

lemma items_pushed:
  assumes "pl_inv (Suc k) p" and "unat (pl_size p) < unat (pl_capacity p)"
  shows "pl_items (pushed_state p x) = pl_items p @ [x]"
proof -
  let ?n = "unat (pl_size p)" and ?s = "slot p (pl_tail p)"
  have sh: "shape p" using assms(1) by (simp add: pl_inv_def)
  have sl: "slot (pushed_state p x) i = slot p i" for i by (simp add: slot_def pushed_state_def)
  have here: "(pl_buf p)[?s := x] ! slot p (pl_head p + of_nat ?n) = x"
    using slot_less [OF sh] tail_eq [of p] by simp
  have there: "(pl_buf p)[?s := x] ! slot p (pl_head p + of_nat i) = pl_buf p ! slot p (pl_head p + of_nat i)"
    if "i < ?n" for i
    using slot_neq [OF sh that assms(2) no_wrap_window [OF assms(1)]] tail_eq [of p] by simp
  have "pl_items (pushed_state p x)
      = map (\<lambda>i. (pl_buf p)[?s := x] ! slot p (pl_head p + of_nat i)) [0..<Suc ?n]"
    unfolding pl_items_def size_pushed [OF assms(2)] sl by (simp add: pushed_state_def)
  also have "\<dots> = map (\<lambda>i. (pl_buf p)[?s := x] ! slot p (pl_head p + of_nat i)) [0..<?n] @ [x]"
    using here by simp
  also have "map (\<lambda>i. (pl_buf p)[?s := x] ! slot p (pl_head p + of_nat i)) [0..<?n] = pl_items p"
    unfolding pl_items_def using there by (intro map_cong) auto
  finally show ?thesis .
qed

lemma items_popped:
  assumes "unat (pl_size p) = Suc n"
  shows "pl_items p = pl_buf p ! slot p (pl_head p) # pl_items (popped_state p)"
proof -
  have "pl_items (popped_state p) = map (\<lambda>i. pl_buf p ! slot p (pl_head p + of_nat (Suc i))) [0..<n]"
    unfolding pl_items_def size_popped [OF assms]
    by (simp add: slot_def popped_state_def algebra_simps)
  also have "\<dots> = map (\<lambda>i. pl_buf p ! slot p (pl_head p + of_nat i)) [Suc 0..<Suc n]"
    by (simp only: map_Suc_upt [symmetric] map_map comp_def)
  finally show ?thesis
    unfolding pl_items_def assms by (simp add: upt_conv_Cons del: upt_Suc)
qed

lemma inv_pushed:
  assumes "pl_inv (Suc k) p" and "unat (pl_size p) < unat (pl_capacity p)"
  shows "pl_inv k (pushed_state p x)"
proof -
  have "shape (pushed_state p x)"
    using assms size_pushed [OF assms(2), of x]
    by (simp add: pl_inv_def shape_def word_le_nat_alt) (simp add: pushed_state_def)
  moreover have "pl_head p \<le> pl_tail p + 1 \<and> unat (pl_tail p + 1) + k < 2 ^ 64"
    if "pl_head p \<le> pl_tail p" "unat (pl_tail p) + Suc k < 2 ^ 64"
  proof -
    have "unat (pl_tail p + 1) = unat (pl_tail p) + 1" using that(2) by (simp add: unat_word_ariths)
    with that show ?thesis by (simp add: word_le_nat_alt)
  qed
  ultimately show ?thesis
    using assms(1) by (auto simp: pl_inv_def pushed_state_def)
qed

lemma inv_popped:
  assumes "pl_inv (Suc k) p" and "unat (pl_size p) = Suc n"
  shows "pl_inv k (popped_state p)"
proof -
  have "shape (popped_state p)"
    using assms size_popped [OF assms(2)] size_bound [of p]
    by (simp add: pl_inv_def shape_def word_le_nat_alt) (simp add: popped_state_def)
  moreover have "pl_head p + 1 \<le> pl_tail p" if "pl_head p \<le> pl_tail p"
  proof -
    have "unat (pl_tail p) = unat (pl_head p) + Suc n" using tail_nat [OF that] assms(2) by simp
    moreover have "unat (pl_head p + 1) = unat (pl_head p) + 1"
      using calculation unat_u64_less [of "pl_tail p"] by (simp add: unat_word_ariths)
    ultimately show ?thesis by (simp add: word_le_nat_alt)
  qed
  ultimately show ?thesis
    using assms(1) by (auto simp: pl_inv_def popped_state_def)
qed

section \<open>The ring buffer is a bounded queue\<close>

definition pl_enq :: "Pipeline \<Rightarrow> bt_bus_frame \<Rightarrow> bool \<times> Pipeline" where
  "pl_enq p x = (case push p x of Inr r \<Rightarrow> r | Inl _ \<Rightarrow> (False, p))"

definition pl_deq :: "Pipeline \<Rightarrow> bt_bus_frame option \<times> Pipeline" where
  "pl_deq p = (case pop p True of Inr r \<Rightarrow> r | Inl _ \<Rightarrow> (None, p))"

lemma inv_weaken: "pl_inv (Suc k) p \<Longrightarrow> pl_inv k p"
  by (auto simp: pl_inv_def)

interpretation ring: bounded_queue pl_inv pl_items "\<lambda>p. unat (pl_capacity p)"
  pl_dropped pl_enq pl_deq
proof unfold_locales
  fix k p x xs
  show "pl_inv k p \<Longrightarrow> length (pl_items p) \<le> unat (pl_capacity p)"
    using size_bound by (simp add: pl_inv_def)
  assume i: "pl_inv (Suc k) p"
  then have sh: "shape p" by (simp add: pl_inv_def)
  show "length (pl_items p) < unat (pl_capacity p) \<Longrightarrow>
      fst (pl_enq p x) \<and> pl_inv k (snd (pl_enq p x)) \<and> pl_items (snd (pl_enq p x)) = pl_items p @ [x] \<and>
      unat (pl_capacity (snd (pl_enq p x))) = unat (pl_capacity p) \<and>
      pl_dropped (snd (pl_enq p x)) = pl_dropped p"
    using push_cases [OF sh] inv_pushed [OF i] items_pushed [OF i]
    by (simp add: pl_enq_def) (simp add: pushed_state_def)
  show "length (pl_items p) = unat (pl_capacity p) \<Longrightarrow>
      \<not> fst (pl_enq p x) \<and> pl_inv k (snd (pl_enq p x)) \<and> pl_items (snd (pl_enq p x)) = pl_items p \<and>
      unat (pl_capacity (snd (pl_enq p x))) = unat (pl_capacity p) \<and>
      pl_dropped (snd (pl_enq p x)) = pl_dropped p + 1"
    using push_cases [OF sh] i
    by (auto simp: pl_enq_def pl_inv_def shape_def pl_size_def pl_items_def slot_def)
  show "pl_items p = x # xs \<Longrightarrow>
      fst (pl_deq p) = Some x \<and> pl_inv k (snd (pl_deq p)) \<and> pl_items (snd (pl_deq p)) = xs \<and>
      unat (pl_capacity (snd (pl_deq p))) = unat (pl_capacity p) \<and>
      pl_dropped (snd (pl_deq p)) = pl_dropped p"
  proof -
    assume xs: "pl_items p = x # xs"
    then have n: "unat (pl_size p) = Suc (length xs)" by (metis length_items length_Cons)
    then show ?thesis
      using pop_cases [OF sh] inv_popped [OF i n] items_popped [OF n] xs
      by (simp add: pl_deq_def) (simp add: popped_state_def)
  qed
  show "pl_items p = [] \<Longrightarrow>
      fst (pl_deq p) = None \<and> pl_inv k (snd (pl_deq p)) \<and> pl_items (snd (pl_deq p)) = [] \<and>
      unat (pl_capacity (snd (pl_deq p))) = unat (pl_capacity p) \<and>
      pl_dropped (snd (pl_deq p)) = pl_dropped p"
  proof -
    assume xs: "pl_items p = []"
    then have "unat (pl_size p) = 0" by (metis length_items list.size(3))
    then show ?thesis
      using pop_cases [OF sh] inv_weaken [OF i] xs by (simp add: pl_deq_def)
  qed
qed

lemma capacity_fresh: "unat (pl_capacity (new_Pipeline c)) = max 1 (unat c)"
  by (auto simp: new_Pipeline_def word_gt_0 unat_eq_zero max_def Suc_le_eq unat_gt_0)

lemma fresh_inv: "k < 2 ^ 64 \<or> max 1 (unat c) dvd 2 ^ 64 \<Longrightarrow> pl_inv k (new_Pipeline c)"
  unfolding pl_inv_def capacity_fresh by (auto simp: new_Pipeline_def shape_def pl_size_def word_gt_0)

lemma fresh_dropped: "pl_dropped (new_Pipeline n) = 0"
  by (simp add: new_Pipeline_def)

lemma fresh_items [simp]: "pl_items (new_Pipeline c) = []"
  by (simp add: pl_items_def new_Pipeline_def pl_size_def)

section \<open>Runs of the code\<close>

fun pipe_run :: "bt_bus_frame qop list \<Rightarrow> Pipeline \<Rightarrow> (bt_bus_frame qout list \<times> Pipeline) res" where
  "pipe_run [] p = Inr ([], p)"
| "pipe_run (Push x # ops) p =
     bindr (push p x) (\<lambda>(b, p').
     bindr (pipe_run ops p') (\<lambda>(os, p''). Inr ((if b then Accepted else Refused) # os, p'')))"
| "pipe_run (Pop # ops) p =
     bindr (pop p True) (\<lambda>(r, p').
     bindr (pipe_run ops p') (\<lambda>(os, p'').
       Inr ((case r of Some x \<Rightarrow> Got x | None \<Rightarrow> Nothing) # os, p'')))"

lemma push_enq: "shape p \<Longrightarrow> push p x = Inr (pl_enq p x)"
  by (simp add: push_cases pl_enq_def)

lemma pop_deq: "shape p \<Longrightarrow> pop p True = Inr (pl_deq p)"
  by (simp add: pop_cases pl_deq_def)

text \<open>No operation leaves the buffer.\<close>

lemma pipe_run_safe: "pl_inv (length ops) p \<Longrightarrow> pipe_run ops p = Inr (qrun pl_enq pl_deq ops p)"
proof (induction ops arbitrary: p)
  case (Cons op ops)
  have sh: "shape p" using Cons.prems by (simp add: pl_inv_def)
  have c: "pl_inv (Suc (length ops)) p" using Cons.prems by simp
  show ?case
  proof (cases op)
    case (Push x)
    then show ?thesis
      using Cons.IH [of "snd (pl_enq p x)"] ring.enq_cases [OF c, of x] push_enq [OF sh, of x]
      by (cases "pl_enq p x") (auto simp: Let_def split: prod.splits)
  next
    case Pop
    then show ?thesis
      using Cons.IH [of "snd (pl_deq p)"] ring.deq_cases [OF c] pop_deq [OF sh]
      by (cases "pl_deq p") (auto simp: Let_def split: prod.splits)
  qed
qed simp

text \<open>Capacity three, empty, with both indices at \<open>w\<close>, and what pairs of calls do to it.\<close>

definition quiet :: "u64 \<Rightarrow> Pipeline" where
  "quiet w = (new_Pipeline 3)\<lparr>pl_head := w, pl_tail := w\<rparr>"

lemma quiet_simps:
  "pl_buf (quiet w) = replicate 3 zero_frame" "pl_capacity (quiet w) = 3" "pl_head (quiet w) = w"
  "pl_tail (quiet w) = w" "pl_dropped (quiet w) = 0" "shape (quiet w)"
  by (simp_all add: quiet_def new_Pipeline_def shape_def pl_size_def)

lemma replicate_update [simp]: "(replicate n z)[i := z] = replicate n z"
  by (metis length_replicate list_update_beyond list_update_id not_less nth_replicate)

lemma slot_quiet: "slot (quiet w) v < 3"
  using slot_less [OF quiet_simps(6)] by (simp add: quiet_simps)

lemma quiet_pair: "pipe_run [Push zero_frame, Pop] (quiet w) = Inr ([Accepted, Got zero_frame], quiet (w + 1))"
proof -
  have p: "push (quiet w) zero_frame = Inr (True, (quiet w)\<lparr>pl_tail := w + 1\<rparr>)"
    using slot_quiet [of w w] by (simp add: push_def quiet_simps Let_def)
  have "slot ((quiet w)\<lparr>pl_tail := w + 1\<rparr>) w < 3" using slot_quiet [of w w] by (simp add: slot_def)
  then have "pop ((quiet w)\<lparr>pl_tail := w + 1\<rparr>) True = Inr (Some zero_frame, quiet (w + 1))"
    by (simp add: pop_def quiet_simps Let_def)
  with p show ?thesis by simp
qed

lemma pipe_run_append:
  "pipe_run (a @ b) p = bindr (pipe_run a p) (\<lambda>(os, p').
     bindr (pipe_run b p') (\<lambda>(os', p''). Inr (os @ os', p'')))"
proof (induction a p rule: pipe_run.induct)
  case (1 p)
  then show ?case by (cases "pipe_run b p") auto
next
  case (2 x ops p)
  then show ?case
    by (cases "push p x") (auto simp: bindr_assoc case_prod_beta)
next
  case (3 ops p)
  then show ?case
    by (cases "pop p True") (auto simp: bindr_assoc case_prod_beta)
qed

lemma quiet_pairs:
  "pipe_run (concat (replicate n [Push zero_frame, Pop])) (quiet w)
     = Inr (concat (replicate n [Accepted, Got zero_frame]), quiet (w + of_nat n))"
proof (induction n arbitrary: w)
  case (Suc n)
  have "pipe_run (concat (replicate (Suc n) [Push zero_frame, Pop])) (quiet w)
      = pipe_run ([Push zero_frame, Pop] @ concat (replicate n [Push zero_frame, Pop])) (quiet w)"
    by simp
  then show ?case
    unfolding pipe_run_append quiet_pair using Suc.IH [of "w + 1"] by (simp add: add.assoc)
qed simp

lemma replicate_3: "replicate 3 z = [z, z, z]"
  by (simp add: numeral_3_eq_3)

lemma quiet_wrap:
  "\<exists>p'. pipe_run [Push x, Push y, Pop] (quiet (- 1)) = Inr ([Accepted, Accepted, Got y], p')"
  by (simp add: push_def pop_def quiet_simps Let_def slot_def replicate_3 unat_mod word_le_nat_alt)

section \<open>Properties\<close>

lemma ring_is_queue:
  assumes "length ops < 2 ^ 64 \<or> max 1 (unat c) dvd 2 ^ 64"
  shows "\<exists>os p'. pipe_run ops (new_Pipeline c) = Inr (os, p') \<and>
    qrun (list_enq (max 1 (unat c))) list_deq ops [] = (os, pl_items p') \<and>
    accepted ops os = handed_out os @ pl_items p' \<and>
    pl_dropped p' = of_nat (refused os) \<and> unat (pl_size p') \<le> max 1 (unat c)"
proof -
  obtain os p' where r: "qrun pl_enq pl_deq ops (new_Pipeline c) = (os, p')" by fastforce
  have i: "pl_inv (length ops) (new_Pipeline c)" using fresh_inv assms by blast
  have f: "accepted ops os = handed_out os @ pl_items p'" "pl_dropped p' = of_nat (refused os)"
    "unat (pl_capacity p') = max 1 (unat c)" "pl_inv 0 p'"
    using ring.run_fifo [OF i r] fresh_dropped by (simp_all add: capacity_fresh)
  have "unat (pl_size p') \<le> max 1 (unat c)"
    using ring.items_bound [OF f(4)] f(3) by simp
  moreover have "qrun (list_enq (max 1 (unat c))) list_deq ops [] = (os, pl_items p')"
    using ring.run_refines [OF i r] by (simp add: capacity_fresh)
  ultimately show ?thesis
    using pipe_run_safe [OF i] r f by simp
qed

text \<open>C7: The ring buffer is a bounded first-in-first-out queue, on every run of fewer than 2^64
  operations from construction, and for ever if the capacity divides 2^64 (all capacities the
  program uses do): no access leaves the buffer, each operation has the outcome it has on a list of
  at most the capacity (one, if zero was asked for), what was accepted is what was handed out
  followed by what is still inside, and the drop counter is the number of refusals (modulo 2^64).\<close>

theorem ring_refines_queue:
  assumes "length ops < 2 ^ 64 \<or> max 1 (unat c) dvd 2 ^ 64"
  shows "\<exists>os p'. pipe_run ops (new_Pipeline c) = Inr (os, p') \<and>
    qrun (list_enq (max 1 (unat c))) list_deq ops [] = (os, pl_items p') \<and>
    accepted ops os = handed_out os @ pl_items p' \<and>
    pl_dropped p' = of_nat (refused os) \<and> unat (pl_size p') \<le> max 1 (unat c)"
  using ring_is_queue [OF assms] .

text \<open>The guarantee ends where the write index wraps, for a capacity that does not divide 2^64:
  with capacity three there is a run after which the empty queue accepts two frames and hands out
  the second in place of the first, which is lost.\<close>

theorem ring_wrap_loses_frame:
  "\<exists>ops os p p'. pipe_run ops (new_Pipeline 3) = Inr (os, p) \<and> pl_items p = [] \<and>
     pipe_run [Push x, Push y, Pop] p = Inr ([Accepted, Accepted, Got y], p')"
proof -
  obtain n where n: "(of_nat n :: u64) = - 1"
    by (metis word_nchotomy)
  have "pipe_run (concat (replicate n [Push zero_frame, Pop])) (quiet 0)
      = Inr (concat (replicate n [Accepted, Got zero_frame]), quiet (- 1))"
    using quiet_pairs [of n 0] n by simp
  moreover have "quiet 0 = new_Pipeline 3" by (simp add: quiet_def new_Pipeline_def)
  moreover have "pl_items (quiet (- 1)) = []" by (simp add: pl_items_def pl_size_def quiet_simps)
  ultimately show ?thesis using quiet_wrap [of x y] by metis
qed

definition qframe :: "u32 \<Rightarrow> bt_bus_frame" where
  "qframe i = zero_frame\<lparr>f_id := i\<rparr>"

theorem ring_refines_queue_witness:
  "\<exists>os p'. pipe_run [Push (qframe 1), Push (qframe 2), Push (qframe 3), Pop, Push (qframe 4)] (new_Pipeline 2) = Inr (os, p') \<and>
    qrun (list_enq 2) list_deq [Push (qframe 1), Push (qframe 2), Push (qframe 3), Pop, Push (qframe 4)] [] = (os, pl_items p') \<and>
    os = [Accepted, Accepted, Refused, Got (qframe 1), Accepted] \<and>
    pl_items p' = [qframe 2, qframe 4]"
proof -
  have "qrun (list_enq 2) list_deq [Push (qframe 1), Push (qframe 2), Push (qframe 3), Pop, Push (qframe 4)] []
      = ([Accepted, Accepted, Refused, Got (qframe 1), Accepted], [qframe 2, qframe 4])"
    by (simp add: list_enq_def list_deq_def)
  then show ?thesis
    using ring_refines_queue [of "[Push (qframe 1), Push (qframe 2), Push (qframe 3), Pop, Push (qframe 4)]" 2]
    by (auto simp: max_def)
qed

end
