(* ===== verification/SpscRing.thy ===== *)
theory SpscRing
  imports Pipeline
begin

text \<open>
  The ring buffer used by two threads (\<^verbatim>\<open>data/pipeline.cpp\<close> under \<^verbatim>\<open>data/capture_service.cpp\<close>): every
  access to a shared variable in \<^verbatim>\<open>push\<close> and \<^verbatim>\<open>pop\<close> is a step of its own, and the steps of producer
  and consumer interleave freely. A relaxed or acquire load of the other thread's index may return
  an older value than the current one: the producer may see any read index that was ever stored,
  the consumer any write index not behind its own read index. Every step is labelled with its
  accesses and their memory orders, from which \<^verbatim>\<open>SpscRaces\<close> computes what is ordered and what races. The lists \<open>ghost_in\<close> and \<open>ghost_out\<close> record the frames that
  \<^verbatim>\<open>push\<close> published and \<^verbatim>\<open>pop\<close> returned; no step reads them except to say which values an index had.
\<close>

section \<open>States and steps\<close>

datatype producer =
    P_idle
  | P_loaded_head bt_bus_frame u64
  | P_room bt_bus_frame u64
  | P_written bt_bus_frame u64

datatype consumer =
    C_idle
  | C_loaded_head u64
  | C_data u64
  | C_read u64 bt_bus_frame

record spsc =
  sp_buf :: "bt_bus_frame list"
  sp_capacity :: u64
  sp_head :: u64
  sp_tail :: u64
  sp_dropped :: u64
  sp_prod :: producer
  sp_cons :: consumer
  ghost_in :: "bt_bus_frame list"
  ghost_out :: "bt_bus_frame list"

definition spsc_init :: "u64 \<Rightarrow> spsc" where
  "spsc_init c =
     \<lparr>sp_buf = pl_buf (new_Pipeline c), sp_capacity = pl_capacity (new_Pipeline c),
      sp_head = pl_head (new_Pipeline c), sp_tail = pl_tail (new_Pipeline c),
      sp_dropped = pl_dropped (new_Pipeline c), sp_prod = P_idle, sp_cons = C_idle,
      ghost_in = [], ghost_out = []\<rparr>"

definition sp_slot :: "spsc \<Rightarrow> u64 \<Rightarrow> nat" where
  "sp_slot s i = unat (i mod sp_capacity s)"

text \<open>
  What a step does to shared memory, with the memory order the source gives it. A thread's loads of
  its own index are left out: nobody else writes it, so they read the current value and order
  nothing. Indices and slots are named by the values of the 64-bit counters.
\<close>

datatype memory_order = Relaxed | Acquire | Release

datatype index_var = Head | Tail

datatype thread = Producer | Consumer

datatype access =
    Load index_var memory_order nat
  | Store index_var memory_order nat
  | ReadSlot nat
  | WriteSlot nat
  | CountDrop

text \<open>The source's order of the load of the read index in \<^verbatim>\<open>push\<close>; the steps take it as a parameter.\<close>

definition push_head_order :: memory_order where
  "push_head_order = Relaxed"

inductive spsc_access :: "memory_order \<Rightarrow> spsc \<Rightarrow> thread \<Rightarrow> access list \<Rightarrow> spsc \<Rightarrow> bool" for mo where
  push_load_head: "sp_prod s = P_idle \<Longrightarrow> j \<le> length (ghost_out s) \<Longrightarrow>
    spsc_access mo s Producer [Load Head mo j] (s\<lparr>sp_prod := P_loaded_head f (of_nat j)\<rparr>)"
| push_full: "sp_prod s = P_loaded_head f h \<Longrightarrow> sp_tail s - h \<ge> sp_capacity s \<Longrightarrow>
    spsc_access mo s Producer [CountDrop] (s\<lparr>sp_prod := P_idle, sp_dropped := sp_dropped s + 1\<rparr>)"
| push_room: "sp_prod s = P_loaded_head f h \<Longrightarrow> \<not> sp_tail s - h \<ge> sp_capacity s \<Longrightarrow>
    spsc_access mo s Producer [] (s\<lparr>sp_prod := P_room f (sp_tail s)\<rparr>)"
| push_write: "sp_prod s = P_room f t \<Longrightarrow>
    spsc_access mo s Producer [WriteSlot (unat t)]
      (s\<lparr>sp_prod := P_written f t, sp_buf := (sp_buf s)[sp_slot s t := f]\<rparr>)"
| push_publish: "sp_prod s = P_written f t \<Longrightarrow>
    spsc_access mo s Producer [Store Tail Release (unat (t + 1))]
      (s\<lparr>sp_prod := P_idle, sp_tail := t + 1, ghost_in := ghost_in s @ [f]\<rparr>)"
| pop_load_head: "sp_cons s = C_idle \<Longrightarrow>
    spsc_access mo s Consumer [] (s\<lparr>sp_cons := C_loaded_head (sp_head s)\<rparr>)"
| pop_none: "sp_cons s = C_loaded_head h \<Longrightarrow> length (ghost_out s) \<le> j \<Longrightarrow> j \<le> length (ghost_in s) \<Longrightarrow>
    h = of_nat j \<Longrightarrow> spsc_access mo s Consumer [Load Tail Acquire j] (s\<lparr>sp_cons := C_idle\<rparr>)"
| pop_data: "sp_cons s = C_loaded_head h \<Longrightarrow> length (ghost_out s) \<le> j \<Longrightarrow> j \<le> length (ghost_in s) \<Longrightarrow>
    h \<noteq> of_nat j \<Longrightarrow> spsc_access mo s Consumer [Load Tail Acquire j] (s\<lparr>sp_cons := C_data h\<rparr>)"
| pop_read: "sp_cons s = C_data h \<Longrightarrow>
    spsc_access mo s Consumer [ReadSlot (unat h)] (s\<lparr>sp_cons := C_read h (sp_buf s ! sp_slot s h)\<rparr>)"
| pop_publish: "sp_cons s = C_read h f \<Longrightarrow>
    spsc_access mo s Consumer [Store Head Release (unat (h + 1))]
      (s\<lparr>sp_cons := C_idle, sp_head := h + 1, ghost_out := ghost_out s @ [f]\<rparr>)"

inductive_cases spsc_accessE: "spsc_access mo s th a s'"

text \<open>Reachable states. The memory order is a matter of the accesses, not of the states.\<close>

inductive reachable :: "u64 \<Rightarrow> spsc \<Rightarrow> bool" for c where
  start: "reachable c (spsc_init c)"
| more: "reachable c s \<Longrightarrow> spsc_access push_head_order s th a s' \<Longrightarrow> reachable c s'"

lemma access_any_order: "spsc_access mo s th a s' \<Longrightarrow> \<exists>b. spsc_access mo' s th b s'"
  by (elim spsc_access.cases) (blast intro: spsc_access.intros)+

text \<open>The producer can always go on.\<close>

lemma producer_enabled: "\<exists>a r. spsc_access mo s Producer a r"
  by (cases "sp_prod s") (meson le0 spsc_access.intros)+

section \<open>The invariant\<close>

text \<open>The slot of the \<open>i\<close>-th frame; the frame that is being or has been written but not published
  occupies the slot of the next one.\<close>

definition place :: "spsc \<Rightarrow> nat \<Rightarrow> nat" where
  "place s i = i mod unat (sp_capacity s)"

definition ring_inv :: "spsc \<Rightarrow> bool" where
  "ring_inv s \<longleftrightarrow>
     0 < sp_capacity s \<and> length (sp_buf s) = unat (sp_capacity s) \<and>
     sp_head s = of_nat (length (ghost_out s)) \<and> sp_tail s = of_nat (length (ghost_in s)) \<and>
     length (ghost_out s) \<le> length (ghost_in s) \<and>
     length (ghost_in s) \<le> length (ghost_out s) + unat (sp_capacity s) \<and>
     ghost_out s = take (length (ghost_out s)) (ghost_in s) \<and>
     (\<forall>i. length (ghost_out s) \<le> i \<longrightarrow> i < length (ghost_in s) \<longrightarrow>
        sp_buf s ! place s i = ghost_in s ! i)"

definition prod_inv :: "spsc \<Rightarrow> bool" where
  "prod_inv s \<longleftrightarrow>
     (case sp_prod s of
        P_idle \<Rightarrow> True
      | P_loaded_head f h \<Rightarrow> \<exists>j\<le>length (ghost_out s). h = of_nat j
      | P_room f t \<Rightarrow> t = of_nat (length (ghost_in s)) \<and>
          length (ghost_in s) < length (ghost_out s) + unat (sp_capacity s)
      | P_written f t \<Rightarrow> t = of_nat (length (ghost_in s)) \<and>
          length (ghost_in s) < length (ghost_out s) + unat (sp_capacity s) \<and>
          sp_buf s ! place s (length (ghost_in s)) = f)"

definition cons_inv :: "spsc \<Rightarrow> bool" where
  "cons_inv s \<longleftrightarrow>
     (case sp_cons s of
        C_idle \<Rightarrow> True
      | C_loaded_head h \<Rightarrow> h = of_nat (length (ghost_out s))
      | C_data h \<Rightarrow> h = of_nat (length (ghost_out s)) \<and> length (ghost_out s) < length (ghost_in s)
      | C_read h f \<Rightarrow> h = of_nat (length (ghost_out s)) \<and> length (ghost_out s) < length (ghost_in s) \<and>
          f = ghost_in s ! length (ghost_out s))"

definition spsc_inv :: "spsc \<Rightarrow> bool" where
  "spsc_inv s \<longleftrightarrow> ring_inv s \<and> prod_inv s \<and> cons_inv s"

definition small :: "spsc \<Rightarrow> bool" where
  "small s \<longleftrightarrow> length (ghost_in s) < 2 ^ 64"

lemma unat_index: "n < 2 ^ 64 \<Longrightarrow> unat (of_nat n :: u64) = n"
  by (rule unat_of_nat_id) simp

lemma index_inj: "a < 2 ^ 64 \<Longrightarrow> b < 2 ^ 64 \<Longrightarrow> (of_nat a :: u64) = of_nat b \<longleftrightarrow> a = b"
  by (metis unat_index)

lemma sp_slot_place: "n < 2 ^ 64 \<Longrightarrow> sp_slot s (of_nat n) = place s n"
  by (simp add: sp_slot_def place_def unat_mod unat_index del: unat_of_nat)

lemma place_neq:
  assumes "i < j" and "j < i + unat (sp_capacity s)"
  shows "place s i \<noteq> place s j"
  using mod_neq_window [of 0 "j - i" "unat (sp_capacity s)" i] assms by (simp add: place_def)

lemma place_less: "ring_inv s \<Longrightarrow> place s i < length (sp_buf s)"
  by (simp add: ring_inv_def place_def word_less_nat_alt)

lemma inv_init: "spsc_inv (spsc_init c)"
  by (simp add: spsc_inv_def ring_inv_def prod_inv_def cons_inv_def spsc_init_def new_Pipeline_def word_gt_0)

lemma ghost_in_mono: "spsc_access mo s th a s' \<Longrightarrow> length (ghost_in s) \<le> length (ghost_in s')"
  by (auto elim!: spsc_accessE)

lemma inv_cons_update [simp]:
  "ring_inv (s\<lparr>sp_cons := x\<rparr>) = ring_inv s" "prod_inv (s\<lparr>sp_cons := x\<rparr>) = prod_inv s"
  by (simp_all add: ring_inv_def prod_inv_def place_def split: producer.split)

text \<open>The producer's test, on a read index that may be stale, is conservative.\<close>

lemma room_before:
  assumes "ring_inv s" and "small s" and "j \<le> length (ghost_out s)"
    and "\<not> sp_tail s - of_nat j \<ge> sp_capacity s"
  shows "length (ghost_in s) < j + unat (sp_capacity s)"
proof -
  let ?n = "length (ghost_in s)"
  have j: "j \<le> ?n" using assms(1,3) by (simp add: ring_inv_def)
  then have "sp_tail s - of_nat j = of_nat (?n - j)"
    using assms(1) by (simp add: ring_inv_def of_nat_diff)
  moreover have "unat (of_nat (?n - j) :: u64) = ?n - j"
    using assms(2) by (intro unat_index) (simp add: small_def)
  ultimately have "?n - j < unat (sp_capacity s)"
    using assms(4) by (simp add: word_le_nat_alt not_le)
  then show ?thesis by simp
qed

lemma room_is_room:
  assumes "ring_inv s" and "small s" and "j \<le> length (ghost_out s)"
    and "\<not> sp_tail s - of_nat j \<ge> sp_capacity s"
  shows "length (ghost_in s) < length (ghost_out s) + unat (sp_capacity s)"
  using room_before [OF assms] assms(3) by simp

lemma inv_push_write:
  assumes "spsc_inv s" and "small s" and "sp_prod s = P_room f t"
  shows "spsc_inv (s\<lparr>sp_prod := P_written f t, sp_buf := (sp_buf s)[sp_slot s t := f]\<rparr>)"
proof -
  let ?n = "length (ghost_in s)"
  have r: "ring_inv s" and t: "t = of_nat ?n" and n: "?n < length (ghost_out s) + unat (sp_capacity s)"
    using assms by (auto simp: spsc_inv_def prod_inv_def)
  have sl: "sp_slot s t = place s ?n" using t assms(2) by (simp add: sp_slot_place small_def)
  have "place s ?n \<noteq> place s i" if "length (ghost_out s) \<le> i" "i < ?n" for i
  proof -
    have "?n < i + unat (sp_capacity s)" using that(1) n by simp
    then show ?thesis using place_neq [OF that(2)] by metis
  qed
  then show ?thesis
    using assms(1) r n sl place_less [OF r, of ?n] t
    by (auto simp: spsc_inv_def ring_inv_def prod_inv_def cons_inv_def place_def split: consumer.splits)
qed

lemma inv_push_publish:
  assumes "spsc_inv s" and "sp_prod s = P_written f t"
  shows "spsc_inv (s\<lparr>sp_prod := P_idle, sp_tail := t + 1, ghost_in := ghost_in s @ [f]\<rparr>)"
  using assms
  by (auto simp: spsc_inv_def ring_inv_def prod_inv_def cons_inv_def place_def nth_append less_Suc_eq
      split: consumer.splits)

lemma inv_pop_publish:
  assumes "spsc_inv s" and "sp_cons s = C_read h f"
  shows "spsc_inv (s\<lparr>sp_cons := C_idle, sp_head := h + 1, ghost_out := ghost_out s @ [f]\<rparr>)"
    (is "spsc_inv ?s'")
proof -
  have n: "length (ghost_out s) < length (ghost_in s)" and f: "f = ghost_in s ! length (ghost_out s)"
    and o: "ghost_out s = take (length (ghost_out s)) (ghost_in s)"
    using assms by (auto simp: spsc_inv_def cons_inv_def ring_inv_def)
  have "take (Suc (length (ghost_out s))) (ghost_in s) = ghost_out s @ [f]"
    using n f o by (metis take_Suc_conv_app_nth)
  then have r: "ring_inv ?s'"
    using assms(1) n by (auto simp: spsc_inv_def ring_inv_def place_def cons_inv_def assms(2))
  have "prod_inv ?s'"
  proof (cases "sp_prod s")
    case (P_loaded_head g w)
    then obtain j where "j \<le> length (ghost_out s)" "w = of_nat j"
      using assms(1) by (auto simp: spsc_inv_def prod_inv_def)
    then have "j \<le> Suc (length (ghost_out s)) \<and> w = of_nat j" by simp
    then show ?thesis using P_loaded_head by (simp add: prod_inv_def) blast
  qed (use assms(1) in \<open>auto simp: spsc_inv_def prod_inv_def place_def\<close>)
  with r show ?thesis by (simp add: spsc_inv_def cons_inv_def)
qed

lemma inv_pop_data:
  assumes "spsc_inv s" and "sp_cons s = C_loaded_head h" and "length (ghost_out s) \<le> j"
    and "j \<le> length (ghost_in s)" and "h \<noteq> of_nat j"
  shows "spsc_inv (s\<lparr>sp_cons := C_data h\<rparr>)"
proof -
  have h: "h = of_nat (length (ghost_out s))" using assms(1,2) by (simp add: spsc_inv_def cons_inv_def)
  then have "j \<noteq> length (ghost_out s)" using assms(5) by blast
  then have "length (ghost_out s) < length (ghost_in s)" using assms(3,4) by simp
  then show ?thesis
    using assms(1) h by (simp add: spsc_inv_def cons_inv_def)
qed

lemma inv_pop_read:
  assumes "spsc_inv s" and "small s" and "sp_cons s = C_data h"
  shows "spsc_inv (s\<lparr>sp_cons := C_read h (sp_buf s ! sp_slot s h)\<rparr>)"
proof -
  have "length (ghost_out s) < 2 ^ 64" and h: "h = of_nat (length (ghost_out s))"
    using assms by (auto simp: spsc_inv_def cons_inv_def ring_inv_def small_def)
  then have "sp_slot s h = place s (length (ghost_out s))" by (simp add: sp_slot_place)
  then show ?thesis
    using assms(1,3) h by (simp add: spsc_inv_def cons_inv_def) (simp add: ring_inv_def)
qed

lemma inv_frame:
  "spsc_inv s \<Longrightarrow> j \<le> length (ghost_out s) \<Longrightarrow> spsc_inv (s\<lparr>sp_prod := P_loaded_head f (of_nat j)\<rparr>)"
  "spsc_inv s \<Longrightarrow> spsc_inv (s\<lparr>sp_prod := P_idle, sp_dropped := d\<rparr>)"
  "spsc_inv s \<Longrightarrow> spsc_inv (s\<lparr>sp_cons := C_loaded_head (sp_head s)\<rparr>)"
  "spsc_inv s \<Longrightarrow> spsc_inv (s\<lparr>sp_cons := C_idle\<rparr>)"
  by (auto simp: spsc_inv_def ring_inv_def prod_inv_def cons_inv_def place_def
      split: producer.splits consumer.splits)

lemma inv_push_room:
  assumes "spsc_inv s" and "small s" and "sp_prod s = P_loaded_head f h"
    and "\<not> sp_tail s - h \<ge> sp_capacity s"
  shows "spsc_inv (s\<lparr>sp_prod := P_room f (sp_tail s)\<rparr>)"
proof -
  obtain j where "j \<le> length (ghost_out s)" "h = of_nat j"
    using assms(1,3) by (auto simp: spsc_inv_def prod_inv_def)
  then have "length (ghost_in s) < length (ghost_out s) + unat (sp_capacity s)"
    using room_is_room [of s j] assms by (simp add: spsc_inv_def)
  then show ?thesis
    using assms(1)
    by (auto simp: spsc_inv_def ring_inv_def prod_inv_def cons_inv_def place_def split: consumer.splits)
qed

lemma inv_step:
  assumes "spsc_access mo s th a s'" and "spsc_inv s" and "small s'"
  shows "spsc_inv s'"
proof -
  have "small s" using assms(3) ghost_in_mono [OF assms(1)] by (simp add: small_def)
  with assms show ?thesis
    by (cases rule: spsc_access.cases)
       (simp_all add: inv_frame inv_push_room inv_push_write inv_push_publish inv_pop_data
         inv_pop_read inv_pop_publish)
qed

lemma inv_reachable: "reachable c s \<Longrightarrow> small s \<Longrightarrow> spsc_inv s"
proof (induction rule: reachable.induct)
  case (more s th a s')
  then show ?case
    using inv_step ghost_in_mono [OF more(2)] by (auto simp: small_def)
qed (simp add: inv_init)

lemma capacity_reachable: "reachable c s \<Longrightarrow> sp_capacity s = pl_capacity (new_Pipeline c)"
  by (induction rule: reachable.induct) (auto simp: spsc_init_def elim!: spsc_accessE)

section \<open>Properties\<close>

lemma rest_in_buffer:
  assumes "reachable c s" and "length (ghost_in s) < 2 ^ 64"
  shows "\<exists>rest. ghost_in s = ghost_out s @ rest \<and> length rest \<le> max 1 (unat c) \<and>
     (\<forall>i<length rest. sp_buf s ! ((length (ghost_out s) + i) mod max 1 (unat c)) = rest ! i)"
proof -
  have cap: "unat (sp_capacity s) = max 1 (unat c)"
    using capacity_reachable [OF assms(1)] capacity_fresh by simp
  have r: "ring_inv s"
    using inv_reachable [OF assms(1)] assms(2) by (simp add: small_def spsc_inv_def)
  let ?w = "drop (length (ghost_out s)) (ghost_in s)"
  have "ghost_in s = ghost_out s @ ?w"
    using r unfolding ring_inv_def by (metis append_take_drop_id)
  moreover have "length ?w \<le> max 1 (unat c)"
    using r cap unfolding ring_inv_def length_drop by linarith
  moreover have "\<forall>i<length ?w. sp_buf s ! ((length (ghost_out s) + i) mod max 1 (unat c)) = ?w ! i"
    using r cap by (auto simp: ring_inv_def place_def)
  ultimately show ?thesis by blast
qed

text \<open>C3: Two threads, any interleaving, any staleness of the indices they read: in every state
  reachable before 2^64 frames were accepted, the frames the consumer got are the first frames the
  producer published, in order, without loss, duplication or tearing; and what lies between is in
  the buffer, at most the capacity of it.\<close>

theorem spsc_fifo:
  assumes "reachable c s" and "length (ghost_in s) < 2 ^ 64"
  shows "\<exists>waiting. ghost_in s = ghost_out s @ waiting \<and> length waiting \<le> max 1 (unat c) \<and>
     (\<forall>i<length waiting. sp_buf s ! ((length (ghost_out s) + i) mod max 1 (unat c)) = waiting ! i)"
  using rest_in_buffer [OF assms] .

text \<open>The threads never touch the same slot at once: whenever the producer is about to write a
  slot, or has written it and not yet published, and the consumer is about to read one, the two
  slots differ and both lie in the buffer.\<close>

theorem spsc_no_slot_conflict:
  assumes "reachable c s" and "length (ghost_in s) < 2 ^ 64"
    and "sp_prod s = P_room f t \<or> sp_prod s = P_written f t" and "sp_cons s = C_data h"
  shows "sp_slot s t \<noteq> sp_slot s h \<and> sp_slot s t < length (sp_buf s) \<and> sp_slot s h < length (sp_buf s)"
proof -
  have i: "spsc_inv s" using inv_reachable [OF assms(1)] assms(2) by (simp add: small_def)
  then have r: "ring_inv s" by (simp add: spsc_inv_def)
  let ?n = "length (ghost_in s)" and ?m = "length (ghost_out s)"
  have t: "t = of_nat ?n" "?n < ?m + unat (sp_capacity s)" and h: "h = of_nat ?m" "?m < ?n"
    using i assms(3,4) by (auto simp: spsc_inv_def prod_inv_def cons_inv_def)
  have "sp_slot s t = place s ?n" "sp_slot s h = place s ?m"
    using t h assms(2) by (simp_all add: sp_slot_place)
  then show ?thesis
    using place_neq [OF h(2) t(2)] place_less [OF r] by simp
qed

text \<open>A state of a ring of two: one frame published, the producer about to write the next slot, the
  consumer about to read the first.\<close>

definition ring2 :: "bt_bus_frame list \<Rightarrow> u64 \<Rightarrow> producer \<Rightarrow> consumer \<Rightarrow> bt_bus_frame list \<Rightarrow> spsc" where
  "ring2 buf t p c gi =
     \<lparr>sp_buf = buf, sp_capacity = 2, sp_head = 0, sp_tail = t, sp_dropped = 0, sp_prod = p,
      sp_cons = c, ghost_in = gi, ghost_out = []\<rparr>"

lemma ring2_simps [simp]:
  "sp_prod (ring2 b t p c gi) = p" "sp_cons (ring2 b t p c gi) = c" "sp_tail (ring2 b t p c gi) = t"
  "sp_capacity (ring2 b t p c gi) = 2" "sp_head (ring2 b t p c gi) = 0" "sp_buf (ring2 b t p c gi) = b"
  "ghost_in (ring2 b t p c gi) = gi" "ghost_out (ring2 b t p c gi) = []"
  "(ring2 b t p c gi)\<lparr>sp_prod := p'\<rparr> = ring2 b t p' c gi"
  "(ring2 b t p c gi)\<lparr>sp_cons := c'\<rparr> = ring2 b t p c' gi"
  "(ring2 b t p c gi)\<lparr>sp_buf := b'\<rparr> = ring2 b' t p c gi"
  "(ring2 b t p c gi)\<lparr>sp_tail := t'\<rparr> = ring2 b t' p c gi"
  "(ring2 b t p c gi)\<lparr>ghost_in := gi'\<rparr> = ring2 b t p c gi'"
  by (simp_all add: ring2_def)

definition race_state :: spsc where
  "race_state = ring2 [qframe 1, zero_frame] 1 (P_room (qframe 2) 1) (C_data 0) [qframe 1]"

lemma race_state_reachable: "reachable 2 race_state"
proof -
  let ?z = "[zero_frame, zero_frame]" and ?b = "[qframe 1, zero_frame]"
  have two: "replicate 2 zero_frame = ?z" by (simp add: numeral_2_eq_2)
  have "spsc_init 2 = ring2 ?z 0 P_idle C_idle []"
    by (simp add: spsc_init_def ring2_def new_Pipeline_def word_gt_0 two)
  then have "reachable 2 (ring2 ?z 0 P_idle C_idle [])" using start [of 2] by simp
  then have "reachable 2 (ring2 ?z 0 (P_loaded_head (qframe 1) 0) C_idle [])"
    using more [OF _ push_load_head [of "ring2 ?z 0 P_idle C_idle []" 0]] by simp
  then have "reachable 2 (ring2 ?z 0 (P_room (qframe 1) 0) C_idle [])"
    using more [OF _ push_room [of "ring2 ?z 0 (P_loaded_head (qframe 1) 0) C_idle []"]] by simp
  then have "reachable 2 (ring2 ?b 0 (P_written (qframe 1) 0) C_idle [])"
    using more [OF _ push_write [of "ring2 ?z 0 (P_room (qframe 1) 0) C_idle []"]]
    by (simp add: sp_slot_def)
  then have "reachable 2 (ring2 ?b 1 P_idle C_idle [qframe 1])"
    using more [OF _ push_publish [of "ring2 ?b 0 (P_written (qframe 1) 0) C_idle []"]] by simp
  then have "reachable 2 (ring2 ?b 1 (P_loaded_head (qframe 2) 0) C_idle [qframe 1])"
    using more [OF _ push_load_head [of "ring2 ?b 1 P_idle C_idle [qframe 1]" 0]] by simp
  then have "reachable 2 (ring2 ?b 1 (P_room (qframe 2) 1) C_idle [qframe 1])"
    using more [OF _ push_room [of "ring2 ?b 1 (P_loaded_head (qframe 2) 0) C_idle [qframe 1]"]]
    by (simp add: word_le_nat_alt)
  then have "reachable 2 (ring2 ?b 1 (P_room (qframe 2) 1) (C_loaded_head 0) [qframe 1])"
    using more [OF _ pop_load_head [of "ring2 ?b 1 (P_room (qframe 2) 1) C_idle [qframe 1]"]] by simp
  then show ?thesis
    using more [OF _ pop_data [of "ring2 ?b 1 (P_room (qframe 2) 1) (C_loaded_head 0) [qframe 1]" 0 1]]
    by (simp add: race_state_def)
qed

theorem spsc_fifo_witness:
  "ghost_in race_state = ghost_out race_state @ [qframe 1] \<and> sp_buf race_state ! 0 = qframe 1"
  using spsc_fifo [OF race_state_reachable] by (auto simp: race_state_def)

theorem spsc_no_slot_conflict_witness:
  "sp_slot race_state 1 \<noteq> sp_slot race_state 0 \<and> sp_slot race_state 1 < length (sp_buf race_state) \<and>
   sp_slot race_state 0 < length (sp_buf race_state)"
  by (rule spsc_no_slot_conflict [OF race_state_reachable]) (simp_all add: race_state_def)

end
