(* ===== verification/DeviceInterface.thy ===== *)
theory DeviceInterface
  imports BusTypes
begin

text \<open>
  The hardware abstraction of \<^verbatim>\<open>hal/usb/usb_device.h\<close> as a contract. The steady clock is part of the
  environment: a call that reads it takes its readings as arguments. \<open>sound\<close> is what a constructed
  device keeps; a sound device never faults, fills at most the frames it is asked for, and reads
  nothing while it is closed.
\<close>

locale usb_device =
  fixes sound :: "'d \<Rightarrow> bool"
    and dev_open :: "u64 \<Rightarrow> 'd \<Rightarrow> bool \<times> 'd"
    and dev_close :: "'d \<Rightarrow> 'd"
    and is_open :: "'d \<Rightarrow> bool"
    and send_command :: "'d \<Rightarrow> bool \<times> 'd"
    and read_frames :: "u64 \<Rightarrow> u64 \<Rightarrow> 'd \<Rightarrow> nat \<Rightarrow> (bt_bus_frame list \<times> 'd) res"
  assumes open_law: "sound d \<Longrightarrow> sound (snd (dev_open now d)) \<and>
      (fst (dev_open now d) \<longrightarrow> is_open (snd (dev_open now d)))"
    and close_law: "sound d \<Longrightarrow> sound (dev_close d) \<and> \<not> is_open (dev_close d)"
    and command_law: "sound d \<Longrightarrow> sound (snd (send_command d)) \<and>
      is_open (snd (send_command d)) = is_open d \<and> (fst (send_command d) \<longleftrightarrow> is_open d)"
    and read_law: "sound d \<Longrightarrow> \<exists>fs d'. read_frames t t' d n = Inr (fs, d') \<and> length fs \<le> n \<and>
      sound d' \<and> is_open d' = is_open d \<and> (\<forall>f\<in>set fs. wf_frame f \<and> unat (f_dlc f) \<le> 64)"
    and read_closed: "sound d \<Longrightarrow> \<not> is_open d \<Longrightarrow> read_frames t t' d n = Inr ([], d)"

text \<open>Calls a client makes on a device. A run returns the batches of frames its reads deliver, one
  batch for each read, in order.\<close>

datatype dev_call = Open u64 | Close | Command | Read u64 u64 nat

fun dev_run ::
  "(u64 \<Rightarrow> 'd \<Rightarrow> bool \<times> 'd) \<Rightarrow> ('d \<Rightarrow> 'd) \<Rightarrow> ('d \<Rightarrow> bool \<times> 'd) \<Rightarrow>
   (u64 \<Rightarrow> u64 \<Rightarrow> 'd \<Rightarrow> nat \<Rightarrow> (bt_bus_frame list \<times> 'd) res) \<Rightarrow> dev_call list \<Rightarrow> 'd \<Rightarrow>
   (bt_bus_frame list list \<times> 'd) res" where
  "dev_run opn cls cmd rd [] d = Inr ([], d)"
| "dev_run opn cls cmd rd (Open t # cs) d = dev_run opn cls cmd rd cs (snd (opn t d))"
| "dev_run opn cls cmd rd (Close # cs) d = dev_run opn cls cmd rd cs (cls d)"
| "dev_run opn cls cmd rd (Command # cs) d = dev_run opn cls cmd rd cs (snd (cmd d))"
| "dev_run opn cls cmd rd (Read t t' n # cs) d =
     bindr (rd t t' d n) (\<lambda>(fs, d').
     bindr (dev_run opn cls cmd rd cs d') (\<lambda>(fss, d''). Inr (fs # fss, d'')))"

text \<open>The bounds of the reads, in the same order; a batch that keeps its bound.\<close>

fun asked :: "dev_call list \<Rightarrow> nat list" where
  "asked [] = []"
| "asked (Read t t' n # cs) = n # asked cs"
| "asked (_ # cs) = asked cs"

definition batch_ok :: "bt_bus_frame list \<Rightarrow> nat \<Rightarrow> bool" where
  "batch_ok fs n \<longleftrightarrow> length fs \<le> n \<and> list_all (\<lambda>f. wf_frame f \<and> unat (f_dlc f) \<le> 64) fs"

context usb_device
begin

text \<open>Whatever the client calls, the device does not fault, every read delivers at most the frames
  it was asked for, and every frame is well formed with a length code of at most 64.\<close>

lemma run_sound:
  "sound d \<Longrightarrow> \<exists>fss d'. dev_run dev_open dev_close send_command read_frames cs d = Inr (fss, d') \<and>
     sound d' \<and> list_all2 batch_ok fss (asked cs)"
proof (induction cs arbitrary: d)
  case (Cons c cs)
  show ?case
  proof (cases c)
    case (Open t)
    then show ?thesis using Cons.IH [of "snd (dev_open t d)"] open_law [OF Cons.prems] by simp
  next
    case Close
    then show ?thesis using Cons.IH [of "dev_close d"] close_law [OF Cons.prems] by simp
  next
    case Command
    then show ?thesis using Cons.IH [of "snd (send_command d)"] command_law [OF Cons.prems] by simp
  next
    case (Read t t' n)
    obtain fs d' where r: "read_frames t t' d n = Inr (fs, d')" "sound d'" "batch_ok fs n"
      using read_law [OF Cons.prems] unfolding batch_ok_def list_all_iff by blast
    obtain fss d'' where "dev_run dev_open dev_close send_command read_frames cs d' = Inr (fss, d'')"
      "sound d''" "list_all2 batch_ok fss (asked cs)"
      using Cons.IH [OF r(2)] by blast
    then show ?thesis using Read r by auto
  qed
qed simp

text \<open>A device that is closed and never opened again delivers nothing.\<close>

lemma closed_silent:
  "sound d \<Longrightarrow> \<not> is_open d \<Longrightarrow> \<forall>t. Open t \<notin> set cs \<Longrightarrow>
   \<exists>d'. dev_run dev_open dev_close send_command read_frames cs d = Inr (map (\<lambda>n. []) (asked cs), d')"
proof (induction cs arbitrary: d)
  case (Cons c cs)
  show ?case
  proof (cases c)
    case (Open t)
    then show ?thesis using Cons.prems(3) by auto
  next
    case Close
    then show ?thesis using Cons close_law [OF Cons.prems(1)] by simp
  next
    case Command
    then show ?thesis using Cons command_law [OF Cons.prems(1)] by simp
  next
    case (Read t t' n)
    obtain d' where "dev_run dev_open dev_close send_command read_frames cs d = Inr (map (\<lambda>n. []) (asked cs), d')"
      using Cons.IH [OF Cons.prems(1,2)] Cons.prems(3) by auto
    then show ?thesis using Read read_closed [OF Cons.prems(1,2)] by simp
  qed
qed simp

end

end
