(* ===== verification/UsbDevices.thy ===== *)
theory UsbDevices
  imports DeviceInterface BusFrame
begin

text \<open>
  The two devices behind the hardware abstraction: the null device
  (\<^verbatim>\<open>hal/usb/usb_device_null.cpp\<close>) and the traffic generator (\<^verbatim>\<open>hal/usb/usb_device_sim.cpp\<close>), which
  turns elapsed clock time into due frames and fills them from a xorshift generator.
\<close>

section \<open>The null device\<close>

record NullUsbDevice =
  null_open_flag :: bool
  null_cmd_count :: u64

definition new_NullUsbDevice :: NullUsbDevice where
  "new_NullUsbDevice = \<lparr>null_open_flag = False, null_cmd_count = 0\<rparr>"

definition null_open :: "u64 \<Rightarrow> NullUsbDevice \<Rightarrow> bool \<times> NullUsbDevice" where
  "null_open now d = (True, d\<lparr>null_open_flag := True\<rparr>)"

definition null_close :: "NullUsbDevice \<Rightarrow> NullUsbDevice" where
  "null_close d = d\<lparr>null_open_flag := False\<rparr>"

definition null_is_open :: "NullUsbDevice \<Rightarrow> bool" where
  "null_is_open d = null_open_flag d"

definition null_name :: string where "null_name = ''null://loopback''"

definition null_send_command :: "NullUsbDevice \<Rightarrow> bool \<times> NullUsbDevice" where
  "null_send_command d =
     (if \<not> null_open_flag d then (False, d)
      else (True, d\<lparr>null_cmd_count := null_cmd_count d + 1\<rparr>))"

definition null_read_frames ::
  "u64 \<Rightarrow> u64 \<Rightarrow> NullUsbDevice \<Rightarrow> nat \<Rightarrow> (bt_bus_frame list \<times> NullUsbDevice) res" where
  "null_read_frames t t' d max_frames = Inr ([], d)"

definition null_error_count :: "NullUsbDevice \<Rightarrow> u64" where "null_error_count d = 0"

interpretation null: usb_device "\<lambda>d. True" null_open null_close null_is_open null_send_command
  null_read_frames
  by unfold_locales
     (simp_all add: null_open_def null_close_def null_is_open_def null_send_command_def
       null_read_frames_def)

section \<open>The traffic generator\<close>

record SimConfig =
  sc_rate :: u32
  sc_channel_mask :: u32
  sc_bus_type :: bt_bus_type
  sc_dlc :: u8
  sc_id_base :: u32
  sc_extended :: bool
  sc_fd :: bool
  sc_seed :: u64

definition default_SimConfig :: SimConfig where
  "default_SimConfig =
     \<lparr>sc_rate = 50000, sc_channel_mask = 0x0F, sc_bus_type = BT_BUS_CANFD, sc_dlc = 8,
      sc_id_base = 0x100, sc_extended = False, sc_fd = True, sc_seed = 0x9E3779B97F4A7C15\<rparr>"

record SimUsbDevice =
  sim_cfg :: SimConfig
  sim_open_flag :: bool
  sim_generated :: u64
  sim_opened_at_ns :: u64
  sim_prng_state :: u64
  sim_id_offset :: u32

definition new_SimUsbDevice :: "SimConfig \<Rightarrow> SimUsbDevice" where
  "new_SimUsbDevice cfg =
     (let cfg = (if sc_rate cfg = 0 then cfg\<lparr>sc_rate := 1\<rparr> else cfg);
          cfg = (if unat (sc_dlc cfg) > BT_BUS_MAX_PAYLOAD
                 then cfg\<lparr>sc_dlc := of_nat BT_BUS_MAX_PAYLOAD\<rparr> else cfg);
          cfg = (if sc_channel_mask cfg = 0 then cfg\<lparr>sc_channel_mask := 1\<rparr> else cfg)
      in \<lparr>sim_cfg = cfg, sim_open_flag = False, sim_generated = 0, sim_opened_at_ns = 0,
          sim_prng_state = (if sc_seed cfg \<noteq> 0 then sc_seed cfg else 1), sim_id_offset = 0\<rparr>)"

definition sim_open :: "u64 \<Rightarrow> SimUsbDevice \<Rightarrow> bool \<times> SimUsbDevice" where
  "sim_open now d =
     (True, d\<lparr>sim_opened_at_ns := now, sim_generated := 0, sim_id_offset := 0,
              sim_open_flag := True\<rparr>)"

definition sim_close :: "SimUsbDevice \<Rightarrow> SimUsbDevice" where
  "sim_close d = d\<lparr>sim_open_flag := False\<rparr>"

definition sim_is_open :: "SimUsbDevice \<Rightarrow> bool" where
  "sim_is_open d = sim_open_flag d"

definition sim_name :: string where "sim_name = ''sim://generator''"

definition sim_send_command :: "SimUsbDevice \<Rightarrow> bool \<times> SimUsbDevice" where
  "sim_send_command d = (sim_is_open d, d)"

definition sim_error_count :: "SimUsbDevice \<Rightarrow> u64" where "sim_error_count d = 0"

text \<open>Frames due after \<open>elapsed\<close> nanoseconds, in 64-bit arithmetic.\<close>

definition sim_due :: "u32 \<Rightarrow> u64 \<Rightarrow> u64" where
  "sim_due rate elapsed_ns =
     (elapsed_ns div 1000000000) * ucast rate
     + ((elapsed_ns mod 1000000000) * ucast rate) div 1000000000"

definition enabled_channels :: "u32 \<Rightarrow> nat list" where
  "enabled_channels msk = filter (\<lambda>i. msk AND push_bit i 1 \<noteq> 0) [0..<BT_BUS_MAX_CHANNELS]"

definition xorshift64 :: "u64 \<Rightarrow> u64" where
  "xorshift64 s =
     (let s = s XOR push_bit 13 s; s = s XOR drop_bit 7 s in s XOR push_bit 17 s)"

text \<open>The payload loop: \<open>n\<close> bytes left, the next goes to place \<open>b\<close>.\<close>

fun sim_fill :: "nat \<Rightarrow> nat \<Rightarrow> u64 \<Rightarrow> byte list \<Rightarrow> (u64 \<times> byte list) res" where
  "sim_fill 0 b prng data = Inr (prng, data)"
| "sim_fill (Suc n) b prng data =
     (let prng = xorshift64 prng in
      bindr (store data b (ucast (drop_bit 56 prng))) (\<lambda>data.
      sim_fill n (Suc b) prng data))"

definition sim_frame ::
  "SimConfig \<Rightarrow> u64 \<Rightarrow> nat list \<Rightarrow> u64 \<Rightarrow> u32 \<Rightarrow> u64 \<Rightarrow> (bt_bus_frame \<times> u64) res" where
  "sim_frame cfg ts_ns channels k id_offset prng =
     (if length channels = 0 then Inl DivByZero
      else bindr (sim_fill (unat (sc_dlc cfg)) 0 prng (f_data zero_frame)) (\<lambda>(prng, data).
        Inr (zero_frame
          \<lparr>f_timestamp := ts_ns div 100, f_type := sc_bus_type cfg,
           f_channel := of_nat (channels ! (unat (k mod of_nat (length channels)))),
           f_dir := BT_DIR_RX, f_id := sc_id_base cfg + id_offset,
           f_extended := (if sc_extended cfg then 1 else 0), f_fd := (if sc_fd cfg then 1 else 0),
           f_dlc := sc_dlc cfg, f_data := data, f_status := BT_FRAME_OK\<rparr>, prng)))"

text \<open>The frame loop: \<open>n\<close> frames left, \<open>k\<close> is \<^verbatim>\<open>already + i\<close>.\<close>

fun sim_loop ::
  "nat \<Rightarrow> SimConfig \<Rightarrow> u64 \<Rightarrow> nat list \<Rightarrow> u64 \<Rightarrow> u32 \<Rightarrow> u64 \<Rightarrow> (bt_bus_frame list \<times> u32 \<times> u64) res" where
  "sim_loop 0 cfg ts_ns channels k id_offset prng = Inr ([], id_offset, prng)"
| "sim_loop (Suc n) cfg ts_ns channels k id_offset prng =
     bindr (sim_frame cfg ts_ns channels k id_offset prng) (\<lambda>(f, prng).
     bindr (sim_loop n cfg ts_ns channels (k + 1) (id_offset + 1) prng) (\<lambda>(fs, id_offset, prng).
     Inr (f # fs, id_offset, prng)))"

text \<open>\<open>t1\<close> and \<open>t2\<close> are the two readings of the clock; \<open>out\<close> is not null.\<close>

definition sim_read_frames ::
  "u64 \<Rightarrow> u64 \<Rightarrow> SimUsbDevice \<Rightarrow> nat \<Rightarrow> (bt_bus_frame list \<times> SimUsbDevice) res" where
  "sim_read_frames t1 t2 d max_frames =
     (if \<not> sim_is_open d \<or> max_frames = 0 then Inr ([], d)
      else
        let elapsed_ns = t1 - sim_opened_at_ns d;
            due = sim_due (sc_rate (sim_cfg d)) elapsed_ns;
            already = sim_generated d
        in if due \<le> already then Inr ([], d)
        else
          let count = (if unat (due - already) > max_frames then max_frames else unat (due - already))
          in bindr (sim_loop count (sim_cfg d) t2 (enabled_channels (sc_channel_mask (sim_cfg d)))
                      already (sim_id_offset d) (sim_prng_state d)) (\<lambda>(fs, id_offset, prng).
             Inr (fs, d\<lparr>sim_id_offset := id_offset, sim_prng_state := prng,
                       sim_generated := already + of_nat count\<rparr>)))"

section \<open>Lemmas on the generator\<close>

lemma xor_zero: "(x :: u64) XOR y = 0 \<Longrightarrow> x = y"
proof -
  assume "x XOR y = 0"
  then have "x XOR (x XOR y) = x" by simp
  then show "x = y" by (simp flip: xor.assoc)
qed

text \<open>One xor-shift step sends only zero to zero.\<close>

lemma xor_push_zero:
  fixes x :: u64
  assumes "x XOR push_bit n x = 0" and "0 < n"
  shows "x = 0"
proof -
  have e: "x = push_bit n x" using assms(1) by (rule xor_zero)
  have "\<not> bit x i" for i
  proof (induction i rule: less_induct)
    case (less i)
    have "bit x i \<longleftrightarrow> n \<le> i \<and> i < 64 \<and> bit x (i - n)"
      by (subst e) (auto simp: bit_push_bit_iff possible_bit_def)
    then show ?case using less [of "i - n"] assms(2) by auto
  qed
  then show ?thesis by (simp add: bit_eq_iff)
qed

lemma xor_drop_zero:
  fixes x :: u64
  assumes "x XOR drop_bit n x = 0" and "0 < n"
  shows "x = 0"
proof -
  have e: "x = drop_bit n x" using assms(1) by (rule xor_zero)
  have step: "bit x i \<longleftrightarrow> bit x (n + i)" for i
    by (subst e) (simp add: bit_drop_bit_eq)
  have "\<not> bit x i" if "64 - i \<le> k" for i k
    using that
  proof (induction k arbitrary: i)
    case 0
    then show ?case using bit_imp_le_length [of x i] by auto
  next
    case (Suc k)
    then show ?case using step [of i] Suc.IH [of "n + i"] assms(2) by auto
  qed
  then have "\<not> bit x i" for i by blast
  then show ?thesis by (simp add: bit_eq_iff)
qed

lemma xorshift64_nonzero: "s \<noteq> 0 \<Longrightarrow> xorshift64 s \<noteq> 0"
  unfolding xorshift64_def Let_def
  using xor_push_zero [of s 13] xor_drop_zero [of "s XOR push_bit 13 s" 7]
    xor_push_zero [of "(s XOR push_bit 13 s) XOR drop_bit 7 (s XOR push_bit 13 s)" 17]
  by auto

lemma sim_fill_ok:
  "b + n \<le> length data \<Longrightarrow> p \<noteq> 0 \<Longrightarrow>
   \<exists>p' data'. sim_fill n b p data = Inr (p', data') \<and> length data' = length data \<and> p' \<noteq> 0"
proof (induction n arbitrary: b p data)
  case (Suc n)
  then show ?case
    using Suc.IH [of "Suc b" "data[b := ucast (drop_bit 56 (xorshift64 p))]" "xorshift64 p"]
      xorshift64_nonzero [of p]
    by (simp add: Let_def store_def)
qed simp

text \<open>What the \<open>i\<close>-th frame of a batch says, apart from its payload.\<close>

definition sim_says :: "SimConfig \<Rightarrow> u64 \<Rightarrow> nat list \<Rightarrow> u64 \<Rightarrow> u32 \<Rightarrow> bt_bus_frame \<Rightarrow> bool" where
  "sim_says cfg ts_ns channels k id_offset f \<longleftrightarrow>
     f_timestamp f = ts_ns div 100 \<and> f_type f = sc_bus_type cfg \<and>
     f_channel f = of_nat (channels ! (unat k mod length channels)) \<and>
     f_dir f = BT_DIR_RX \<and> f_id f = sc_id_base cfg + id_offset \<and> f_dlc f = sc_dlc cfg \<and>
     f_extended f = (if sc_extended cfg then 1 else 0) \<and> f_fd f = (if sc_fd cfg then 1 else 0) \<and>
     f_status f = BT_FRAME_OK \<and> wf_frame f"

lemma length_enabled: "length (enabled_channels m) \<le> 8"
  using length_filter_le [of "\<lambda>i. m AND push_bit i 1 \<noteq> 0" "[0..<BT_BUS_MAX_CHANNELS]"]
  by (simp add: enabled_channels_def BT_BUS_MAX_CHANNELS_def)

lemma sim_frame_ok:
  assumes "channels \<noteq> []" and "length channels \<le> 8" and "unat (sc_dlc cfg) \<le> 64" and "p \<noteq> 0"
  shows "\<exists>f p'. sim_frame cfg ts_ns channels k id_offset p = Inr (f, p') \<and> p' \<noteq> 0 \<and>
    sim_says cfg ts_ns channels k id_offset f"
proof -
  have z: "length (f_data zero_frame) = 64" by (simp add: zero_frame_def BT_BUS_MAX_PAYLOAD_def)
  obtain p' d where f: "sim_fill (unat (sc_dlc cfg)) 0 p (f_data zero_frame) = Inr (p', d)"
    "length d = 64" "p' \<noteq> 0"
    using sim_fill_ok [of 0 "unat (sc_dlc cfg)" "f_data zero_frame" p] assms z by auto
  have "unat (k mod of_nat (length channels)) = unat k mod length channels"
    using assms(2) by (simp add: unat_mod unat_of_nat_id del: unat_of_nat)
  then show ?thesis
    using assms(1) f by (simp add: sim_frame_def sim_says_def wf_frame_def BT_BUS_MAX_PAYLOAD_def)
qed

lemma sim_loop_ok:
  "channels \<noteq> [] \<Longrightarrow> length channels \<le> 8 \<Longrightarrow> unat (sc_dlc cfg) \<le> 64 \<Longrightarrow> p \<noteq> 0 \<Longrightarrow>
   \<exists>fs p'. sim_loop n cfg ts_ns channels k id_offset p = Inr (fs, id_offset + of_nat n, p') \<and> p' \<noteq> 0 \<and>
     length fs = n \<and>
     (\<forall>i<n. sim_says cfg ts_ns channels (k + of_nat i) (id_offset + of_nat i) (fs ! i))"
proof (induction n arbitrary: k id_offset p)
  case (Suc n)
  obtain f p1 where f: "sim_frame cfg ts_ns channels k id_offset p = Inr (f, p1)" "p1 \<noteq> 0"
    "sim_says cfg ts_ns channels k id_offset f"
    using sim_frame_ok [OF Suc.prems] by blast
  obtain fs p2 where r:
    "sim_loop n cfg ts_ns channels (k + 1) (id_offset + 1) p1 = Inr (fs, id_offset + 1 + of_nat n, p2)"
    "p2 \<noteq> 0" "length fs = n"
    "\<forall>i<n. sim_says cfg ts_ns channels (k + 1 + of_nat i) (id_offset + 1 + of_nat i) (fs ! i)"
    using Suc.IH [OF Suc.prems(1-3) f(2), of "k + 1" "id_offset + 1"] by blast
  have "sim_says cfg ts_ns channels (k + of_nat i) (id_offset + of_nat i) ((f # fs) ! i)"
    if "i < Suc n" for i
    using that f(3) r(4) by (cases i) (simp_all add: add.assoc)
  then show ?case
    using f r by (simp add: add.assoc)
qed simp

lemma sim_due_exact:
  assumes "unat e * unat rate div 1000000000 < 2 ^ 64"
  shows "unat (sim_due rate e) = unat e * unat rate div 1000000000"
proof -
  define q r R where "q = unat e div 1000000000" and "r = unat e mod 1000000000" and "R = unat rate"
  have "unat e * R = r * R + q * R * 1000000000"
    using div_mult_mod_eq [of "unat e" 1000000000] by (simp add: q_def r_def algebra_simps flip: distrib_left)
  then have total: "unat e * R div 1000000000 = q * R + r * R div 1000000000" by simp
  have R: "R < 4294967296" and r: "r < 1000000000"
    using unat_u32_less [of rate] by (simp_all add: R_def r_def)
  have "r * R \<le> 1000000000 * 4294967296" using R r by (intro mult_mono) auto
  moreover have "unat (ucast rate :: u64) = R"
    using R by (simp add: R_def unsigned_ucast_eq take_bit_nat_eq_self_iff)
  moreover have "q * R + r * R div 1000000000 < 2 ^ 64"
    using assms total by (simp add: R_def)
  moreover have "q < 18446744073709551616" "r < 18446744073709551616"
    using unat_u64_less [of e] r div_le_dividend [of "unat e" 1000000000] by (simp_all add: q_def)
  ultimately show ?thesis
    using total by (simp add: sim_due_def unat_word_ariths unat_div unat_mod R_def [symmetric] q_def [symmetric] r_def [symmetric])
qed

definition sim_sound :: "SimUsbDevice \<Rightarrow> bool" where
  "sim_sound d \<longleftrightarrow> unat (sc_dlc (sim_cfg d)) \<le> 64 \<and>
     enabled_channels (sc_channel_mask (sim_cfg d)) \<noteq> [] \<and> sim_prng_state d \<noteq> 0"

text \<open>The number of frames a read at clock time \<open>t1\<close> delivers.\<close>

definition sim_count :: "SimUsbDevice \<Rightarrow> u64 \<Rightarrow> nat \<Rightarrow> nat" where
  "sim_count d t1 n =
     (let due = sim_due (sc_rate (sim_cfg d)) (t1 - sim_opened_at_ns d)
      in if sim_is_open d \<and> due > sim_generated d then min n (unat (due - sim_generated d)) else 0)"

lemma sim_read_spec:
  fixes d t1 n
  defines "count \<equiv> sim_count d t1 n"
  assumes "sim_sound d"
  shows "\<exists>fs d'. sim_read_frames t1 t2 d n = Inr (fs, d') \<and> length fs = count \<and>
    sim_sound d' \<and> sim_is_open d' = sim_is_open d \<and> sim_cfg d' = sim_cfg d \<and>
    sim_opened_at_ns d' = sim_opened_at_ns d \<and>
    sim_generated d' = sim_generated d + of_nat count \<and>
    sim_id_offset d' = sim_id_offset d + of_nat count \<and>
    (\<forall>i<count. sim_says (sim_cfg d) t2 (enabled_channels (sc_channel_mask (sim_cfg d)))
       (sim_generated d + of_nat i) (sim_id_offset d + of_nat i) (fs ! i))"
proof (cases "\<not> sim_is_open d \<or> n = 0 \<or>
    sim_due (sc_rate (sim_cfg d)) (t1 - sim_opened_at_ns d) \<le> sim_generated d")
  case True
  then have "count = 0" by (auto simp: count_def sim_count_def Let_def not_less)
  then show ?thesis
    using True assms(2) by (auto simp: sim_read_frames_def Let_def)
next
  case False
  have c: "count = (if unat (sim_due (sc_rate (sim_cfg d)) (t1 - sim_opened_at_ns d) - sim_generated d) > n
      then n else unat (sim_due (sc_rate (sim_cfg d)) (t1 - sim_opened_at_ns d) - sim_generated d))"
    using False by (auto simp: count_def sim_count_def Let_def min_def)
  have e: "enabled_channels (sc_channel_mask (sim_cfg d)) \<noteq> []" and dlc: "unat (sc_dlc (sim_cfg d)) \<le> 64"
    and p: "sim_prng_state d \<noteq> 0" using assms(2) by (auto simp: sim_sound_def)
  obtain fs p where l: "sim_loop count (sim_cfg d) t2 (enabled_channels (sc_channel_mask (sim_cfg d)))
      (sim_generated d) (sim_id_offset d) (sim_prng_state d) = Inr (fs, sim_id_offset d + of_nat count, p)"
    "p \<noteq> 0" "length fs = count"
    "\<forall>i<count. sim_says (sim_cfg d) t2 (enabled_channels (sc_channel_mask (sim_cfg d)))
       (sim_generated d + of_nat i) (sim_id_offset d + of_nat i) (fs ! i)"
    using sim_loop_ok [OF e length_enabled dlc p, of count t2 "sim_generated d" "sim_id_offset d"] by blast
  have "sim_read_frames t1 t2 d n = Inr (fs, d\<lparr>sim_id_offset := sim_id_offset d + of_nat count,
      sim_prng_state := p, sim_generated := sim_generated d + of_nat count\<rparr>)"
  proof -
    have nd: "(\<not> sim_is_open d \<or> n = 0) = False"
      "(sim_due (sc_rate (sim_cfg d)) (t1 - sim_opened_at_ns d) \<le> sim_generated d) = False"
      using False by blast+
    show ?thesis
      by (simp only: sim_read_frames_def Let_def nd if_False c [symmetric] l(1) bindr.simps prod.case)
  qed
  then show ?thesis
    using l assms(2) by (simp add: sim_sound_def sim_is_open_def)
qed

lemma sim_says_wf: "sim_sound d \<Longrightarrow> sim_says (sim_cfg d) ts cs k i f \<Longrightarrow> wf_frame f \<and> unat (f_dlc f) \<le> 64"
  by (simp add: sim_says_def sim_sound_def)

interpretation sim: usb_device sim_sound sim_open sim_close sim_is_open sim_send_command sim_read_frames
proof unfold_locales
  fix d t t' n
  assume d: "sim_sound d"
  obtain fs d' where r: "sim_read_frames t t' d n = Inr (fs, d')" "sim_sound d'" "sim_is_open d' = sim_is_open d"
    "length fs \<le> n"
    "\<forall>i<length fs. sim_says (sim_cfg d) t' (enabled_channels (sc_channel_mask (sim_cfg d)))
       (sim_generated d + of_nat i) (sim_id_offset d + of_nat i) (fs ! i)"
    using sim_read_spec [OF d, where ?t1.0 = t and n = n and ?t2.0 = t'] by (auto simp: sim_count_def Let_def split: if_splits)
  have "\<forall>f\<in>set fs. wf_frame f \<and> unat (f_dlc f) \<le> 64"
    using r(5) sim_says_wf [OF d] by (metis in_set_conv_nth)
  then show "\<exists>fs d'. sim_read_frames t t' d n = Inr (fs, d') \<and> length fs \<le> n \<and> sim_sound d' \<and>
      sim_is_open d' = sim_is_open d \<and> (\<forall>f\<in>set fs. wf_frame f \<and> unat (f_dlc f) \<le> 64)" using r(1-4) by blast
qed (auto simp: sim_sound_def sim_open_def sim_close_def sim_is_open_def sim_send_command_def
      sim_read_frames_def)

lemma new_sim_sound:
  "enabled_channels (sc_channel_mask cfg) \<noteq> [] \<Longrightarrow> sim_sound (new_SimUsbDevice cfg)"
proof -
  assume e: "enabled_channels (sc_channel_mask cfg) \<noteq> []"
  then have "sc_channel_mask cfg \<noteq> 0" by (auto simp: enabled_channels_def)
  with e show ?thesis
    by (simp add: sim_sound_def new_SimUsbDevice_def Let_def BT_BUS_MAX_PAYLOAD_def)
qed

lemma sim_read_no_channel:
  assumes "sim_is_open d" and "enabled_channels (sc_channel_mask (sim_cfg d)) = []"
    and "sim_generated d < sim_due (sc_rate (sim_cfg d)) (t1 - sim_opened_at_ns d)" and "0 < n"
  shows "sim_read_frames t1 t2 d n = Inl DivByZero"
proof -
  let ?left = "sim_due (sc_rate (sim_cfg d)) (t1 - sim_opened_at_ns d) - sim_generated d"
  have nd: "(\<not> sim_is_open d \<or> n = 0) = False"
    "(sim_due (sc_rate (sim_cfg d)) (t1 - sim_opened_at_ns d) \<le> sim_generated d) = False"
    using assms by auto
  have "unat ?left \<noteq> 0" using assms(3) by (auto simp: unat_eq_zero)
  then obtain c where c: "(if unat ?left > n then n else unat ?left) = Suc c"
    using assms(4) by (metis gr0_conv_Suc not_gr_zero)
  show ?thesis
    by (simp only: sim_read_frames_def Let_def nd if_False c sim_loop.simps sim_frame_def assms(2)
        list.size if_True bindr.simps simp_thms)
qed

section \<open>Properties\<close>

text \<open>C20: Both devices honour the contract of the interface. Whatever sequence of calls a client
  makes (opening, closing, commanding, reading, at any clock readings), neither the null device nor
  a generator with at least one of its eight channels enabled ever faults; the null device delivers
  nothing on any read; each single read of the generator delivers at most the number of frames that
  read asked for, every one of them well formed with a length code of at most 64, and so the run
  delivers at most the sum of what its reads asked for.\<close>

theorem devices_honour_contract:
  assumes "enabled_channels (sc_channel_mask cfg) \<noteq> []"
  shows "(\<exists>d. dev_run null_open null_close null_send_command null_read_frames cs new_NullUsbDevice
        = Inr (map (\<lambda>n. []) (asked cs), d)) \<and>
    (\<exists>fss d. dev_run sim_open sim_close sim_send_command sim_read_frames cs (new_SimUsbDevice cfg)
        = Inr (fss, d) \<and>
        list_all2 (\<lambda>fs n. length fs \<le> n \<and> list_all (\<lambda>f. wf_frame f \<and> unat (f_dlc f) \<le> 64) fs) fss (asked cs) \<and>
        length (concat fss) \<le> sum_list (asked cs))"
proof
  have "\<exists>d'. dev_run null_open null_close null_send_command null_read_frames cs d
      = Inr (map (\<lambda>n. []) (asked cs), d')" for d
  proof (induction cs arbitrary: d rule: asked.induct)
    case (2 t t' n cs)
    obtain d' where "dev_run null_open null_close null_send_command null_read_frames cs d
      = Inr (map (\<lambda>n. []) (asked cs), d')" using "2.IH" by blast
    moreover have "null_read_frames t t' d n = Inr ([], d)" by (simp add: null_read_frames_def)
    ultimately show ?case by simp
  qed simp_all
  then show "\<exists>d. dev_run null_open null_close null_send_command null_read_frames cs new_NullUsbDevice
        = Inr (map (\<lambda>n. []) (asked cs), d)" .
  obtain fss d where r: "dev_run sim_open sim_close sim_send_command sim_read_frames cs (new_SimUsbDevice cfg)
      = Inr (fss, d)" "list_all2 batch_ok fss (asked cs)"
    using sim.run_sound [OF new_sim_sound [OF assms], of cs] by blast
  moreover have "length (concat fss) \<le> sum_list (asked cs)"
    using r(2) by (induction rule: list_all2_induct) (simp_all add: batch_ok_def)
  ultimately show "\<exists>fss d. dev_run sim_open sim_close sim_send_command sim_read_frames cs (new_SimUsbDevice cfg)
        = Inr (fss, d) \<and>
        list_all2 (\<lambda>fs n. length fs \<le> n \<and> list_all (\<lambda>f. wf_frame f \<and> unat (f_dlc f) \<le> 64) fs) fss (asked cs) \<and>
        length (concat fss) \<le> sum_list (asked cs)"
    unfolding batch_ok_def [abs_def] by blast
qed

text \<open>The second of three reads has a smaller bound than the first.\<close>

theorem devices_honour_contract_witness:
  "(\<exists>d. dev_run null_open null_close null_send_command null_read_frames [Open 0, Command, Read 5 6 3]
        new_NullUsbDevice = Inr ([[]], d)) \<and>
    (\<exists>b1 b2 b3 d. dev_run sim_open sim_close sim_send_command sim_read_frames
        [Open 0, Read 5000000 6000000 16, Read 7000000 7000000 4, Close, Read 9000000 9000000 8]
        (new_SimUsbDevice default_SimConfig)
        = Inr ([b1, b2, b3], d) \<and> length b1 \<le> 16 \<and> length b2 \<le> 4 \<and> length b3 \<le> 8)"
proof -
  have "enabled_channels 0x0F = [0, 1, 2, 3]" by code_simp
  then have e: "enabled_channels (sc_channel_mask default_SimConfig) \<noteq> []"
    by (simp add: default_SimConfig_def)
  show ?thesis
    using devices_honour_contract [OF e, of "[Open 0, Command, Read 5 6 3]"]
      devices_honour_contract [OF e, of
        "[Open 0, Read 5000000 6000000 16, Read 7000000 7000000 4, Close, Read 9000000 9000000 8]"]
    by (auto simp: list_all2_Cons2 simp del: dev_run.simps)
qed

text \<open>C19: The generator keeps its rate exactly. Opened at \<open>t0\<close>, a read at clock time \<open>t1\<close> brings
  the number of frames delivered since up to the whole part of elapsed time times rate, or as close
  as the caller's bound allows, as long as that number fits in 64 bits; the \<open>i\<close>-th frame of the
  batch carries the next message number and the channel that is its turn among the enabled ones.\<close>

theorem sim_rate_exact:
  assumes "sim_sound d" and "sim_is_open d"
    and "unat (t1 - sim_opened_at_ns d) * unat (sc_rate (sim_cfg d)) div 1000000000 < 2 ^ 64"
  shows "\<exists>fs d'. sim_read_frames t1 t2 d n = Inr (fs, d') \<and>
    length fs = min n (unat (t1 - sim_opened_at_ns d) * unat (sc_rate (sim_cfg d)) div 1000000000
                       - unat (sim_generated d)) \<and>
    sim_generated d' = sim_generated d + of_nat (length fs) \<and>
    (\<forall>i<length fs.
       f_id (fs ! i) = sc_id_base (sim_cfg d) + sim_id_offset d + of_nat i \<and>
       f_channel (fs ! i) =
         of_nat (enabled_channels (sc_channel_mask (sim_cfg d)) !
           (unat (sim_generated d + of_nat i) mod length (enabled_channels (sc_channel_mask (sim_cfg d))))) \<and>
       f_timestamp (fs ! i) = t2 div 100)"
proof -
  let ?due = "sim_due (sc_rate (sim_cfg d)) (t1 - sim_opened_at_ns d)"
  have due: "unat ?due = unat (t1 - sim_opened_at_ns d) * unat (sc_rate (sim_cfg d)) div 1000000000"
    by (rule sim_due_exact [OF assms(3)])
  have c: "sim_count d t1 n = min n (unat ?due - unat (sim_generated d))"
    using assms(2) by (auto simp: sim_count_def Let_def unat_sub word_less_nat_alt less_imp_le word_le_nat_alt)
  show ?thesis
    using sim_read_spec [OF assms(1), where ?t1.0 = t1 and n = n and ?t2.0 = t2] c due
    by (auto simp: sim_says_def add.assoc)
qed

text \<open>A mask without any of the eight existing channels is accepted by the constructor (only the
  zero mask is replaced), and then the first read with a frame due divides by zero.\<close>

theorem sim_mask_divides_by_zero:
  assumes "sc_channel_mask cfg \<noteq> 0" and "enabled_channels (sc_channel_mask cfg) = []"
    and "sim_due (if sc_rate cfg = 0 then 1 else sc_rate cfg) (t1 - t0) \<noteq> 0" and "0 < n"
  shows "sim_read_frames t1 t2 (snd (sim_open t0 (new_SimUsbDevice cfg))) n = Inl DivByZero"
proof (rule sim_read_no_channel)
  let ?d = "snd (sim_open t0 (new_SimUsbDevice cfg))"
  show "sim_is_open ?d" "enabled_channels (sc_channel_mask (sim_cfg ?d)) = []"
    using assms(1,2) by (simp_all add: sim_open_def new_SimUsbDevice_def sim_is_open_def Let_def)
  have "sim_opened_at_ns ?d = t0" "sim_generated ?d = 0"
    "sc_rate (sim_cfg ?d) = (if sc_rate cfg = 0 then 1 else sc_rate cfg)"
    by (simp_all add: sim_open_def new_SimUsbDevice_def Let_def)
  then show "sim_generated ?d < sim_due (sc_rate (sim_cfg ?d)) (t1 - sim_opened_at_ns ?d)"
    using assms(3) by (simp only: word_gt_0)
qed (rule assms(4))

text \<open>Only channel nine is enabled.\<close>

definition no_channel_config :: SimConfig where
  "no_channel_config = default_SimConfig\<lparr>sc_channel_mask := 0x100\<rparr>"

theorem sim_mask_divides_by_zero_witness:
  "sim_read_frames 1000000 1000000 (snd (sim_open 0 (new_SimUsbDevice no_channel_config))) 256
     = Inl DivByZero"
proof (rule sim_mask_divides_by_zero)
  have "enabled_channels 0x100 = []" by code_simp
  then show "enabled_channels (sc_channel_mask no_channel_config) = []"
    by (simp add: no_channel_config_def)
qed (simp_all add: no_channel_config_def default_SimConfig_def sim_due_def)

theorem sim_rate_exact_witness:
  "\<exists>fs d'. sim_read_frames 1000000 1000500 (snd (sim_open 0 (new_SimUsbDevice default_SimConfig))) 16
      = Inr (fs, d') \<and> length fs = 16"
proof -
  let ?d = "snd (sim_open 0 (new_SimUsbDevice default_SimConfig))"
  have "enabled_channels 0x0F = [0, 1, 2, 3]" by code_simp
  then have e: "enabled_channels (sc_channel_mask default_SimConfig) \<noteq> []"
    by (simp add: default_SimConfig_def)
  have s: "sim_sound ?d"
    using sim.open_law [OF new_sim_sound [OF e], of 0] by simp
  have d: "sim_is_open ?d" "sim_opened_at_ns ?d = 0" "sim_generated ?d = 0" "sc_rate (sim_cfg ?d) = 50000"
    by (simp_all add: sim_open_def new_SimUsbDevice_def sim_is_open_def Let_def default_SimConfig_def)
  show ?thesis
    using sim_rate_exact [OF s d(1), of 1000000 1000500 16] d by auto
qed

end
