(* ===== verification/CaptureService.thy ===== *)
theory CaptureService
  imports Pipeline UsbDevices "HOL-Library.Sublist"
begin

text \<open>
  The capture thread (\<^verbatim>\<open>data/capture_service.cpp\<close>): it polls a device in batches of at most 256
  frames and offers each frame to the pipeline. The device is any device of the hardware
  abstraction. A poll cycle is one step here; the interleaving inside a \<^verbatim>\<open>push\<close> or \<^verbatim>\<open>pop\<close> is the
  subject of \<^verbatim>\<open>SpscRing\<close>.
\<close>

section \<open>The code\<close>

definition kBatchFrames :: nat where "kBatchFrames = 256"

record 'd Capture =
  cs_dev :: 'd
  cs_pipe :: Pipeline
  cs_worker :: bool
  cs_running :: bool
  cs_offered :: u64
  cs_pushed :: u64
  cs_poll_cycles :: u64

definition new_Capture :: "'d \<Rightarrow> Pipeline \<Rightarrow> 'd Capture" where
  "new_Capture dev pipe =
     \<lparr>cs_dev = dev, cs_pipe = pipe, cs_worker = False, cs_running = False, cs_offered = 0,
      cs_pushed = 0, cs_poll_cycles = 0\<rparr>"

text \<open>\<open>now\<close> is the clock reading of the device's \<^verbatim>\<open>open\<close>.\<close>

definition capture_start ::
  "('d \<Rightarrow> bool) \<Rightarrow> (u64 \<Rightarrow> 'd \<Rightarrow> bool \<times> 'd) \<Rightarrow> u64 \<Rightarrow> 'd Capture \<Rightarrow> bool \<times> 'd Capture" where
  "capture_start is_open dev_open now c =
     (if cs_running c then (False, c)
      else
        let (ok, dev) = (if is_open (cs_dev c) then (True, cs_dev c) else dev_open now (cs_dev c));
            c = c\<lparr>cs_dev := dev\<rparr>
        in if \<not> ok then (False, c) else (True, c\<lparr>cs_running := True, cs_worker := True\<rparr>))"

definition capture_stop :: "'d Capture \<Rightarrow> 'd Capture" where
  "capture_stop c =
     (let was = cs_running c; c = c\<lparr>cs_running := False\<rparr>
      in if \<not> was then c else if cs_worker c then c\<lparr>cs_worker := False\<rparr> else c)"

fun offer_loop :: "bt_bus_frame list \<Rightarrow> Pipeline \<Rightarrow> u64 \<Rightarrow> u64 \<Rightarrow> (Pipeline \<times> u64 \<times> u64) res" where
  "offer_loop [] pipe pushed offered = Inr (pipe, pushed, offered)"
| "offer_loop (f # fs) pipe pushed offered =
     bindr (push pipe f) (\<lambda>(ok, pipe).
     offer_loop fs pipe (if ok then pushed + 1 else pushed) (offered + 1))"

text \<open>One turn of the worker's loop, with the frames it read.\<close>

definition capture_cycle ::
  "(u64 \<Rightarrow> u64 \<Rightarrow> 'd \<Rightarrow> nat \<Rightarrow> (bt_bus_frame list \<times> 'd) res) \<Rightarrow> u64 \<Rightarrow> u64 \<Rightarrow> 'd Capture \<Rightarrow>
   ('d Capture \<times> bt_bus_frame list) res" where
  "capture_cycle read_frames t1 t2 c =
     (if \<not> cs_running c then Inr (c, [])
      else bindr (read_frames t1 t2 (cs_dev c) kBatchFrames) (\<lambda>(batch, dev).
        bindr (offer_loop batch (cs_pipe c) (cs_pushed c) (cs_offered c)) (\<lambda>(pipe, pushed, offered).
        Inr (c\<lparr>cs_dev := dev, cs_pipe := pipe, cs_pushed := pushed, cs_offered := offered,
               cs_poll_cycles := cs_poll_cycles c + 1\<rparr>, batch))))"

section \<open>Runs: starts, stops, poll cycles and a consumer\<close>

datatype cap_event = Start u64 | Stop | Cycle u64 u64 | Consume

text \<open>The service, the frames read from the device and the frames the consumer got.\<close>

fun cap_step ::
  "('d \<Rightarrow> bool) \<Rightarrow> (u64 \<Rightarrow> 'd \<Rightarrow> bool \<times> 'd) \<Rightarrow>
   (u64 \<Rightarrow> u64 \<Rightarrow> 'd \<Rightarrow> nat \<Rightarrow> (bt_bus_frame list \<times> 'd) res) \<Rightarrow> cap_event \<Rightarrow> 'd Capture \<Rightarrow>
   ('d Capture \<times> bt_bus_frame list \<times> bt_bus_frame list) res" where
  "cap_step is_open dev_open read_frames (Start t) c = Inr (snd (capture_start is_open dev_open t c), [], [])"
| "cap_step is_open dev_open read_frames Stop c = Inr (capture_stop c, [], [])"
| "cap_step is_open dev_open read_frames (Cycle t1 t2) c =
     bindr (capture_cycle read_frames t1 t2 c) (\<lambda>(c, batch). Inr (c, batch, []))"
| "cap_step is_open dev_open read_frames Consume c =
     bindr (pop (cs_pipe c) True) (\<lambda>(r, pipe).
       Inr (c\<lparr>cs_pipe := pipe\<rparr>, [], case r of Some f \<Rightarrow> [f] | None \<Rightarrow> []))"

fun cap_run ::
  "('d \<Rightarrow> bool) \<Rightarrow> (u64 \<Rightarrow> 'd \<Rightarrow> bool \<times> 'd) \<Rightarrow>
   (u64 \<Rightarrow> u64 \<Rightarrow> 'd \<Rightarrow> nat \<Rightarrow> (bt_bus_frame list \<times> 'd) res) \<Rightarrow> cap_event list \<Rightarrow> 'd Capture \<Rightarrow>
   ('d Capture \<times> bt_bus_frame list \<times> bt_bus_frame list) res" where
  "cap_run is_open dev_open read_frames [] c = Inr (c, [], [])"
| "cap_run is_open dev_open read_frames (e # es) c =
     bindr (cap_step is_open dev_open read_frames e c) (\<lambda>(c, rd, got).
     bindr (cap_run is_open dev_open read_frames es c) (\<lambda>(c, rd', got').
     Inr (c, rd @ rd', got @ got')))"

section \<open>The books are kept\<close>

text \<open>
  \<open>rd\<close> is what was read so far, \<open>got\<close> what was consumed, and \<open>k\<close> the number of queue operations the
  64-bit counters still have room for.
\<close>

definition books :: "nat \<Rightarrow> Pipeline \<Rightarrow> u64 \<Rightarrow> u64 \<Rightarrow> bt_bus_frame list \<Rightarrow> bt_bus_frame list \<Rightarrow> bool" where
  "books k pipe pushed offered rd got \<longleftrightarrow>
     pl_inv k pipe \<and> length rd + k < 2 ^ 64 \<and> unat offered = length rd \<and>
     unat offered = unat pushed + unat (pl_dropped pipe) \<and>
     unat pushed = length got + length (pl_items pipe) \<and> subseq (got @ pl_items pipe) rd"

lemma inv_less: "pl_inv k p \<Longrightarrow> j \<le> k \<Longrightarrow> pl_inv j p"
  by (auto simp: pl_inv_def)

lemma books_less: "books k p ps off rd got \<Longrightarrow> j \<le> k \<Longrightarrow> books j p ps off rd got"
  by (auto simp: books_def intro: inv_less)

lemma unat_Suc: "unat w + 1 < 2 ^ 64 \<Longrightarrow> unat (w + 1 :: u64) = unat w + 1"
  by (simp add: unat_word_ariths)

lemma subseq_snoc: "subseq xs ys \<Longrightarrow> subseq (xs @ [x]) (ys @ [x])"
  by (simp add: list_emb_append_mono)

lemma subseq_skip: "subseq xs ys \<Longrightarrow> subseq xs (ys @ [x])"
  by (simp add: subseq_rev_drop_many)

lemma books_offer:
  assumes "books (Suc k) p ps off rd got"
  shows "\<exists>ok p'. push p f = Inr (ok, p') \<and>
    books k p' (if ok then ps + 1 else ps) (off + 1) (rd @ [f]) got"
proof -
  have i: "pl_inv (Suc k) p" and c: "length rd + Suc k < 2 ^ 64"
    and off: "unat off = length rd" "unat off = unat ps + unat (pl_dropped p)"
    and ps: "unat ps = length got + length (pl_items p)" and ss: "subseq (got @ pl_items p) rd"
    using assms by (auto simp: books_def)
  have p: "push p f = Inr (pl_enq p f)" using push_enq i by (simp add: pl_inv_def)
  have u: "unat (off + 1) = unat off + 1" "unat (ps + 1) = unat ps + 1"
    "unat (pl_dropped p + 1) = unat (pl_dropped p) + 1"
    using off c by (intro unat_Suc; simp)+
  obtain ok p' where e: "pl_enq p f = (ok, p')" by fastforce
  note q = ring.enq_cases [OF i, of f, unfolded e fst_conv snd_conv]
  show ?thesis
  proof (cases "length (pl_items p) < unat (pl_capacity p)")
    case True
    then have "ok" "pl_items p' = pl_items p @ [f]" "pl_dropped p' = pl_dropped p" "pl_inv k p'"
      using q by auto
    then show ?thesis
      using p e c off ps u subseq_snoc [OF ss, of f]
      by (intro exI [of _ ok] exI [of _ p']) (simp add: books_def del: length_items)
  next
    case False
    then have "\<not> ok" "pl_items p' = pl_items p" "unat (pl_dropped p') = Suc (unat (pl_dropped p))" "pl_inv k p'"
      using q u(3) by auto
    then show ?thesis
      using p e c off ps u subseq_skip [OF ss, of f]
      by (intro exI [of _ ok] exI [of _ p']) (simp add: books_def del: length_items)
  qed
qed

lemma books_offer_loop:
  "books (length fs + k) p ps off rd got \<Longrightarrow>
   \<exists>p' ps' off'. offer_loop fs p ps off = Inr (p', ps', off') \<and> books k p' ps' off' (rd @ fs) got"
proof (induction fs arbitrary: p ps off rd)
  case (Cons f fs)
  obtain ok p' where s: "push p f = Inr (ok, p')"
    "books (length fs + k) p' (if ok then ps + 1 else ps) (off + 1) (rd @ [f]) got"
    using books_offer [of "length fs + k" p ps off rd got f] Cons.prems by auto
  show ?case using Cons.IH [OF s(2)] s(1) by auto
qed simp

lemma books_consume:
  assumes "books (Suc k) p ps off rd got"
  shows "\<exists>r p'. pop p True = Inr (r, p') \<and>
    books k p' ps off rd (got @ (case r of Some f \<Rightarrow> [f] | None \<Rightarrow> []))"
proof -
  have i: "pl_inv (Suc k) p" using assms by (simp add: books_def)
  have p: "pop p True = Inr (pl_deq p)" using pop_deq i by (simp add: pl_inv_def)
  obtain r p' where e: "pl_deq p = (r, p')" by fastforce
  note q = ring.deq_cases [OF i, unfolded e fst_conv snd_conv]
  show ?thesis
    using p e q assms by (cases "pl_items p") (auto simp: books_def simp del: length_items)
qed

text \<open>What the service relies on: a device and a queue that keep their contracts.\<close>

locale capture_link = dev: usb_device sound dev_open dev_close is_open send_command read_frames
  for sound :: "'d \<Rightarrow> bool" and dev_open dev_close is_open send_command read_frames
begin

lemma step_books:
  assumes "sound (cs_dev c)" and "books (256 + k) (cs_pipe c) (cs_pushed c) (cs_offered c) rd got"
  shows "\<exists>c' rd' got'. cap_step is_open dev_open read_frames e c = Inr (c', rd', got') \<and>
    sound (cs_dev c') \<and> books k (cs_pipe c') (cs_pushed c') (cs_offered c') (rd @ rd') (got @ got')"
proof (cases e)
  case (Start t)
  have "snd (capture_start is_open dev_open t c) = c\<lparr>cs_dev := cs_dev (snd (capture_start is_open dev_open t c)),
      cs_running := cs_running (snd (capture_start is_open dev_open t c)),
      cs_worker := cs_worker (snd (capture_start is_open dev_open t c))\<rparr>"
    by (simp add: capture_start_def Let_def split: prod.splits)
  moreover have "sound (cs_dev (snd (capture_start is_open dev_open t c)))"
    using assms(1) dev.open_law [OF assms(1), of t]
    by (auto simp: capture_start_def Let_def split: prod.splits)
  moreover have "books k (cs_pipe c) (cs_pushed c) (cs_offered c) rd got"
    using books_less [OF assms(2)] by simp
  ultimately show ?thesis
    using Start by (metis (no_types, lifting) Capture.select_convs Capture.update_convs append_Nil2
      Capture.surjective cap_step.simps(1))
next
  case Stop
  then show ?thesis
    using assms(1) books_less [OF assms(2), of k] by (auto simp: capture_stop_def Let_def)
next
  case (Cycle t1 t2)
  show ?thesis
  proof (cases "cs_running c")
    case True
    obtain fs d' where r: "read_frames t1 t2 (cs_dev c) 256 = Inr (fs, d')" "length fs \<le> 256" "sound d'"
      using dev.read_law [OF assms(1)] by blast
    then have "books (length fs + k) (cs_pipe c) (cs_pushed c) (cs_offered c) rd got"
      using books_less [OF assms(2)] by simp
    then show ?thesis
      using books_offer_loop [of fs k "cs_pipe c" "cs_pushed c" "cs_offered c" rd got] Cycle True r
      by (auto simp: capture_cycle_def kBatchFrames_def)
  next
    case False
    then show ?thesis
      using Cycle assms(1) books_less [OF assms(2), of k] by (simp add: capture_cycle_def)
  qed
next
  case Consume
  have "books (Suc k) (cs_pipe c) (cs_pushed c) (cs_offered c) rd got"
    using books_less [OF assms(2)] by simp
  then show ?thesis
    using books_consume Consume assms(1) by fastforce
qed

lemma run_books:
  "sound (cs_dev c) \<Longrightarrow>
   books (256 * length es + k) (cs_pipe c) (cs_pushed c) (cs_offered c) rd got \<Longrightarrow>
   \<exists>c' rd' got'. cap_run is_open dev_open read_frames es c = Inr (c', rd', got') \<and>
     sound (cs_dev c') \<and> books k (cs_pipe c') (cs_pushed c') (cs_offered c') (rd @ rd') (got @ got')"
proof (induction es arbitrary: c rd got)
  case (Cons e es)
  obtain c1 rd1 got1 where s: "cap_step is_open dev_open read_frames e c = Inr (c1, rd1, got1)"
    "sound (cs_dev c1)"
    "books (256 * length es + k) (cs_pipe c1) (cs_pushed c1) (cs_offered c1) (rd @ rd1) (got @ got1)"
    using step_books [OF Cons.prems(1), of "256 * length es + k" rd got e] Cons.prems(2)
    by (auto simp: algebra_simps)
  show ?case using Cons.IH [OF s(2,3)] s(1) by auto
qed auto

text \<open>Only frames of the device get into the pipeline, and they are well formed.\<close>

lemma step_wf:
  assumes "sound (cs_dev c)" and "cap_step is_open dev_open read_frames e c = Inr (c', rd, got)"
  shows "sound (cs_dev c') \<and> (\<forall>f\<in>set rd. wf_frame f \<and> unat (f_dlc f) \<le> 64)"
proof (cases e)
  case (Cycle t1 t2)
  obtain fs d' where r: "read_frames t1 t2 (cs_dev c) kBatchFrames = Inr (fs, d')" "sound d'"
    "\<forall>f\<in>set fs. wf_frame f \<and> unat (f_dlc f) \<le> 64"
    using dev.read_law [OF assms(1)] by blast
  then show ?thesis
    using assms Cycle by (auto simp: capture_cycle_def bindr_Inr_iff split: if_splits)
next
  case (Start t)
  then show ?thesis
    using assms dev.open_law [OF assms(1), of t] by (auto simp: capture_start_def Let_def split: prod.splits if_splits)
qed (use assms in \<open>auto simp: capture_stop_def bindr_Inr_iff Let_def\<close>)

lemma run_wf:
  "sound (cs_dev c) \<Longrightarrow> cap_run is_open dev_open read_frames es c = Inr (c', rd, got) \<Longrightarrow>
   \<forall>f\<in>set rd. wf_frame f \<and> unat (f_dlc f) \<le> 64"
proof (induction es arbitrary: c rd got)
  case (Cons e es)
  then obtain c1 rd1 got1 rd2 got2 where s: "cap_step is_open dev_open read_frames e c = Inr (c1, rd1, got1)"
    and r: "cap_run is_open dev_open read_frames es c1 = Inr (c', rd2, got2)" "rd = rd1 @ rd2"
    by (auto simp: bindr_Inr_iff)
  show ?case
    using step_wf [OF Cons.prems(1) s] Cons.IH [OF _ r(1)] r(2) by auto
qed simp

lemma fresh_run:
  assumes "sound d" and "256 * length es < 2 ^ 64"
  shows "\<exists>c' rd got. cap_run is_open dev_open read_frames es (new_Capture d (new_Pipeline n)) = Inr (c', rd, got) \<and>
     books 0 (cs_pipe c') (cs_pushed c') (cs_offered c') rd got"
proof -
  have "books (256 * length es) (new_Pipeline n) 0 0 [] []"
    using fresh_inv assms(2) fresh_dropped by (simp add: books_def del: length_items)
  then show ?thesis
    using run_books [of "new_Capture d (new_Pipeline n)" es 0 "[]" "[]"] assms(1)
    by (auto simp: new_Capture_def)
qed

lemma fresh_run_typed:
  assumes "sound d" and "256 * length es < 2 ^ 64"
  shows "\<exists>c' rd got. cap_run is_open dev_open read_frames es (new_Capture d (new_Pipeline n)) = Inr (c', rd, got) \<and>
     (\<forall>f\<in>set (got @ pl_items (cs_pipe c')). wf_frame f \<and> unat (f_dlc f) \<le> 64)"
proof -
  obtain c' rd got where r: "cap_run is_open dev_open read_frames es (new_Capture d (new_Pipeline n)) = Inr (c', rd, got)"
    "books 0 (cs_pipe c') (cs_pushed c') (cs_offered c') rd got"
    using fresh_run [OF assms] by blast
  have "subseq (got @ pl_items (cs_pipe c')) rd" using r(2) unfolding books_def by (elim conjE)
  from list_emb_set [OF this] have "set (got @ pl_items (cs_pipe c')) \<subseteq> set rd" by blast
  moreover have "\<forall>f\<in>set rd. wf_frame f \<and> unat (f_dlc f) \<le> 64"
    using run_wf [OF _ r(1)] assms(1) by (simp add: new_Capture_def)
  ultimately show ?thesis using r(1) by blast
qed

end

interpretation sim_capture: capture_link sim_sound sim_open sim_close sim_is_open sim_send_command
  sim_read_frames
  by unfold_locales

interpretation null_capture: capture_link "\<lambda>d. True" null_open null_close null_is_open
  null_send_command null_read_frames
  by unfold_locales

lemma inert_step:
  assumes "\<not> cs_running c" and "\<forall>t. e \<noteq> Start t"
    and "cap_step is_open dev_open read_frames e c = Inr (c', rd, got)"
  shows "\<not> cs_running c' \<and> rd = [] \<and> cs_dev c' = cs_dev c \<and> cs_offered c' = cs_offered c \<and>
    cs_pushed c' = cs_pushed c \<and> cs_poll_cycles c' = cs_poll_cycles c"
  using assms by (cases e) (auto simp: capture_stop_def capture_cycle_def bindr_Inr_iff Let_def)

section \<open>Properties\<close>

text \<open>C1: The capture chain accounts for every frame. Take a traffic generator with an enabled
  channel, a fresh pipeline and service, and any sequence of starts, stops, poll cycles and reads of
  the consumer (fewer than 2^56): nothing faults; offered equals pushed plus dropped; pushed equals
  what the consumer got plus what is still queued; and the frames got and queued are, in order and
  without duplicates, a subsequence of the frames read from the device.\<close>

theorem capture_accounts_for_all:
  assumes "enabled_channels (sc_channel_mask cfg) \<noteq> []" and "256 * length es < 2 ^ 64"
  shows "\<exists>c' rd got. cap_run sim_is_open sim_open sim_read_frames es
        (new_Capture (new_SimUsbDevice cfg) (new_Pipeline n)) = Inr (c', rd, got) \<and>
    unat (cs_offered c') = length rd \<and>
    unat (cs_offered c') = unat (cs_pushed c') + unat (pl_dropped (cs_pipe c')) \<and>
    unat (cs_pushed c') = length got + unat (pl_size (cs_pipe c')) \<and>
    subseq (got @ pl_items (cs_pipe c')) rd"
proof -
  obtain c' rd got where "cap_run sim_is_open sim_open sim_read_frames es
        (new_Capture (new_SimUsbDevice cfg) (new_Pipeline n)) = Inr (c', rd, got)"
    "books 0 (cs_pipe c') (cs_pushed c') (cs_offered c') rd got"
    using sim_capture.fresh_run [OF new_sim_sound [OF assms(1)] assms(2)] by blast
  then show ?thesis by (auto simp: books_def)
qed

text \<open>A stopped service is inert. As long as it is not started, poll cycles and further stops
  read nothing from the device and leave the device and all counters alone; only the consumer keeps
  draining the pipeline.\<close>

theorem stopped_is_inert:
  assumes "\<forall>t. Start t \<notin> set es"
    and "cap_run is_open dev_open read_frames es (capture_stop c) = Inr (c', rd, got)"
  shows "rd = [] \<and> \<not> cs_running c' \<and> cs_dev c' = cs_dev c \<and> cs_offered c' = cs_offered c \<and>
    cs_pushed c' = cs_pushed c \<and> cs_poll_cycles c' = cs_poll_cycles c"
proof -
  have "rd = [] \<and> \<not> cs_running c' \<and> cs_dev c' = cs_dev c \<and> cs_offered c' = cs_offered c \<and>
    cs_pushed c' = cs_pushed c \<and> cs_poll_cycles c' = cs_poll_cycles c"
    if "\<not> cs_running c" "\<forall>t. Start t \<notin> set es"
      "cap_run is_open dev_open read_frames es c = Inr (c', rd, got)" for c
    using that
  proof (induction es arbitrary: c rd got)
    case (Cons e es)
    obtain c1 rd1 got1 rd2 got2 where s: "cap_step is_open dev_open read_frames e c = Inr (c1, rd1, got1)"
      and r: "cap_run is_open dev_open read_frames es c1 = Inr (c', rd2, got2)" "rd = rd1 @ rd2"
      using Cons.prems(3) by (auto simp: bindr_Inr_iff)
    have "\<forall>t. e \<noteq> Start t" using Cons.prems(2) by auto
    then show ?case
      using inert_step [OF Cons.prems(1) _ s] Cons.IH [OF _ _ r(1)] Cons.prems(2) r(2) by auto
  qed simp
  moreover have "\<not> cs_running (capture_stop c)" "cs_dev (capture_stop c) = cs_dev c"
    "cs_offered (capture_stop c) = cs_offered c" "cs_pushed (capture_stop c) = cs_pushed c"
    "cs_poll_cycles (capture_stop c) = cs_poll_cycles c"
    by (simp_all add: capture_stop_def Let_def)
  ultimately show ?thesis using assms by metis
qed

theorem capture_accounts_for_all_witness:
  "\<exists>c' rd got. cap_run sim_is_open sim_open sim_read_frames
        [Start 0, Cycle 1000000 1000000, Consume, Cycle 9000000 9000000, Stop]
        (new_Capture (new_SimUsbDevice default_SimConfig) (new_Pipeline 64)) = Inr (c', rd, got) \<and>
    unat (cs_offered c') = length rd \<and>
    unat (cs_offered c') = unat (cs_pushed c') + unat (pl_dropped (cs_pipe c')) \<and>
    unat (cs_pushed c') = length got + unat (pl_size (cs_pipe c')) \<and>
    subseq (got @ pl_items (cs_pipe c')) rd"
proof (rule capture_accounts_for_all)
  have "enabled_channels 0x0F = [0, 1, 2, 3]" by code_simp
  then show "enabled_channels (sc_channel_mask default_SimConfig) \<noteq> []"
    by (simp add: default_SimConfig_def)
qed simp

theorem stopped_is_inert_witness:
  "([] :: bt_bus_frame list) = [] \<and> \<not> cs_running (capture_stop (new_Capture new_NullUsbDevice (new_Pipeline 4))) \<and>
   cs_dev (capture_stop (new_Capture new_NullUsbDevice (new_Pipeline 4))) = new_NullUsbDevice"
  using stopped_is_inert [of "[Stop, Cycle 1 2]" null_is_open null_open null_read_frames
      "new_Capture new_NullUsbDevice (new_Pipeline 4)"]
  by (simp add: capture_stop_def capture_cycle_def new_Capture_def)

end
