(* ===== verification/CText.thy ===== *)
theory CText
  imports Doubles "HOL-Library.Char_ord"
begin

text \<open>
  The part of the C++ standard library the database parser reads text with: character classes of
  the C locale, \<^verbatim>\<open>std::string::find\<close> and \<^verbatim>\<open>substr\<close>, extraction of words and lines from a string
  stream, \<^verbatim>\<open>std::stoul\<close> with base detection (64-bit \<^verbatim>\<open>unsigned long\<close>) and \<^verbatim>\<open>std::stod\<close>. A conversion
  that throws is \<^const>\<open>None\<close>.
\<close>

section \<open>Characters and strings\<close>

abbreviation code :: "char \<Rightarrow> nat" where "code c \<equiv> of_char c"

definition is_space :: "char \<Rightarrow> bool" where
  "is_space c \<longleftrightarrow> code c = 32 \<or> 9 \<le> code c \<and> code c \<le> 13"

text \<open>The value of a digit, up to \<^verbatim>\<open>z\<close>.\<close>

definition digit_value :: "char \<Rightarrow> nat" where
  "digit_value c =
     (let k = code c in
      if 48 \<le> k \<and> k \<le> 57 then k - 48
      else if 97 \<le> k \<and> k \<le> 122 then k - 87
      else if 65 \<le> k \<and> k \<le> 90 then k - 55 else 99)"

definition is_digit :: "nat \<Rightarrow> char \<Rightarrow> bool" where
  "is_digit base c \<longleftrightarrow> digit_value c < base"

definition to_lower :: "char \<Rightarrow> char" where
  "to_lower c = (if 65 \<le> code c \<and> code c \<le> 90 then char_of (code c + 32) else c)"

fun find_char :: "char \<Rightarrow> string \<Rightarrow> nat option" where
  "find_char c [] = None"
| "find_char c (x # xs) = (if x = c then Some 0 else map_option Suc (find_char c xs))"

definition substr :: "string \<Rightarrow> nat \<Rightarrow> nat \<Rightarrow> string" where
  "substr s i n = take n (drop i s)"

definition starts_with :: "string \<Rightarrow> string \<Rightarrow> bool" where
  "starts_with p s \<longleftrightarrow> take (length p) s = p"

section \<open>Streams\<close>

text \<open>
  \<^verbatim>\<open>iss >> tok\<close>: skips white space and takes a word; fails at the end of the text. A failed stream
  stays failed, and no caller reads from one again.
\<close>

definition read_word :: "string \<Rightarrow> (string \<times> string) option" where
  "read_word s =
     (let s = dropWhile is_space s in
      if s = [] then None
      else Some (takeWhile (\<lambda>c. \<not> is_space c) s, dropWhile (\<lambda>c. \<not> is_space c) s))"

definition newline :: char where "newline = char_of (10 :: nat)"

definition line_of :: "string \<Rightarrow> string" where
  "line_of s = takeWhile (\<lambda>c. c \<noteq> newline) s"

definition after_line :: "string \<Rightarrow> string" where
  "after_line s = drop 1 (dropWhile (\<lambda>c. c \<noteq> newline) s)"

lemma length_after_line: "s \<noteq> [] \<Longrightarrow> length (after_line s) < length s"
proof -
  assume "s \<noteq> []"
  then have "0 < length s" by simp
  moreover have "length (dropWhile (\<lambda>c. c \<noteq> newline) s) \<le> length s"
    by (rule length_dropWhile_le)
  ultimately show ?thesis
    unfolding after_line_def length_drop by linarith
qed

text \<open>The lines successive \<^verbatim>\<open>std::getline\<close> calls produce.\<close>

function lines_of :: "string \<Rightarrow> string list" where
  "lines_of s = (if s = [] then [] else line_of s # lines_of (after_line s))"
  by auto
termination by (relation "measure length") (auto simp: length_after_line)

declare lines_of.simps [simp del]

section \<open>Integers: \<^verbatim>\<open>std::stoul(tok, &pos, 0)\<close>\<close>

definition number_of :: "nat \<Rightarrow> string \<Rightarrow> nat" where
  "number_of base ds = foldl (\<lambda>v c. v * base + digit_value c) 0 ds"

definition read_sign :: "string \<Rightarrow> bool \<times> string" where
  "read_sign s =
     (case s of
        c # r \<Rightarrow> if c = CHR ''-'' then (True, r) else if c = CHR ''+'' then (False, r) else (False, s)
      | [] \<Rightarrow> (False, s))"

text \<open>The prefix decides the base: \<^verbatim>\<open>0x\<close> before a hexadecimal digit, \<^verbatim>\<open>0\<close> for octal, else decimal.\<close>

definition detect_base :: "string \<Rightarrow> nat \<times> string" where
  "detect_base s =
     (if 3 \<le> length s \<and> take 1 s = ''0'' \<and> to_lower (s ! 1) = CHR ''x'' \<and> is_digit 16 (s ! 2)
      then (16, drop 2 s) else if take 1 s = ''0'' then (8, s) else (10, s))"

definition stoul0 :: "string \<Rightarrow> (u64 \<times> string) option" where
  "stoul0 tok =
     (let (neg, s) = read_sign (dropWhile is_space tok);
          (base, s) = detect_base s;
          ds = takeWhile (is_digit base) s;
          v = number_of base ds
      in if ds = [] then None
         else if v \<ge> 2 ^ 64 then None
         else Some (if neg then - of_nat v else of_nat v, drop (length ds) s))"

section \<open>Floating point: \<^verbatim>\<open>std::stod(tok, &pos)\<close>\<close>

definition int_of_digits :: "nat \<Rightarrow> string \<Rightarrow> int" where
  "int_of_digits base ds = int (number_of base ds)"

text \<open>An optional exponent after one of the two letters; without digits it is not part of the number.\<close>

definition read_exponent :: "char \<Rightarrow> string \<Rightarrow> int \<times> string" where
  "read_exponent e s =
     (case s of
        c # r \<Rightarrow>
          if to_lower c = e then
            let (neg, r') = read_sign r; ds = takeWhile (is_digit 10) r' in
            if ds = [] then (0, s)
            else ((if neg then - int_of_digits 10 ds else int_of_digits 10 ds), drop (length ds) r')
          else (0, s)
      | [] \<Rightarrow> (0, s))"

text \<open>Digits, with at most one decimal point among them; at least one digit.\<close>

definition read_mantissa :: "nat \<Rightarrow> string \<Rightarrow> (rat \<times> string) option" where
  "read_mantissa base s =
     (let ip = takeWhile (is_digit base) s;
          r = drop (length ip) s;
          fp = (case r of c # r' \<Rightarrow> if c = CHR ''.'' then takeWhile (is_digit base) r' else [] | [] \<Rightarrow> []);
          rest = (case r of c # r' \<Rightarrow> if c = CHR ''.'' then drop (length fp) r' else r | [] \<Rightarrow> r)
      in if ip = [] \<and> fp = [] then None
         else Some (of_int (int_of_digits base (ip @ fp)) / of_nat base ^ length fp,
                    if ip = [] \<and> fp = [] then r else rest))"

definition pow_rat :: "nat \<Rightarrow> int \<Rightarrow> rat" where
  "pow_rat b e = (if 0 \<le> e then of_nat (b ^ nat e) else 1 / of_nat (b ^ nat (- e)))"

definition is_hex_prefix :: "string \<Rightarrow> bool" where
  "is_hex_prefix s \<longleftrightarrow>
     2 \<le> length s \<and> take 1 s = ''0'' \<and> to_lower (s ! 1) = CHR ''x'' \<and> read_mantissa 16 (drop 2 s) \<noteq> None"

definition read_magnitude :: "string \<Rightarrow> (rat \<times> string) option" where
  "read_magnitude s =
     (if is_hex_prefix s
      then map_option (\<lambda>(m, r). let (e, r') = read_exponent (CHR ''p'') r in (m * pow_rat 2 e, r'))
             (read_mantissa 16 (drop 2 s))
      else map_option (\<lambda>(m, r). let (e, r') = read_exponent (CHR ''e'') r in (m * pow_rat 10 e, r'))
             (read_mantissa 10 s))"

text \<open>\<^verbatim>\<open>inf\<close>, \<^verbatim>\<open>infinity\<close>, \<^verbatim>\<open>nan\<close> and \<^verbatim>\<open>nan(...)\<close>, in any case.\<close>

definition starts_with_ci :: "string \<Rightarrow> string \<Rightarrow> bool" where
  "starts_with_ci p s \<longleftrightarrow> map to_lower (take (length p) s) = p"

definition nan_tail :: "string \<Rightarrow> string" where
  "nan_tail s =
     (let body = takeWhile (\<lambda>c. is_digit 36 c \<or> c = CHR ''_'') (drop 1 s) in
      if take 1 s = ''('' \<and> take 1 (drop (Suc (length body)) s) = '')''
      then drop (length body + 2) s else s)"

definition read_special :: "bool \<Rightarrow> string \<Rightarrow> (double \<times> string) option" where
  "read_special neg s =
     (if starts_with_ci ''infinity'' s then Some (DInf neg, drop 8 s)
      else if starts_with_ci ''inf'' s then Some (DInf neg, drop 3 s)
      else if starts_with_ci ''nan'' s then Some (DNan, nan_tail (drop 3 s))
      else None)"

text \<open>
  The nearest double of a magnitude. Overflow, and a result below the normal range that is not
  exact, set \<^verbatim>\<open>ERANGE\<close>, on which \<^verbatim>\<open>std::stod\<close> throws.
\<close>

definition to_double :: "bool \<Rightarrow> rat \<Rightarrow> double option" where
  "to_double neg v =
     (case round64 neg v of
        DFin s x \<Rightarrow> if v < pow2 (- 1022) \<and> x \<noteq> v then None else Some (DFin s x)
      | _ \<Rightarrow> None)"

definition stod :: "string \<Rightarrow> (double \<times> string) option" where
  "stod tok =
     (let (neg, s) = read_sign (dropWhile is_space tok) in
      case read_magnitude s of
        Some (v, r) \<Rightarrow> map_option (\<lambda>d. (d, r)) (to_double neg v)
      | None \<Rightarrow> read_special neg s)"

section \<open>Conversions without exceptions\<close>

text \<open>
  \<^verbatim>\<open>std::atof\<close>: zero if there is no number, an infinity on overflow. \<^verbatim>\<open>std::atoi\<close>: the decimal prefix
  as a 64-bit \<^verbatim>\<open>long\<close>, saturating, cut to 32 bits (as the C library does; the standard leaves a value
  out of range undefined).
\<close>

definition atof :: "string \<Rightarrow> double" where
  "atof tok =
     (let (neg, s) = read_sign (dropWhile is_space tok) in
      case read_magnitude s of
        Some (v, r) \<Rightarrow> round64 neg v
      | None \<Rightarrow> (case read_special neg s of Some (d, r) \<Rightarrow> d | None \<Rightarrow> dzero))"

definition atoi :: "string \<Rightarrow> u32" where
  "atoi tok =
     (let (neg, s) = read_sign (dropWhile is_space tok);
          v = int_of_digits 10 (takeWhile (is_digit 10) s)
      in word_of_int (if neg then max (- (2 ^ 63)) (- v) else min (2 ^ 63 - 1) v))"

text \<open>
  \<^verbatim>\<open>printf("%.<k>f")\<close>: the exact value rounded to \<open>k\<close> decimals, ties to even; \<open>pr\<close> prints a natural
  number.
\<close>

fun fmt_f :: "(nat \<Rightarrow> string) \<Rightarrow> nat \<Rightarrow> double \<Rightarrow> string" where
  "fmt_f pr k DNan = ''nan''"
| "fmt_f pr k (DInf neg) = (if neg then ''-inf'' else ''inf'')"
| "fmt_f pr k (DFin neg x) =
     (let n = nat (round_even (x * 10 ^ k)); frac = pr (n mod 10 ^ k) in
      (if neg then ''-'' else '''') @ pr (n div 10 ^ k) @
      (if k = 0 then '''' else ''.'' @ replicate (k - length frac) (CHR ''0'') @ frac))"

end
