(* ===== verification/DbcParser.thy ===== *)
theory DbcParser
  imports CText Signal BusTypes
begin

text \<open>
  The database parser (\<^verbatim>\<open>protocol/dbc/dbc_parser.cpp\<close>), function by function over the text
  primitives of \<^verbatim>\<open>CText\<close>. A failing helper yields the error message on the left; the message
  object under construction and the list of messages are values.
\<close>

section \<open>The code\<close>

definition blank :: "char \<Rightarrow> bool" where
  "blank c \<longleftrightarrow> code c = 32 \<or> code c = 9 \<or> code c = 13 \<or> code c = 10"

definition trim :: "string \<Rightarrow> string" where
  "trim s = rev (dropWhile blank (rev (dropWhile blank s)))"

definition parse_u32 :: "string \<Rightarrow> u32 option" where
  "parse_u32 tok =
     (if tok = [] then None
      else case stoul0 tok of
             Some (v, r) \<Rightarrow> if r \<noteq> [] then None else Some (ucast v)
           | None \<Rightarrow> None)"

definition parse_double :: "string \<Rightarrow> double option" where
  "parse_double tok =
     (if tok = [] then None
      else case stod tok of
             Some (d, r) \<Rightarrow> if r = [] then Some d else None
           | None \<Rightarrow> None)"

text \<open>The end of a message's name: a glued colon (removed) or a colon of its own behind it.\<close>

definition parse_bo_name :: "string \<Rightarrow> string \<Rightarrow> (string \<times> string) option" where
  "parse_bo_name name_tok s =
     (if last name_tok = CHR '':'' then Some (butlast name_tok, s)
      else case read_word s of
             Some (colon_tok, s) \<Rightarrow> if colon_tok = '':'' then Some (name_tok, s) else None
           | None \<Rightarrow> None)"

definition parse_bo :: "string \<Rightarrow> DbcMessage list \<Rightarrow> string + DbcMessage list" where
  "parse_bo line messages =
     (case read_word (drop 4 line) of
        None \<Rightarrow> Inl (''malformed BO_ line: '' @ line)
      | Some (id_tok, s) \<Rightarrow>
     (case read_word s of
        None \<Rightarrow> Inl (''malformed BO_ line: '' @ line)
      | Some (name_tok, s) \<Rightarrow>
     (case parse_bo_name name_tok s of
        None \<Rightarrow> Inl (''malformed BO_ line: '' @ line)
      | Some (name_tok, s) \<Rightarrow>
     (case read_word s of
        None \<Rightarrow> Inl (''malformed BO_ line: '' @ line)
      | Some (dlc_tok, s) \<Rightarrow>
     (case parse_u32 id_tok of
        None \<Rightarrow> Inl (''bad BO_ id: '' @ id_tok)
      | Some i \<Rightarrow>
     (case parse_u32 dlc_tok of
        None \<Rightarrow> Inl (''bad BO_ dlc: '' @ dlc_tok)
      | Some dlc \<Rightarrow>
          if unat dlc > BT_BUS_MAX_PAYLOAD then Inl (''bad BO_ dlc: '' @ dlc_tok)
          else Inr (messages @
            [\<lparr>dm_id = i, dm_name = name_tok, dm_dlc = ucast dlc,
              dm_tx_node = (case read_word s of Some (tx, _) \<Rightarrow> tx | None \<Rightarrow> []),
              dm_signals = []\<rparr>])))))))"

text \<open>The name of a signal and an optional multiplexer mark, up to the colon.\<close>

definition parse_sg_name :: "string \<Rightarrow> string + (string \<times> string)" where
  "parse_sg_name line =
     (case read_word (drop 4 line) of
        None \<Rightarrow> Inl (''malformed SG_ line: '' @ line)
      | Some (name_tok, s) \<Rightarrow>
          if last name_tok = CHR '':'' then Inr (butlast name_tok, s)
          else case read_word s of
                 None \<Rightarrow> Inl (''SG_ line missing geometry: '' @ line)
               | Some (tok, s) \<Rightarrow>
                   if tok = '':'' then Inr (name_tok, s)
                   else if tok = ''M'' \<or> take 1 tok = ''m'' then
                     (case read_word s of
                        Some (tok, s) \<Rightarrow>
                          if tok \<noteq> '':'' then Inl (''malformed SG_ mux marker: '' @ line)
                          else Inr (name_tok, s)
                      | None \<Rightarrow> Inl (''malformed SG_ mux marker: '' @ line))
                   else Inl (''unexpected SG_ token: '' @ tok))"

text \<open>\<^verbatim>\<open><start>|<len>@<order><sign>\<close> into start bit, length, byte order and sign.\<close>

definition parse_geometry :: "string \<Rightarrow> string + (u8 \<times> u8 \<times> bool \<times> bool)" where
  "parse_geometry geom =
     (case (find_char (CHR ''|'') geom, find_char (CHR ''@'') geom) of
        (Some bar, Some ap) \<Rightarrow>
          if ap < bar then Inl (''bad SG_ geometry: '' @ geom)
          else (case (parse_u32 (substr geom 0 bar), parse_u32 (substr geom (bar + 1) (ap - bar - 1))) of
                  (Some start, Some len) \<Rightarrow>
                    if ap + 2 \<ge> length geom then Inl (''bad SG_ byte order/sign: '' @ geom)
                    else Inr (ucast (start AND 0xFF), (if unat len > 64 then 64 else ucast len),
                              geom ! (ap + 1) = CHR ''0'', geom ! (ap + 2) = CHR ''-'')
                | _ \<Rightarrow> Inl (''bad SG_ start/len: '' @ geom))
      | _ \<Rightarrow> Inl (''bad SG_ geometry: '' @ geom))"

text \<open>\<^verbatim>\<open>(<factor>,<offset>)\<close>.\<close>

definition parse_scaling :: "string \<Rightarrow> string + (double \<times> double)" where
  "parse_scaling phys =
     (case (find_char (CHR ''('') phys, find_char (CHR '')'') phys) of
        (Some lp, Some rp) \<Rightarrow>
          if rp \<le> lp then Inl (''bad SG_ factor/offset: '' @ phys)
          else let inner = substr phys (lp + 1) (rp - lp - 1) in
            (case find_char (CHR '','') inner of
               None \<Rightarrow> Inl (''bad SG_ factor/offset: '' @ phys)
             | Some comma \<Rightarrow>
                 (case (parse_double (substr inner 0 comma), parse_double (drop (comma + 1) inner)) of
                    (Some f, Some off) \<Rightarrow> Inr (f, off)
                  | _ \<Rightarrow> Inl (''bad SG_ factor/offset: '' @ phys)))
      | _ \<Rightarrow> Inl (''bad SG_ factor/offset: '' @ phys))"

text \<open>\<^verbatim>\<open>[<min>|<max>]\<close>: any other word is ignored, and so is a range that does not parse.\<close>

definition parse_range :: "string \<Rightarrow> (double \<times> double) option" where
  "parse_range rg =
     (if rg \<noteq> [] \<and> hd rg = CHR ''['' then
        (case find_char (CHR '']'') rg of
           None \<Rightarrow> None
         | Some rb \<Rightarrow>
             let inner = substr rg 1 (rb - 1) in
             (case find_char (CHR ''|'') inner of
                None \<Rightarrow> None
              | Some bar \<Rightarrow>
                  (case (parse_double (substr inner 0 bar), parse_double (drop (bar + 1) inner)) of
                     (Some mn, Some mx) \<Rightarrow> Some (mn, mx)
                   | _ \<Rightarrow> None)))
      else None)"

text \<open>The unit between the quotes that open and close the rest of the line.\<close>

definition parse_unit :: "string \<Rightarrow> string" where
  "parse_unit rest =
     (if rest \<noteq> [] \<and> hd rest = CHR 0x22 then
        (case find_char (CHR 0x22) (drop 1 rest) of
           Some q \<Rightarrow> substr rest 1 q
         | None \<Rightarrow> [])
      else [])"

definition parse_sg :: "string \<Rightarrow> DbcMessage \<Rightarrow> string + DbcMessage" where
  "parse_sg line msg =
     (case parse_sg_name line of
        Inl e \<Rightarrow> Inl e
      | Inr (name, s) \<Rightarrow>
     (case read_word s of
        None \<Rightarrow> Inl (''SG_ line missing geometry: '' @ line)
      | Some (geom, s) \<Rightarrow>
     (case parse_geometry geom of
        Inl e \<Rightarrow> Inl e
      | Inr (start, len, little, neg) \<Rightarrow>
     (case read_word s of
        None \<Rightarrow> Inl (''SG_ line missing factor/offset: '' @ line)
      | Some (phys, s) \<Rightarrow>
     (case parse_scaling phys of
        Inl e \<Rightarrow> Inl e
      | Inr (factor, off) \<Rightarrow>
          let (rg, rest) = (case read_word s of Some (w, s) \<Rightarrow> (w, trim (line_of s)) | None \<Rightarrow> ([], []));
              (mn, mx) = (case parse_range rg of Some r \<Rightarrow> r | None \<Rightarrow> (dzero, dzero))
          in Inr (msg\<lparr>dm_signals := dm_signals msg @
               [\<lparr>sg_name = name, sg_start_bit = start, sg_length = len, sg_factor = factor,
                 sg_offset = off, sg_min_value = mn, sg_max_value = mx, sg_unit = parse_unit rest,
                 sg_is_signed = neg, sg_little_endian = little\<rparr>]\<rparr>))))))"

text \<open>One trimmed line.\<close>

definition parse_line :: "string \<Rightarrow> DbcMessage list \<Rightarrow> string + DbcMessage list" where
  "parse_line t messages =
     (if t = [] \<or> starts_with ''//'' t then Inr messages
      else if starts_with ''BO_ '' t then parse_bo t messages
      else if starts_with ''SG_ '' t then
        (if messages = [] then Inl ''SG_ line before any BO_ message''
         else case parse_sg t (last messages) of
                Inl e \<Rightarrow> Inl e
              | Inr m \<Rightarrow> Inr (butlast messages @ [m]))
      else Inr messages)"

text \<open>The loop; on failure the messages read so far stay in the parser.\<close>

fun parse_lines :: "string list \<Rightarrow> DbcMessage list \<Rightarrow> bool \<times> string option \<times> DbcMessage list" where
  "parse_lines [] messages = (True, None, messages)"
| "parse_lines (l # ls) messages =
     (case parse_line (trim l) messages of
        Inl e \<Rightarrow> (False, Some e, messages)
      | Inr messages' \<Rightarrow> parse_lines ls messages')"

definition dbc_clear :: "DbcMessage list \<Rightarrow> DbcMessage list" where
  "dbc_clear messages = []"

text \<open>The result, the error if one was set, and the parser's messages afterwards.\<close>

definition dbc_parse :: "DbcMessage list \<Rightarrow> string \<Rightarrow> bool \<times> string option \<times> DbcMessage list" where
  "dbc_parse messages text = parse_lines (lines_of text) (dbc_clear messages)"

text \<open>The caller's string object, if its pointer is not null.\<close>

definition set_error :: "string option \<Rightarrow> string \<Rightarrow> string option" where
  "set_error error what = (if error \<noteq> None then Some what else None)"

text \<open>The call with the pointer: at most one error is set, by the branch that returns false.\<close>

definition dbc_parse_into :: "DbcMessage list \<Rightarrow> string \<Rightarrow> string option \<Rightarrow> bool \<times> string option \<times> DbcMessage list" where
  "dbc_parse_into messages text error =
     (let (ok, err, ms) = dbc_parse messages text
      in (ok, case err of None \<Rightarrow> error | Some what \<Rightarrow> set_error error what, ms))"

fun find_message :: "DbcMessage list \<Rightarrow> u32 \<Rightarrow> DbcMessage option" where
  "find_message [] i = None"
| "find_message (m # ms) i = (if dm_id m = i then Some m else find_message ms i)"

fun find_message_by_name :: "DbcMessage list \<Rightarrow> string \<Rightarrow> DbcMessage option" where
  "find_message_by_name [] n = None"
| "find_message_by_name (m # ms) n = (if dm_name m = n then Some m else find_message_by_name ms n)"

end
