(* ===== verification/DbcText.thy ===== *)
theory DbcText
  imports DbcParser BusFrame
begin

text \<open>
  What the database parser makes of a database file: an abstract syntax of the lines, how such a
  line is written (as the parser's grammar comment has it), and what the messages and signals are
  that it stands for. The last part is what holds of arbitrary text.
\<close>

section \<open>Words and lines\<close>

definition word :: "string \<Rightarrow> bool" where
  "word w \<longleftrightarrow> w \<noteq> [] \<and> (\<forall>c\<in>set w. \<not> is_space c)"

lemma space_spaces [simp]: "is_space (CHR '' '')" "blank (CHR '' '')"
  by (simp_all add: is_space_def blank_def)

lemma blank_space: "blank c \<Longrightarrow> is_space c"
  by (auto simp: blank_def is_space_def)

lemma newline_space [simp]: "is_space newline" "blank newline"
  by (simp_all add: is_space_def blank_def newline_def)

lemma wordD: "word w \<Longrightarrow> w \<noteq> []" "word w \<Longrightarrow> c \<in> set w \<Longrightarrow> \<not> is_space c"
  by (simp_all add: word_def)

lemma word_hd_last: "word w \<Longrightarrow> \<not> is_space (hd w) \<and> \<not> is_space (last w)"
  by (simp add: word_def)

lemma word_append: "word a \<Longrightarrow> word b \<Longrightarrow> word (a @ b)"
  by (auto simp: word_def)

lemma read_word_space [simp]: "read_word (CHR '' '' # s) = read_word s"
  by (simp add: read_word_def)

lemma read_word_nil [simp]: "read_word [] = None"
  by (simp add: read_word_def)

lemma read_word_word:
  assumes "word w" and "r = [] \<or> is_space (hd r)"
  shows "read_word (w @ r) = Some (w, r)"
proof -
  obtain c w' where w: "w = c # w'" using wordD(1) [OF assms(1)] by (cases w) auto
  have d: "dropWhile is_space (w @ r) = w @ r"
    using wordD(2) [OF assms(1), of c] by (simp add: w)
  have "takeWhile (\<lambda>c. \<not> is_space c) (w @ r) = w @ takeWhile (\<lambda>c. \<not> is_space c) r"
    using wordD(2) [OF assms(1)] by (simp add: takeWhile_append2)
  moreover have "dropWhile (\<lambda>c. \<not> is_space c) (w @ r) = dropWhile (\<lambda>c. \<not> is_space c) r"
    using wordD(2) [OF assms(1)] by (simp add: dropWhile_append2)
  moreover have "takeWhile (\<lambda>c. \<not> is_space c) r = [] \<and> dropWhile (\<lambda>c. \<not> is_space c) r = r"
    using assms(2) by (cases r) auto
  ultimately show ?thesis using wordD(1) [OF assms(1)] by (simp add: read_word_def d Let_def)
qed

lemma read_word_end [simp]: "word w \<Longrightarrow> read_word w = Some (w, [])"
  using read_word_word [of w "[]"] by simp

lemma read_word_sp [simp]: "word w \<Longrightarrow> read_word (w @ CHR '' '' # r) = Some (w, CHR '' '' # r)"
  by (rule read_word_word) simp_all

lemma read_word_is_word: "read_word s = Some (w, r) \<Longrightarrow> word w"
proof -
  assume a: "read_word s = Some (w, r)"
  then have "dropWhile is_space s \<noteq> []" and w: "w = takeWhile (\<lambda>c. \<not> is_space c) (dropWhile is_space s)"
    by (auto simp: read_word_def Let_def split: if_splits)
  then obtain c t where c: "dropWhile is_space s = c # t" "\<not> is_space c"
    by (metis hd_dropWhile list.exhaust_sel)
  show "word w"
    using c by (auto simp: w word_def dest: set_takeWhileD)
qed

lemma find_char_append [simp]: "c \<notin> set a \<Longrightarrow> find_char c (a @ c # b) = Some (length a)"
  by (induction a) auto

lemma find_char_hd [simp]: "find_char c (c # b) = Some 0"
  by simp

lemma find_char_None: "find_char c s = None \<longleftrightarrow> c \<notin> set s"
  by (induction s) auto

lemma trim_pad:
  assumes "x \<noteq> []" and "\<not> blank (hd x)" and "\<not> blank (last x)"
    and "\<forall>c\<in>set p. blank c" and "\<forall>c\<in>set q. blank c"
  shows "trim (p @ x @ q) = x"
proof -
  have front: "dropWhile blank (a @ b) = b" if "\<forall>c\<in>set a. blank c" "b \<noteq> []" "\<not> blank (hd b)" for a b
    using that by (cases b) (auto simp: dropWhile_append2)
  have "dropWhile blank (p @ x @ q) = x @ q"
    by (rule front) (use assms in auto)
  moreover have "dropWhile blank (rev (x @ q)) = rev x"
    using front [of "rev q" "rev x"] assms by (simp add: hd_rev)
  ultimately show ?thesis by (simp add: trim_def)
qed

lemma lines_of_line [simp]:
  assumes "newline \<notin> set l"
  shows "lines_of (l @ newline # r) = l # lines_of r"
proof -
  have "takeWhile (\<lambda>c. c \<noteq> newline) (l @ newline # r) = l"
    using assms by (induction l) auto
  moreover have "dropWhile (\<lambda>c. c \<noteq> newline) (l @ newline # r) = newline # r"
    using assms by (induction l) auto
  ultimately show ?thesis
    by (subst lines_of.simps) (simp add: line_of_def after_line_def)
qed

lemma lines_of_nil [simp]: "lines_of [] = []"
  by (simp add: lines_of.simps)

lemma lines_of_text: "\<forall>l\<in>set ls. newline \<notin> set l \<Longrightarrow> lines_of (concat (map (\<lambda>l. l @ [newline]) ls)) = ls"
  by (induction ls) simp_all

section \<open>Printed numbers read back\<close>

lemma digit_value_digit [simp]: "d < 10 \<Longrightarrow> digit_value (digit_char d) = d"
  by (simp add: digit_char_def digit_value_def)

lemma fmt_u_rec: "fmt_u n = (if n < 10 then [digit_char n] else fmt_u (n div 10) @ [digit_char (n mod 10)])"
  by (simp add: fmt_u_def digits_base.simps [of 10 n])

lemma fmt_u_induct [case_names digit more]:
  assumes "\<And>n. n < 10 \<Longrightarrow> P n" and "\<And>n. 10 \<le> n \<Longrightarrow> P (n div 10) \<Longrightarrow> P n"
  shows "P (n :: nat)"
proof (induction n rule: less_induct)
  case (less n)
  show ?case
  proof (cases "n < 10")
    case False
    then have "n div 10 < n" by simp
    then show ?thesis using assms(2) [of n] less False by simp
  qed (rule assms(1))
qed

definition digits :: "string \<Rightarrow> bool" where
  "digits s \<longleftrightarrow> (\<forall>c\<in>set s. is_digit 10 c)"

lemma digits_fmt_u: "digits (fmt_u n)"
proof (induction n rule: fmt_u_induct)
  case (digit n)
  then show ?case by (subst fmt_u_rec) (simp add: digits_def is_digit_def)
next
  case (more n)
  then show ?case by (subst fmt_u_rec) (auto simp: digits_def is_digit_def)
qed

lemma number_of_fmt_u [simp]: "number_of 10 (fmt_u n) = n"
proof (induction n rule: fmt_u_induct)
  case (digit n)
  then show ?case by (subst fmt_u_rec) (simp add: number_of_def)
next
  case (more n)
  then show ?case by (subst fmt_u_rec) (simp add: number_of_def)
qed

lemma fmt_u_nonempty [simp]: "fmt_u n \<noteq> []"
  by (subst fmt_u_rec) simp

lemma fmt_u_leading: "n \<noteq> 0 \<Longrightarrow> hd (fmt_u n) \<noteq> CHR ''0''"
proof (induction n rule: fmt_u_induct)
  case (digit n)
  then have "digit_value (hd (fmt_u n)) \<noteq> digit_value (CHR ''0'')"
    by (subst fmt_u_rec) (simp add: digit_value_def [of "CHR ''0''"])
  then show ?case by metis
next
  case (more n)
  then show ?case by (subst fmt_u_rec) simp
qed

lemma fmt_u_zero: "fmt_u 0 = ''0''"
  by (simp add: fmt_u_rec digit_char_def char_of_eq_iff)

lemma digit_code: "is_digit 10 c \<Longrightarrow> 48 \<le> code c \<and> code c \<le> 57"
  by (auto simp: is_digit_def digit_value_def Let_def split: if_splits)

lemma digit_not:
  assumes "is_digit 10 c"
  shows "\<not> is_space c" "c \<noteq> CHR ''-''" "c \<noteq> CHR ''+''" "c \<noteq> CHR ''.''" "c \<noteq> CHR ''|''" "c \<noteq> CHR ''@''"
    "c \<noteq> CHR '',''" "c \<noteq> CHR ''(''" "c \<noteq> CHR '')''" "c \<noteq> CHR '']''" "c \<noteq> CHR ''[''" "c \<noteq> CHR '':''"
    "to_lower c \<noteq> CHR ''x''"
  using digit_code [OF assms] by (auto simp: is_space_def to_lower_def)

lemma takeWhile_digits:
  assumes "digits s" and "r = [] \<or> \<not> is_digit 10 (hd r)"
  shows "takeWhile (is_digit 10) (s @ r) = s"
proof -
  have "takeWhile (is_digit 10) r = []" using assms(2) by (cases r) auto
  then show ?thesis using assms(1) by (simp add: digits_def takeWhile_append2)
qed

lemma word_digits: "digits s \<Longrightarrow> s \<noteq> [] \<Longrightarrow> word s"
  by (auto simp: word_def digits_def digit_not)

lemma digits_drop_space:
  assumes "digits s" and "s \<noteq> []"
  shows "dropWhile is_space (s @ r) = s @ r"
proof -
  obtain c t where s: "s = c # t" using assms(2) by (cases s) auto
  then have "\<not> is_space c" using assms(1) by (simp add: digits_def digit_not)
  then show ?thesis by (simp add: s)
qed

lemma digits_no_sign:
  assumes "digits s" and "s \<noteq> []"
  shows "read_sign (s @ r) = (False, s @ r)"
proof -
  obtain c t where s: "s = c # t" using assms(2) by (cases s) auto
  then have "is_digit 10 c" using assms(1) by (simp add: digits_def)
  from digit_not(2,3) [OF this] show ?thesis by (simp add: s read_sign_def)
qed

lemma stoul0_fmt_u:
  "stoul0 (fmt_u n) = (if n < 2 ^ 64 then Some (of_nat n, []) else None)"
proof -
  have p: "read_sign (dropWhile is_space (fmt_u n)) = (False, fmt_u n)"
    using digits_drop_space [OF digits_fmt_u, of n "[]"] digits_no_sign [OF digits_fmt_u, of n "[]"] by simp
  show ?thesis
  proof (cases "n = 0")
    case True
    have "stoul0 ''0'' = Some (0, [])"
      by (simp add: stoul0_def is_space_def read_sign_def detect_base_def is_digit_def
          digit_value_def number_of_def)
    then show ?thesis by (simp add: True fmt_u_zero)
  next
    case False
    have "take 1 (fmt_u n) \<noteq> ''0''"
      using fmt_u_leading [OF False] by (cases "fmt_u n") auto
    then have b: "detect_base (fmt_u n) = (10, fmt_u n)" by (simp add: detect_base_def)
    have t: "takeWhile (is_digit 10) (fmt_u n) = fmt_u n"
      using takeWhile_digits [OF digits_fmt_u, of "[]" n] by simp
    show ?thesis
      unfolding stoul0_def p b Let_def prod.case t number_of_fmt_u by (simp add: not_less)
  qed
qed

lemma parse_u32_fmt_u:
  "parse_u32 (fmt_u n) = (if n < 2 ^ 64 then Some (of_nat n) else None)"
proof -
  have "ucast (of_nat n :: u64) = (of_nat n :: u32)"
    by transfer (simp add: take_bit_of_nat flip: of_nat_take_bit)
  then show ?thesis by (simp add: parse_u32_def stoul0_fmt_u)
qed

section \<open>Decimal fractions\<close>

record decimal =
  dc_neg :: bool
  dc_int :: nat
  dc_frac :: string

definition wf_decimal :: "decimal \<Rightarrow> bool" where "wf_decimal d \<longleftrightarrow> digits (dc_frac d)"

definition show_decimal :: "decimal \<Rightarrow> string" where
  "show_decimal d =
     (if dc_neg d then ''-'' else []) @ fmt_u (dc_int d) @
     (if dc_frac d = [] then [] else CHR ''.'' # dc_frac d)"

definition decimal_rat :: "decimal \<Rightarrow> rat" where
  "decimal_rat d =
     of_nat (dc_int d) + of_nat (number_of 10 (dc_frac d)) / 10 ^ length (dc_frac d)"

definition decimal_double :: "decimal \<Rightarrow> double option" where
  "decimal_double d = to_double (dc_neg d) (decimal_rat d)"

lemma number_of_append:
  "number_of b (s @ t) = number_of b s * b ^ length t + number_of b t"
proof (induction t rule: rev_induct)
  case (snoc c t)
  have "number_of b (s @ t @ [c]) = number_of b (s @ t) * b + digit_value c"
    using foldl_append [of _ _ "s @ t" "[c]"] by (simp add: number_of_def)
  then show ?case
    by (simp add: snoc.IH) (simp add: number_of_def algebra_simps)
qed (simp add: number_of_def)

lemma read_mantissa_decimal:
  assumes "digits f"
  shows "read_mantissa 10 (fmt_u n @ (if f = [] then [] else CHR ''.'' # f))
       = Some (of_nat n + of_nat (number_of 10 f) / 10 ^ length f, [])"
proof (cases "f = []")
  case True
  have "takeWhile (is_digit 10) (fmt_u n) = fmt_u n"
    using takeWhile_digits [OF digits_fmt_u, of "[]" n] by simp
  note t = this
  show ?thesis by (simp add: True read_mantissa_def int_of_digits_def t number_of_def [of _ "[]"])
next
  case False
  have i: "takeWhile (is_digit 10) (fmt_u n @ CHR ''.'' # f) = fmt_u n"
    by (rule takeWhile_digits [OF digits_fmt_u]) (simp add: is_digit_def digit_value_def)
  have f: "takeWhile (is_digit 10) f = f"
    using takeWhile_digits [OF assms, of "[]"] by simp
  have "(10 :: rat) ^ length f \<noteq> 0" by simp
  then have "(of_int (int (n * 10 ^ length f + number_of 10 f)) :: rat) / 10 ^ length f
       = of_nat n + of_nat (number_of 10 f) / 10 ^ length f"
    by (simp add: add_divide_distrib)
  then show ?thesis
    by (simp add: False read_mantissa_def i f int_of_digits_def number_of_append)
qed

lemma not_hex_decimal:
  assumes "digits f"
  shows "\<not> is_hex_prefix (fmt_u n @ (if f = [] then [] else CHR ''.'' # f))"
proof -
  let ?s = "fmt_u n @ (if f = [] then [] else CHR ''.'' # f)"
  have dot: "to_lower (CHR ''.'') \<noteq> CHR ''x''" by (simp add: to_lower_def)
  have "\<forall>c\<in>set ?s. to_lower c \<noteq> CHR ''x''"
    using digits_fmt_u [of n] assms dot by (auto simp: digits_def digit_not(13))
  then have "2 \<le> length ?s \<Longrightarrow> to_lower (?s ! 1) \<noteq> CHR ''x''"
    using nth_mem [of 1 ?s] by (metis Suc_1 Suc_le_eq)
  then show ?thesis unfolding is_hex_prefix_def by blast
qed

lemma stod_decimal:
  assumes "wf_decimal d"
  shows "stod (show_decimal d) = map_option (\<lambda>x. (x, [])) (decimal_double d)"
proof -
  let ?s = "fmt_u (dc_int d) @ (if dc_frac d = [] then [] else CHR ''.'' # dc_frac d)"
  have f: "digits (dc_frac d)" using assms by (simp add: wf_decimal_def)
  have "read_sign (dropWhile is_space (show_decimal d)) = (dc_neg d, ?s)"
  proof (cases "dc_neg d")
    case True
    then show ?thesis by (simp add: show_decimal_def is_space_def read_sign_def)
  next
    case False
    then have "show_decimal d = ?s" by (simp add: show_decimal_def)
    then show ?thesis
      using False by (simp only: digits_drop_space [OF digits_fmt_u fmt_u_nonempty]
          digits_no_sign [OF digits_fmt_u fmt_u_nonempty])
  qed
  moreover have "read_magnitude ?s = Some (decimal_rat d, [])"
    using not_hex_decimal [OF f] read_mantissa_decimal [OF f]
    by (simp only: read_magnitude_def if_False)
       (simp add: read_exponent_def pow_rat_def decimal_rat_def)
  ultimately show ?thesis by (simp only: stod_def Let_def prod.case option.case decimal_double_def)
qed

lemma show_decimal_nonempty [simp]: "show_decimal d \<noteq> []"
  by (simp add: show_decimal_def)

lemma parse_double_decimal: "wf_decimal d \<Longrightarrow> parse_double (show_decimal d) = decimal_double d"
  by (cases "decimal_double d") (simp_all add: parse_double_def stod_decimal)

text \<open>The characters of a printed decimal: none of those that separate it from its surroundings.\<close>

lemma show_decimal_chars:
  assumes "wf_decimal d" and "c \<in> set (show_decimal d)"
  shows "is_digit 10 c \<or> c = CHR ''-'' \<or> c = CHR ''.''"
  using assms digits_fmt_u [of "dc_int d"]
  by (auto simp: show_decimal_def wf_decimal_def digits_def split: if_splits)

lemma show_decimal_not:
  assumes "wf_decimal d"
  shows "CHR ''|'' \<notin> set (show_decimal d)" "CHR '','' \<notin> set (show_decimal d)"
    "CHR ''('' \<notin> set (show_decimal d)" "CHR '')'' \<notin> set (show_decimal d)"
    "CHR '']'' \<notin> set (show_decimal d)" "\<forall>c\<in>set (show_decimal d). \<not> is_space c"
proof -
  note n = show_decimal_chars [OF assms] and v = is_digit_def digit_value_def
  show "CHR ''|'' \<notin> set (show_decimal d)" using n [of "CHR ''|''"] by (auto simp: v)
  show "CHR '','' \<notin> set (show_decimal d)" using n [of "CHR '',''"] by (auto simp: v)
  show "CHR ''('' \<notin> set (show_decimal d)" using n [of "CHR ''(''"] by (auto simp: v)
  show "CHR '')'' \<notin> set (show_decimal d)" using n [of "CHR '')''"] by (auto simp: v)
  show "CHR '']'' \<notin> set (show_decimal d)" using n [of "CHR '']''"] by (auto simp: v)
  show "\<forall>c\<in>set (show_decimal d). \<not> is_space c"
    using n digit_not(1) by (fastforce simp: is_space_def)
qed

section \<open>Database lines\<close>

record message_line =
  ml_id :: nat
  ml_name :: string
  ml_dlc :: nat
  ml_tx :: string

record signal_line =
  sl_name :: string
  sl_mux :: "string option"
  sl_start :: nat
  sl_len :: nat
  sl_order :: char
  sl_signed :: bool
  sl_factor :: decimal
  sl_offset :: decimal
  sl_min :: decimal
  sl_max :: decimal
  sl_unit :: string
  sl_receiver :: string

datatype dbc_line = MessageLine message_line | SignalLine signal_line | OtherLine string

definition quote :: char where "quote = CHR 0x22"

definition show_message :: "message_line \<Rightarrow> string" where
  "show_message m =
     ''BO_ '' @ fmt_u (ml_id m) @ '' '' @ ml_name m @ '': '' @ fmt_u (ml_dlc m) @ '' '' @ ml_tx m"

definition show_geometry :: "signal_line \<Rightarrow> string" where
  "show_geometry s =
     fmt_u (sl_start s) @ ''|'' @ fmt_u (sl_len s) @ ''@'' @ [sl_order s, if sl_signed s then CHR ''-'' else CHR ''+'']"

definition show_scaling :: "signal_line \<Rightarrow> string" where
  "show_scaling s = ''('' @ show_decimal (sl_factor s) @ '','' @ show_decimal (sl_offset s) @ '')''"

definition show_range :: "signal_line \<Rightarrow> string" where
  "show_range s = ''['' @ show_decimal (sl_min s) @ ''|'' @ show_decimal (sl_max s) @ '']''"

definition show_signal :: "signal_line \<Rightarrow> string" where
  "show_signal s =
     ''SG_ '' @ sl_name s @ (case sl_mux s of Some m \<Rightarrow> '' '' @ m | None \<Rightarrow> []) @ '' : '' @
     show_geometry s @ '' '' @ show_scaling s @ '' '' @ show_range s @ '' '' @
     [quote] @ sl_unit s @ [quote] @ '' '' @ sl_receiver s"

text \<open>A signal line is indented by a blank, as usual in such files.\<close>

fun show_line :: "dbc_line \<Rightarrow> string" where
  "show_line (MessageLine m) = show_message m"
| "show_line (SignalLine s) = '' '' @ show_signal s"
| "show_line (OtherLine l) = l"

definition show_database :: "dbc_line list \<Rightarrow> string" where
  "show_database ls = concat (map (\<lambda>l. show_line l @ [newline]) ls)"

definition wf_message :: "message_line \<Rightarrow> bool" where
  "wf_message m \<longleftrightarrow> word (ml_name m) \<and> word (ml_tx m) \<and> ml_id m < 2 ^ 64 \<and> ml_dlc m \<le> 64"

definition wf_signal :: "signal_line \<Rightarrow> bool" where
  "wf_signal s \<longleftrightarrow>
     word (sl_name s) \<and> last (sl_name s) \<noteq> CHR '':'' \<and>
     (case sl_mux s of None \<Rightarrow> True | Some m \<Rightarrow> m = ''M'' \<or> word m \<and> hd m = CHR ''m'') \<and>
     sl_start s < 2 ^ 64 \<and> sl_len s < 2 ^ 64 \<and> \<not> is_space (sl_order s) \<and>
     wf_decimal (sl_factor s) \<and> wf_decimal (sl_offset s) \<and> wf_decimal (sl_min s) \<and> wf_decimal (sl_max s) \<and>
     decimal_double (sl_factor s) \<noteq> None \<and> decimal_double (sl_offset s) \<noteq> None \<and>
     quote \<notin> set (sl_unit s) \<and> newline \<notin> set (sl_unit s) \<and> word (sl_receiver s)"

fun wf_line :: "dbc_line \<Rightarrow> bool" where
  "wf_line (MessageLine m) = wf_message m"
| "wf_line (SignalLine s) = wf_signal s"
| "wf_line (OtherLine l) =
     (newline \<notin> set l \<and> \<not> starts_with ''BO_ '' (trim l) \<and> \<not> starts_with ''SG_ '' (trim l))"

section \<open>What the lines stand for\<close>

definition message_of :: "message_line \<Rightarrow> DbcMessage" where
  "message_of m = \<lparr>dm_id = of_nat (ml_id m), dm_name = ml_name m, dm_dlc = of_nat (ml_dlc m),
                   dm_tx_node = ml_tx m, dm_signals = []\<rparr>"

definition signal_of :: "signal_line \<Rightarrow> Signal" where
  "signal_of s =
     (let (mn, mx) = (case (decimal_double (sl_min s), decimal_double (sl_max s)) of
                        (Some a, Some b) \<Rightarrow> (a, b) | _ \<Rightarrow> (dzero, dzero))
      in \<lparr>sg_name = sl_name s, sg_start_bit = of_nat (sl_start s),
          sg_length = of_nat (min 64 (sl_len s mod 2 ^ 32)),
          sg_factor = the (decimal_double (sl_factor s)), sg_offset = the (decimal_double (sl_offset s)),
          sg_min_value = mn, sg_max_value = mx, sg_unit = sl_unit s, sg_is_signed = sl_signed s,
          sg_little_endian = (sl_order s = CHR ''0'')\<rparr>)"

definition add_signal :: "Signal \<Rightarrow> DbcMessage \<Rightarrow> DbcMessage" where
  "add_signal g m = m\<lparr>dm_signals := dm_signals m @ [g]\<rparr>"

text \<open>The messages so far are extended line by line; a signal belongs to the last of them.\<close>

fun meaning :: "dbc_line list \<Rightarrow> DbcMessage list \<Rightarrow> bool \<times> string option \<times> DbcMessage list" where
  "meaning [] ms = (True, None, ms)"
| "meaning (MessageLine m # ls) ms = meaning ls (ms @ [message_of m])"
| "meaning (SignalLine s # ls) ms =
     (if ms = [] then (False, Some ''SG_ line before any BO_ message'', ms)
      else meaning ls (butlast ms @ [add_signal (signal_of s) (last ms)]))"
| "meaning (OtherLine l # ls) ms = meaning ls ms"

lemma word_colon: "word w \<Longrightarrow> word (w @ '':'')"
  by (auto simp: word_def is_space_def)

lemma newline_not_word: "word w \<Longrightarrow> newline \<notin> set w"
  by (auto simp: word_def)

lemma word_fmt_u [simp]: "word (fmt_u n)"
  by (rule word_digits [OF digits_fmt_u]) simp

lemma parse_bo_message:
  assumes "wf_message m"
  shows "parse_bo (show_message m) ms = Inr (ms @ [message_of m])"
proof -
  have w: "word (ml_name m)" "word (ml_tx m)" and i: "ml_id m < 2 ^ 64" and d: "ml_dlc m \<le> 64"
    using assms by (simp_all add: wf_message_def)
  have r: "drop 4 (show_message m)
      = fmt_u (ml_id m) @ CHR '' '' # (ml_name m @ '':'') @ CHR '' '' # fmt_u (ml_dlc m) @ CHR '' '' # ml_tx m"
    by (simp add: show_message_def)
  have dlc: "parse_u32 (fmt_u (ml_dlc m)) = Some (of_nat (ml_dlc m))"
    using d by (simp add: parse_u32_fmt_u)
  have u: "unat (of_nat (ml_dlc m) :: u32) = ml_dlc m"
    by (rule unat_of_nat_id) (use d in simp)
  have c: "ucast (of_nat (ml_dlc m) :: u32) = (of_nat (ml_dlc m) :: u8)"
    by transfer (simp add: take_bit_of_nat flip: of_nat_take_bit)
  show ?thesis
    unfolding parse_bo_def parse_bo_name_def r
    using i d [unfolded not_less [symmetric]] by (simp add: word_colon w dlc u c parse_u32_fmt_u i d BT_BUS_MAX_PAYLOAD_def message_of_def
        read_word_word [of "ml_name m @ '':''", simplified append_assoc append.simps] del: unat_of_nat)
qed

lemma parse_sg_name_signal:
  assumes "wf_signal s" and "r = CHR '' '' # r'"
  shows "parse_sg_name (''SG_ '' @ sl_name s @ (case sl_mux s of Some m \<Rightarrow> '' '' @ m | None \<Rightarrow> []) @ '' :'' @ r)
       = Inr (sl_name s, r)"
proof -
  have n: "word (sl_name s)" "last (sl_name s) \<noteq> CHR '':''" using assms by (simp_all add: wf_signal_def)
  have c: "read_word (CHR '':'' # r) = Some ('':'', r)"
    using read_word_word [of "'':''" r] by (simp add: assms(2) word_def is_space_def)
  show ?thesis
  proof (cases "sl_mux s")
    case None
    then show ?thesis by (simp add: parse_sg_name_def n c)
  next
    case (Some m)
    then have "m = ''M'' \<or> word m \<and> hd m = CHR ''m''" using assms(1) by (simp add: wf_signal_def)
    then have m: "word m" "m = ''M'' \<or> take 1 m = ''m''" "m \<noteq> '':''"
      by (auto simp: word_def is_space_def take_Suc)
    then show ?thesis by (auto simp: parse_sg_name_def n c Some)
  qed
qed

lemma parse_geometry_signal:
  assumes "wf_signal s"
  shows "parse_geometry (show_geometry s) =
     Inr (of_nat (sl_start s), of_nat (min 64 (sl_len s mod 2 ^ 32)), sl_order s = CHR ''0'', sl_signed s)"
proof -
  let ?a = "fmt_u (sl_start s)" and ?b = "fmt_u (sl_len s)"
  let ?t = "[sl_order s, if sl_signed s then CHR ''-'' else CHR ''+'']"
  let ?g = "show_geometry s"
  have g: "?g = ?a @ CHR ''|'' # ?b @ CHR ''@'' # ?t" by (simp add: show_geometry_def)
  have nb: "CHR ''|'' \<notin> set ?a" "CHR ''@'' \<notin> set ?a" "CHR ''@'' \<notin> set ?b"
    using digits_fmt_u digit_not(5,6) unfolding digits_def by blast+
  have bar: "find_char (CHR ''|'') ?g = Some (length ?a)" unfolding g using nb by simp
  have ap: "find_char (CHR ''@'') ?g = Some (length ?a + length ?b + 1)"
    using find_char_append [of "CHR ''@''" "?a @ CHR ''|'' # ?b" ?t] nb by (simp add: g)
  have s1: "substr ?g 0 (length ?a) = ?a" and
    s2: "substr ?g (length ?a + 1) (length ?a + length ?b + 1 - length ?a - 1) = ?b"
    by (simp_all add: substr_def g)
  have o1: "?g ! (length ?a + length ?b + 1 + 1) = sl_order s"
    and o2: "?g ! (length ?a + length ?b + 1 + 2) = (if sl_signed s then CHR ''-'' else CHR ''+'')"
    by (simp_all add: g nth_append)
  have lt: "sl_start s < 2 ^ 64" "sl_len s < 2 ^ 64" using assms by (simp_all add: wf_signal_def)
  have st: "ucast ((of_nat n :: u32) AND 0xFF) = (of_nat n :: u8)" for n
  proof -
    have "(0xFF :: u32) = mask 8" by (simp add: mask_numeral)
    then have "(of_nat n :: u32) AND 0xFF = take_bit 8 (of_nat n)" by (simp only: take_bit_eq_mask)
    then show ?thesis by simp (transfer, simp add: take_bit_of_nat flip: of_nat_take_bit)
  qed
  have len: "(if unat (of_nat n :: u32) > 64 then 64 else ucast (of_nat n :: u32)) = (of_nat (min 64 (n mod 2 ^ 32)) :: u8)" for n
  proof -
    have u: "unat (of_nat n :: u32) = n mod 2 ^ 32" by (simp add: unsigned_of_nat take_bit_eq_mod)
    have "(of_nat (unat (of_nat n :: u32)) :: u8) = ucast (of_nat n :: u32)" by (rule of_nat_unat)
    then have "ucast (of_nat n :: u32) = (of_nat (n mod 2 ^ 32) :: u8)" unfolding u by (rule sym)
    then show ?thesis unfolding u by (simp add: min_def)
  qed
  show ?thesis
    unfolding parse_geometry_def bar ap prod.case option.case s1 s2 o1 o2
    using lt by (simp add: parse_u32_fmt_u st len g)
qed

lemma parse_scaling_signal:
  assumes "wf_signal s"
  shows "parse_scaling (show_scaling s) = Inr (the (decimal_double (sl_factor s)), the (decimal_double (sl_offset s)))"
proof -
  let ?f = "show_decimal (sl_factor s)" and ?o = "show_decimal (sl_offset s)"
  have w: "wf_decimal (sl_factor s)" "wf_decimal (sl_offset s)" using assms by (simp_all add: wf_signal_def)
  note nf = show_decimal_not [OF w(1)] and no = show_decimal_not [OF w(2)]
  let ?p = "show_scaling s"
  have p: "?p = CHR ''('' # (?f @ CHR '','' # ?o) @ CHR '')'' # []" by (simp add: show_scaling_def)
  have lp: "find_char (CHR ''('') ?p = Some 0" by (simp add: p)
  have rp: "find_char (CHR '')'') ?p = Some (length ?f + length ?o + 2)"
    using find_char_append [of "CHR '')''" "CHR ''('' # ?f @ CHR '','' # ?o" "[]"] nf(4) no(4) by (simp add: p)
  have inner: "substr ?p (0 + 1) (length ?f + length ?o + 2 - 0 - 1) = ?f @ CHR '','' # ?o"
    by (simp add: p substr_def)
  have comma: "find_char (CHR '','') (?f @ CHR '','' # ?o) = Some (length ?f)" using nf(2) by simp
  have a: "substr (?f @ CHR '','' # ?o) 0 (length ?f) = ?f" by (simp add: substr_def)
  have b: "drop (length ?f + 1) (?f @ CHR '','' # ?o) = ?o" by simp
  show ?thesis
    unfolding parse_scaling_def lp rp prod.case option.case inner Let_def comma a b
      parse_double_decimal [OF w(1)] parse_double_decimal [OF w(2)]
    using assms by (auto simp: wf_signal_def)
qed

lemma parse_range_signal:
  assumes "wf_signal s"
  shows "parse_range (show_range s) =
     (case (decimal_double (sl_min s), decimal_double (sl_max s)) of
        (Some a, Some b) \<Rightarrow> Some (a, b) | _ \<Rightarrow> None)"
proof -
  let ?f = "show_decimal (sl_min s)" and ?o = "show_decimal (sl_max s)"
  have w: "wf_decimal (sl_min s)" "wf_decimal (sl_max s)" using assms by (simp_all add: wf_signal_def)
  note nf = show_decimal_not [OF w(1)] and no = show_decimal_not [OF w(2)]
  let ?p = "show_range s"
  have p: "?p = CHR ''['' # (?f @ CHR ''|'' # ?o) @ CHR '']'' # []" by (simp add: show_range_def)
  have rb: "find_char (CHR '']'') ?p = Some (length ?f + length ?o + 2)"
    using find_char_append [of "CHR '']''" "CHR ''['' # ?f @ CHR ''|'' # ?o" "[]"] nf(5) no(5) by (simp add: p)
  have inner: "substr ?p 1 (length ?f + length ?o + 2 - 1) = ?f @ CHR ''|'' # ?o"
    by (simp add: p substr_def)
  have bar: "find_char (CHR ''|'') (?f @ CHR ''|'' # ?o) = Some (length ?f)" using nf(1) by simp
  have a: "substr (?f @ CHR ''|'' # ?o) 0 (length ?f) = ?f" by (simp add: substr_def)
  have b: "drop (length ?f + 1) (?f @ CHR ''|'' # ?o) = ?o" by simp
  have h: "?p \<noteq> [] \<and> hd ?p = CHR ''[''" by (simp add: p)
  show ?thesis
    unfolding parse_range_def if_P [OF h] rb option.case inner Let_def bar a b
      parse_double_decimal [OF w(1)] parse_double_decimal [OF w(2)] ..
qed

lemma word_show_scaling: "wf_signal s \<Longrightarrow> word (show_scaling s)"
  using show_decimal_not(6) [of "sl_factor s"] show_decimal_not(6) [of "sl_offset s"]
  by (auto simp: word_def show_scaling_def wf_signal_def is_space_def)

lemma word_show_range: "wf_signal s \<Longrightarrow> word (show_range s)"
  using show_decimal_not(6) [of "sl_min s"] show_decimal_not(6) [of "sl_max s"]
  by (auto simp: word_def show_range_def wf_signal_def is_space_def)

lemma word_show_geometry: "wf_signal s \<Longrightarrow> word (show_geometry s)"
  using word_fmt_u [of "sl_start s"] word_fmt_u [of "sl_len s"]
  by (auto simp: word_def show_geometry_def wf_signal_def is_space_def simp del: word_fmt_u)

lemma trim_tail:
  assumes "word w" and "x \<noteq> []" and "\<not> blank (hd x)" and "\<forall>c\<in>set p. blank c"
  shows "trim (p @ x @ w) = x @ w"
proof -
  have "\<not> blank (last (x @ w))" using word_hd_last [OF assms(1)] wordD(1) [OF assms(1)] blank_space by auto
  then show ?thesis using trim_pad [of "x @ w" p "[]"] assms by (simp add: hd_append)
qed

lemma parse_unit_quoted:
  assumes "quote \<notin> set u"
  shows "parse_unit (quote # u @ quote # r) = u"
  using find_char_append [OF assms, of r] by (simp add: parse_unit_def substr_def quote_def)

lemma line_of_no_newline: "newline \<notin> set s \<Longrightarrow> line_of s = s"
  by (auto simp: line_of_def takeWhile_eq_all_conv)

lemma parse_sg_signal:
  assumes "wf_signal s"
  shows "parse_sg (show_signal s) m = Inr (add_signal (signal_of s) m)"
proof -
  let ?tail = "CHR '' '' # (quote # sl_unit s @ quote # '' '') @ sl_receiver s"
  let ?r2 = "CHR '' '' # show_scaling s @ CHR '' '' # show_range s @ ?tail"
  let ?r1 = "CHR '' '' # show_geometry s @ ?r2"
  have u: "quote \<notin> set (sl_unit s)" "newline \<notin> set (sl_unit s)" and rc: "word (sl_receiver s)"
    using assms by (simp_all add: wf_signal_def)
  have "show_signal s =
      ''SG_ '' @ sl_name s @ (case sl_mux s of Some m \<Rightarrow> '' '' @ m | None \<Rightarrow> []) @ '' :'' @ ?r1"
    by (simp add: show_signal_def)
  then have n: "parse_sg_name (show_signal s) = Inr (sl_name s, ?r1)"
    using parse_sg_name_signal [OF assms refl] by simp
  have w1: "read_word ?r1 = Some (show_geometry s, ?r2)"
    and w2: "read_word ?r2 = Some (show_scaling s, CHR '' '' # show_range s @ ?tail)"
    and w3: "read_word (CHR '' '' # show_range s @ ?tail) = Some (show_range s, ?tail)"
    by (simp_all add: word_show_geometry word_show_scaling word_show_range assms)
  have "newline \<notin> set ?tail"
    using u(2) newline_not_word [OF rc] by (simp add: quote_def newline_def char_of_eq_iff)
  then have l: "line_of ?tail = ?tail" by (rule line_of_no_newline)
  have "trim ?tail = quote # sl_unit s @ quote # CHR '' '' # sl_receiver s"
    using trim_tail [OF rc, of "quote # sl_unit s @ quote # '' ''" "'' ''"] by (simp add: quote_def blank_def)
  then have t: "parse_unit (trim (line_of ?tail)) = sl_unit s"
    unfolding l by (simp add: parse_unit_quoted [OF u(1)])
  show ?thesis
    unfolding parse_sg_def n sum.case prod.case w1 w2 w3 option.case parse_geometry_signal [OF assms]
      parse_scaling_signal [OF assms] Let_def t parse_range_signal [OF assms]
    by (cases "decimal_double (sl_min s)"; cases "decimal_double (sl_max s)")
       (simp_all add: add_signal_def signal_of_def)
qed

section \<open>Whole files\<close>

lemma trim_show_message:
  assumes "wf_message m"
  shows "trim (show_message m) = show_message m"
proof -
  have "word (ml_tx m)" using assms by (simp add: wf_message_def)
  from trim_tail [OF this, of "''BO_ '' @ fmt_u (ml_id m) @ '' '' @ ml_name m @ '': '' @ fmt_u (ml_dlc m) @ '' ''" "[]"]
  show ?thesis by (simp add: show_message_def blank_def)
qed

lemma trim_show_signal:
  assumes "wf_signal s"
  shows "trim ('' '' @ show_signal s) = show_signal s"
proof -
  let ?x = "''SG_ '' @ sl_name s @ (case sl_mux s of Some m \<Rightarrow> '' '' @ m | None \<Rightarrow> []) @ '' : '' @
     show_geometry s @ '' '' @ show_scaling s @ '' '' @ show_range s @ '' '' @
     [quote] @ sl_unit s @ [quote] @ '' ''"
  have "word (sl_receiver s)" using assms by (simp add: wf_signal_def)
  from trim_tail [OF this, of ?x "'' ''"]
  show ?thesis by (simp add: show_signal_def blank_def)
qed

lemma parse_line_shown:
  assumes "wf_line l"
  shows "parse_line (trim (show_line l)) ms =
     (case l of
        MessageLine m \<Rightarrow> Inr (ms @ [message_of m])
      | SignalLine s \<Rightarrow>
          if ms = [] then Inl ''SG_ line before any BO_ message''
          else Inr (butlast ms @ [add_signal (signal_of s) (last ms)])
      | OtherLine t \<Rightarrow> Inr ms)"
proof (cases l)
  case (MessageLine m)
  then have m: "wf_message m" using assms by simp
  have "parse_line (show_message m) ms = parse_bo (show_message m) ms"
    by (simp add: parse_line_def show_message_def starts_with_def)
  then show ?thesis by (simp add: MessageLine trim_show_message [OF m] parse_bo_message [OF m])
next
  case (SignalLine s)
  then have s: "wf_signal s" using assms by simp
  have "parse_line (show_signal s) ms =
      (if ms = [] then Inl ''SG_ line before any BO_ message''
       else case parse_sg (show_signal s) (last ms) of Inl e \<Rightarrow> Inl e | Inr m \<Rightarrow> Inr (butlast ms @ [m]))"
    by (simp add: parse_line_def show_signal_def starts_with_def)
  then show ?thesis
    using trim_show_signal [OF s] by (simp add: SignalLine parse_sg_signal [OF s])
next
  case (OtherLine t)
  then show ?thesis using assms by (simp add: parse_line_def)
qed

lemma parse_lines_shown:
  assumes "\<forall>l\<in>set ls. wf_line l"
  shows "parse_lines (map show_line ls) ms = meaning ls ms"
  using assms
proof (induction ls arbitrary: ms)
  case (Cons l ls)
  then have "parse_line (trim (show_line l)) ms = (case l of
        MessageLine m \<Rightarrow> Inr (ms @ [message_of m])
      | SignalLine s \<Rightarrow>
          if ms = [] then Inl ''SG_ line before any BO_ message''
          else Inr (butlast ms @ [add_signal (signal_of s) (last ms)])
      | OtherLine t \<Rightarrow> Inr ms)" by (intro parse_line_shown) simp
  then show ?case using Cons by (cases l) (simp_all del: show_line.simps)
qed simp

lemma newline_not_fmt_u [simp]: "newline \<notin> set (fmt_u n)"
  by (rule newline_not_word) simp

lemma show_line_one_line: "wf_line l \<Longrightarrow> newline \<notin> set (show_line l)"
proof (cases l)
  case (MessageLine m)
  moreover assume "wf_line l"
  ultimately have "word (ml_name m)" "word (ml_tx m)" by (simp_all add: wf_message_def)
  then show ?thesis
    using MessageLine newline_not_word by (auto simp: show_message_def newline_def char_of_eq_iff)
next
  case (SignalLine s)
  moreover assume "wf_line l"
  ultimately have s: "wf_signal s" by simp
  then have "word (sl_name s)" "word (sl_receiver s)" "newline \<notin> set (sl_unit s)"
    and "newline \<notin> set (case sl_mux s of Some m \<Rightarrow> '' '' @ m | None \<Rightarrow> [])"
    using newline_not_word by (auto simp: wf_signal_def newline_def char_of_eq_iff split: option.splits)
  moreover have "word (show_geometry s)" "word (show_scaling s)" "word (show_range s)"
    using s by (simp_all add: word_show_geometry word_show_scaling word_show_range)
  ultimately show ?thesis
    using SignalLine newline_not_word
    by (auto simp: show_signal_def newline_def char_of_eq_iff quote_def)
qed simp

lemma dbc_parse_shown:
  assumes "\<forall>l\<in>set ls. wf_line l"
  shows "dbc_parse old (show_database ls) = meaning ls []"
proof -
  have "lines_of (show_database ls) = map show_line ls"
    using lines_of_text [of "map show_line ls"] show_line_one_line assms
    by (auto simp: show_database_def comp_def)
  then show ?thesis using parse_lines_shown [OF assms, of "[]"] by (simp add: dbc_parse_def dbc_clear_def)
qed

text \<open>C8: Reading a database file. Whatever the parser held before, a file whose lines are message lines, signal lines and lines of
  other kinds is read as exactly the messages and signals it states, in the order of the file: each
  signal belongs to the last message before it, a multiplexer mark is dropped, lines of other kinds
  have no influence, a length above 64 is cut to 64 and numbers beyond the field's width lose their
  high bits, factors and ranges are the nearest doubles of the printed decimals, and byte order
  \<^verbatim>\<open>0\<close> is little endian. A signal before the first message ends the parse with its error, and the
  messages read so far stay.\<close>

theorem dbc_parse_document:
  assumes "\<forall>l\<in>set ls. wf_line l"
  shows "dbc_parse old (show_database ls) = meaning ls []"
  using assms by (rule dbc_parse_shown)

text \<open>Numbers in a database are read modulo 2^32. A decimal numeral is refused only from 2^64 on;
  in between, the parser accepts it and silently drops the high bits, so an identifier of more than
  32 bits is read as a different identifier.\<close>

theorem parse_u32_truncates:
  "parse_u32 (fmt_u n) =
     (if n < 2 ^ 32 then Some (of_nat n)
      else if n < 2 ^ 64 then Some (of_nat (n mod 2 ^ 32)) else None)"
proof -
  have "of_nat (n mod 2 ^ 32) = (of_nat n :: u32)"
    by (simp add: word_of_nat_eq_iff take_bit_eq_mod)
  then show ?thesis by (simp add: parse_u32_fmt_u)
qed

section \<open>Arbitrary text\<close>

text \<open>What holds of every message the parser keeps, whatever the text.\<close>

definition sane_signal :: "Signal \<Rightarrow> bool" where
  "sane_signal g \<longleftrightarrow>
     unat (sg_length g) \<le> 64 \<and> (\<forall>c\<in>set (sg_name g). \<not> is_space c) \<and> quote \<notin> set (sg_unit g)"

definition sane_message :: "DbcMessage \<Rightarrow> bool" where
  "sane_message m \<longleftrightarrow>
     unat (dm_dlc m) \<le> 64 \<and> (\<forall>c\<in>set (dm_name m). \<not> is_space c) \<and>
     (\<forall>c\<in>set (dm_tx_node m). \<not> is_space c) \<and> (\<forall>g\<in>set (dm_signals m). sane_signal g)"

lemma read_word_chars: "read_word s = Some (w, r) \<Longrightarrow> \<forall>c\<in>set w. \<not> is_space c"
  using read_word_is_word by (auto simp: word_def)

lemma read_word_butlast: "read_word s = Some (w, r) \<Longrightarrow> \<forall>c\<in>set (butlast w). \<not> is_space c"
  using read_word_chars by (fastforce dest: in_set_butlastD)

lemma ucast_u8_le:
  assumes "unat (d :: u32) \<le> 64"
  shows "unat (ucast d :: u8) \<le> 64"
  by (simp add: unsigned_ucast_eq le_trans [OF take_bit_nat_less_eq_self assms])

lemma parse_bo_name_chars:
  "parse_bo_name n s = Some (n', r) \<Longrightarrow> \<forall>c\<in>set n. \<not> is_space c \<Longrightarrow> \<forall>c\<in>set n'. \<not> is_space c"
  by (auto simp: parse_bo_name_def dest: in_set_butlastD split: option.splits if_splits)

lemma parse_bo_sane:
  assumes "parse_bo l ms = Inr ms'" and "\<forall>m\<in>set ms. sane_message m"
  shows "\<forall>m\<in>set ms'. sane_message m"
  using assms
  by (auto simp: parse_bo_def sane_message_def BT_BUS_MAX_PAYLOAD_def not_less ucast_u8_le
      split: option.splits if_splits prod.splits)
     (metis parse_bo_name_chars read_word_chars)+

lemma find_char_Some: "find_char c s = Some i \<Longrightarrow> c \<notin> set (take i s)"
  by (induction s arbitrary: i) (auto split: if_splits)

lemma parse_unit_no_quote: "quote \<notin> set (parse_unit r)"
proof (cases "r \<noteq> [] \<and> hd r = quote")
  case True
  then have "parse_unit r = (case find_char quote (drop 1 r) of Some q \<Rightarrow> take q (drop 1 r) | None \<Rightarrow> [])"
    by (simp add: parse_unit_def quote_def substr_def cong: option.case_cong)
  then show ?thesis using find_char_Some by (auto split: option.split)
next
  case False
  then have "parse_unit r = []" unfolding parse_unit_def quote_def by (rule if_not_P)
  then show ?thesis by simp
qed

lemma parse_geometry_len:
  assumes "parse_geometry g = Inr (start, len, little, neg)"
  shows "unat len \<le> 64"
  using assms by (auto simp: parse_geometry_def not_less ucast_u8_le split: option.splits if_splits)

lemma parse_sg_name_chars: "parse_sg_name l = Inr (n, r) \<Longrightarrow> \<forall>c\<in>set n. \<not> is_space c"
  by (auto simp: parse_sg_name_def dest: read_word_chars read_word_butlast
      split: option.splits if_splits prod.splits)

lemma parse_sg_sane:
  assumes "parse_sg l m = Inr m'" and "sane_message m"
  shows "sane_message m'"
  using assms
  by (auto simp: parse_sg_def Let_def sane_message_def sane_signal_def parse_unit_no_quote
      split: option.splits sum.splits prod.splits)
     (erule parse_geometry_len, metis parse_sg_name_chars)+

lemma parse_line_sane:
  assumes "parse_line t ms = Inr ms'" and "\<forall>m\<in>set ms. sane_message m"
  shows "\<forall>m\<in>set ms'. sane_message m"
proof -
  have "parse_bo t ms = Inr ms' \<or> ms' = ms \<or>
      (\<exists>m. ms \<noteq> [] \<and> parse_sg t (last ms) = Inr m \<and> ms' = butlast ms @ [m])"
    using assms(1) unfolding parse_line_def
    by (cases "parse_sg t (last ms)") (simp_all split: if_splits)
  then consider (bo) "parse_bo t ms = Inr ms'" | (same) "ms' = ms"
    | (sg) m where "ms \<noteq> []" "parse_sg t (last ms) = Inr m" "ms' = butlast ms @ [m]"
    by blast
  then show ?thesis
  proof cases
    case bo
    then show ?thesis using parse_bo_sane assms(2) by blast
  next
    case same
    then show ?thesis using assms(2) by simp
  next
    case sg
    then have "sane_message m" using parse_sg_sane [OF sg(2)] assms(2) by simp
    then show ?thesis using sg assms(2) by (auto dest: in_set_butlastD)
  qed
qed

lemma parse_lines_sane:
  assumes "parse_lines ls ms = (ok, err, ms')" and "\<forall>m\<in>set ms. sane_message m"
  shows "(ok \<longleftrightarrow> err = None) \<and> (\<forall>m\<in>set ms'. sane_message m)"
  using assms
proof (induction ls arbitrary: ms)
  case (Cons l ls)
  show ?case
  proof (cases "parse_line (trim l) ms")
    case (Inl e)
    then show ?thesis using Cons.prems by auto
  next
    case (Inr ms2)
    then show ?thesis using Cons.IH [of ms2] Cons.prems parse_line_sane [OF Inr] by simp
  qed
qed auto

text \<open>C32: Whatever the text, also when the parse fails half way: the parser ends with an error message
  exactly if it fails, and every message it then holds has a length code of at most 64, names
  without white space, and signals of at most 64 bits with units that contain no quote. The caller's
  error string is overwritten exactly on failure, and a null pointer for it changes nothing else.\<close>

theorem dbc_parse_sane:
  assumes "dbc_parse old t = (ok, err, ms)"
  shows "(ok \<longleftrightarrow> err = None) \<and> (\<forall>m\<in>set ms. sane_message m) \<and>
    dbc_parse_into old t error = (ok, if ok then error else map_option (\<lambda>_. the err) error, ms)"
  using parse_lines_sane [of "lines_of t" "[]"] assms
  by (auto simp: dbc_parse_def dbc_clear_def dbc_parse_into_def set_error_def)

section \<open>Instances\<close>

lemma to_double_exact:
  assumes "x = of_int m * pow2 e" and "0 \<le> m" and "m < 2 ^ 53" and "- 1074 \<le> e" and "x < 2 ^ 1024"
  shows "to_double neg x = Some (DFin neg x)"
  using round_mag_exact [OF assms(1-4)] assms(5) by (simp add: to_double_def round64_def)

definition nat_decimal :: "nat \<Rightarrow> decimal" where
  "nat_decimal n = \<lparr>dc_neg = False, dc_int = n, dc_frac = []\<rparr>"

lemma decimal_double_nat:
  assumes "n < 2 ^ 53"
  shows "decimal_double (nat_decimal n) = Some (DFin False (of_nat n))"
proof -
  have "(of_nat n :: rat) < of_nat (2 ^ 53)" using assms by (simp only: of_nat_less_iff)
  also have "\<dots> \<le> 2 ^ 1024" by simp
  finally have "to_double False (of_nat n) = Some (DFin False (of_nat n))"
    using assms by (intro to_double_exact [where m = "int n" and e = 0]) auto
  then show ?thesis by (simp add: decimal_double_def decimal_rat_def nat_decimal_def number_of_def)
qed

definition half_decimal :: decimal where
  "half_decimal = \<lparr>dc_neg = False, dc_int = 0, dc_frac = ''5''\<rparr>"

lemma decimal_double_half: "decimal_double half_decimal = Some (DFin False (1 / 2))"
proof -
  have "(1 / 2 :: rat) < 2 ^ 1024" by (simp add: less_le_trans [of _ 1])
  then have "to_double False (1 / 2) = Some (DFin False (1 / 2))"
    by (intro to_double_exact [where m = 1 and e = "- 1"]) (simp_all add: pow2_def)
  then show ?thesis
    by (simp add: decimal_double_def decimal_rat_def half_decimal_def number_of_def digit_value_def)
qed

definition engine_speed :: signal_line where
  "engine_speed =
     \<lparr>sl_name = ''Speed'', sl_mux = Some ''m1'', sl_start = 0, sl_len = 16, sl_order = CHR ''0'',
      sl_signed = False, sl_factor = half_decimal, sl_offset = nat_decimal 0, sl_min = nat_decimal 0,
      sl_max = nat_decimal 8000, sl_unit = ''r / min'', sl_receiver = ''ECU2''\<rparr>"

definition engine_data :: message_line where
  "engine_data = \<lparr>ml_id = 256, ml_name = ''EngineData'', ml_dlc = 8, ml_tx = ''ECU1''\<rparr>"

definition sample_database :: "dbc_line list" where
  "sample_database =
     [OtherLine ''VERSION'', MessageLine engine_data, SignalLine engine_speed,
      MessageLine (engine_data\<lparr>ml_id := 2 ^ 32 + 5\<rparr>), OtherLine ''CM_ SG_'']"

lemma wf_sample: "\<forall>l\<in>set sample_database. wf_line l"
proof -
  have "wf_message engine_data" "wf_message (engine_data\<lparr>ml_id := 2 ^ 32 + 5\<rparr>)"
    by (simp_all add: wf_message_def engine_data_def word_def is_space_def)
  moreover have "wf_decimal half_decimal" "wf_decimal (nat_decimal n)" for n
    by (simp_all add: wf_decimal_def half_decimal_def nat_decimal_def digits_def is_digit_def digit_value_def)
  then have "wf_signal engine_speed"
    by (simp add: wf_signal_def engine_speed_def decimal_double_nat decimal_double_half word_def
        is_space_def quote_def newline_def char_of_eq_iff)
  moreover have "wf_line (OtherLine ''VERSION'')" "wf_line (OtherLine ''CM_ SG_'')"
    by (simp_all add: newline_def char_of_eq_iff trim_def blank_def starts_with_def)
  ultimately show ?thesis by (simp add: sample_database_def)
qed

theorem dbc_parse_document_witness:
  "dbc_parse [] (show_database sample_database) =
     (True, None, [add_signal (signal_of engine_speed) (message_of engine_data),
                   message_of (engine_data\<lparr>ml_id := 2 ^ 32 + 5\<rparr>)])"
  using dbc_parse_document [OF wf_sample] by (simp add: sample_database_def)

text \<open>A message and then, in a new file, a signal without a message.\<close>

lemma parse_failing_sample:
  "\<exists>e. dbc_parse [message_of engine_data] (show_database [SignalLine engine_speed]) = (False, Some e, [])"
proof -
  have "\<forall>l\<in>set [SignalLine engine_speed]. wf_line l" using wf_sample by (simp add: sample_database_def)
  from dbc_parse_shown [OF this] show ?thesis by simp
qed

theorem dbc_parse_sane_witness:
  "\<exists>e. dbc_parse_into [message_of engine_data] (show_database [SignalLine engine_speed]) None = (False, None, []) \<and>
     dbc_parse_into [message_of engine_data] (show_database [SignalLine engine_speed]) (Some ''old'') = (False, Some e, [])"
proof -
  obtain e where e: "dbc_parse [message_of engine_data] (show_database [SignalLine engine_speed]) = (False, Some e, [])"
    using parse_failing_sample by blast
  from dbc_parse_sane [OF e, of None] dbc_parse_sane [OF e, of "Some ''old''"] show ?thesis by simp
qed

end
