(* ===== verification/TimedLoops.thy ===== *)
theory TimedLoops
  imports Prelude
begin

text \<open>
  Loops that poll a clock. A \<^verbatim>\<open>while\<close> loop with a faulting body is a partial function (\<^const>\<open>None\<close>: it
  does not return); the clock is a sequence of readings, and the state counts how many were taken.
\<close>

partial_function (option) while_res :: "('s \<Rightarrow> bool) \<Rightarrow> ('s \<Rightarrow> 's res) \<Rightarrow> 's \<Rightarrow> 's res option" where
  "while_res b c s =
     (if b s then case c s of Inl e \<Rightarrow> Some (Inl e) | Inr s' \<Rightarrow> while_res b c s'
      else Some (Inr s))"

text \<open>Sequencing of results that may not return.\<close>

fun bindo :: "'a res option \<Rightarrow> ('a \<Rightarrow> 'b res option) \<Rightarrow> 'b res option" where
  "bindo None f = None"
| "bindo (Some (Inl e)) f = Some (Inl e)"
| "bindo (Some (Inr x)) f = f x"

type_synonym clock = "nat \<Rightarrow> u64"

text \<open>Total correctness: an invariant and a measure that falls with every turn.\<close>

lemma while_res_total:
  assumes "I s"
    and "\<And>s. I s \<Longrightarrow> b s \<Longrightarrow> \<exists>s'. c s = Inr s' \<and> I s' \<and> (m s' :: nat) < m s"
  shows "\<exists>s'. while_res b c s = Some (Inr s') \<and> I s' \<and> \<not> b s'"
  using assms(1)
proof (induction s rule: measure_induct_rule [of m])
  case (less s)
  show ?case
  proof (cases "b s")
    case True
    then obtain s' where s: "c s = Inr s'" "I s'" "m s' < m s" using assms(2) less.prems by blast
    show ?thesis
      using less.IH [OF s(3,2)] True s(1) by (subst while_res.simps) simp
  next
    case False
    then show ?thesis using less.prems by (subst while_res.simps) simp
  qed
qed

text \<open>
  A clock on which deadlines pass: after every reading there come three successive ones that are
  at least \<open>d\<close> later (no turn of the loops below takes more than three).
\<close>

definition passes :: "clock \<Rightarrow> u64 \<Rightarrow> bool" where
  "passes clk d \<longleftrightarrow> (\<forall>i. \<exists>j\<ge>i. \<forall>k\<in>{j..j + 2}. clk i + d \<le> clk k)"

lemma passes_end:
  assumes "passes clk d"
  obtains j where "i \<le> j" and "clk i + d \<le> clk j" and "clk i + d \<le> clk (j + 1)" and "clk i + d \<le> clk (j + 2)"
  using assms unfolding passes_def by (metis atLeastAtMost_iff le_add1 le_add2 add_le_cancel_left
      one_le_numeral order_refl)

end
