(* ===== verification/Bench.thy ===== *)
theory Bench
  imports TimedLoops Doubles HostCodec CaptureService
begin

text \<open>
  The benchmark of the host data path (\<^verbatim>\<open>bench/bench.cpp\<close>): four timed stages and the acceptance
  gate. The steady clock is a sequence of readings and each stage says how many it takes; the
  capture thread of the last stage is a schedule, the poll cycles that complete before each turn of
  the consumer's loop.
\<close>

section \<open>The code\<close>

definition clamp_duration :: "double \<Rightarrow> double" where
  "clamp_duration s = (if dlt s (of_rat64 (1 / 10)) then of_rat64 (1 / 10) else s)"

definition kMaxDataPkt :: "nat \<Rightarrow> nat" where
  "kMaxDataPkt e = BT_USB_HEADER_SIZE + BT_USB_FRAMES_PER_PACKET * sizeof_frame e"

definition bench_frame :: bt_bus_frame where
  "bench_frame = zero_frame
     \<lparr>f_timestamp := 1000000000, f_type := BT_BUS_CANFD, f_channel := 0, f_dir := BT_DIR_RX,
      f_id := 0x123, f_extended := 0, f_fd := 1, f_dlc := 8,
      f_data := map of_nat [0..<8] @ replicate 56 0, f_status := BT_FRAME_OK\<rparr>"

record BenchReport =
  br_duration_s :: double
  br_frames :: u64
  br_pipeline_throughput :: double
  br_latency_avg_us :: double
  br_latency_max_us :: double
  br_dropped :: u64
  br_codec_frames :: u64
  br_codec_throughput :: double
  br_e2e_frames :: u64
  br_e2e_throughput :: double
  br_e2e_latency_avg_us :: double
  br_e2e_latency_max_us :: double
  br_e2e_dropped :: u64
  br_sim_rate_achieved :: double

definition new_BenchReport :: BenchReport where
  "new_BenchReport =
     \<lparr>br_duration_s = dzero, br_frames = 0, br_pipeline_throughput = dzero, br_latency_avg_us = dzero,
      br_latency_max_us = dzero, br_dropped = 0, br_codec_frames = 0, br_codec_throughput = dzero,
      br_e2e_frames = 0, br_e2e_throughput = dzero, br_e2e_latency_avg_us = dzero,
      br_e2e_latency_max_us = dzero, br_e2e_dropped = 0, br_sim_rate_achieved = dzero\<rparr>"

definition pass_throughput :: "BenchReport \<Rightarrow> bool" where
  "pass_throughput r \<longleftrightarrow> dle (DFin False 50000) (br_pipeline_throughput r)"

definition pass_latency :: "BenchReport \<Rightarrow> bool" where
  "pass_latency r \<longleftrightarrow> dlt (br_e2e_latency_avg_us r) (DFin False 1000)"

definition pass_loss_accounting :: "BenchReport \<Rightarrow> bool" where
  "pass_loss_accounting r \<longleftrightarrow> br_dropped r = 0 \<or> br_frames r + br_dropped r \<ge> br_frames r"

definition giga :: double where "giga = DFin False 1000000000"

text \<open>A stage's deadline, its length in seconds, and a rate over it.\<close>

definition deadline_of :: "u64 \<Rightarrow> double \<Rightarrow> u64 res" where
  "deadline_of t0 dur = bindr (dto_u64 (dmul dur giga)) (\<lambda>d. Inr (t0 + d))"

definition seconds :: "u64 \<Rightarrow> double" where "seconds d = ddiv (dof_u64 d) giga"

definition per_second :: "u64 \<Rightarrow> double \<Rightarrow> double" where
  "per_second n s = ddiv (dof_u64 n) (if dlt dzero s then s else done1)"

definition microseconds :: "u64 \<Rightarrow> double" where "microseconds d = ddiv (dof_u64 d) (DFin False 1000)"

subsection \<open>Stage 1: push and pop\<close>

record stage1 =
  s1_pipe :: Pipeline
  s1_n :: u64
  s1_sum :: double
  s1_max :: double
  s1_now :: u64
  s1_clk :: nat

definition stage1_turn :: "clock \<Rightarrow> bt_bus_frame \<Rightarrow> stage1 \<Rightarrow> stage1 res" where
  "stage1_turn clk proto s =
     bindr (push (s1_pipe s) proto) (\<lambda>(ok, pipe).
     bindr
       (if ok then
          bindr (pop pipe True) (\<lambda>(r, pipe).
            case r of
              Some f \<Rightarrow>
                let us = microseconds (clk (s1_clk s + 1) - clk (s1_clk s)) in
                Inr (s\<lparr>s1_pipe := pipe, s1_sum := dadd (s1_sum s) us,
                       s1_max := (if dlt (s1_max s) us then us else s1_max s),
                       s1_n := s1_n s + 1, s1_clk := s1_clk s + 2\<rparr>)
            | None \<Rightarrow> Inr (s\<lparr>s1_pipe := pipe, s1_n := s1_n s + 1, s1_clk := s1_clk s + 1\<rparr>))
        else Inr (s\<lparr>s1_pipe := pipe\<rparr>)) (\<lambda>s.
     Inr (s\<lparr>s1_now := clk (s1_clk s), s1_clk := s1_clk s + 1\<rparr>)))"

definition run_stage1 :: "clock \<Rightarrow> nat \<Rightarrow> double \<Rightarrow> bt_bus_frame \<Rightarrow> BenchReport \<Rightarrow> (BenchReport \<times> nat) res option" where
  "run_stage1 clk i dur proto r =
     (let t0 = clk i in
      bindo (Some (deadline_of t0 dur)) (\<lambda>deadline.
      bindo (while_res (\<lambda>s. s1_now s < deadline) (stage1_turn clk proto)
               \<lparr>s1_pipe = new_Pipeline 65536, s1_n = 0, s1_sum = dzero, s1_max = dzero, s1_now = t0,
                s1_clk = i + 1\<rparr>) (\<lambda>s.
      let dur_s = seconds (s1_now s - t0) in
      Some (Inr (r\<lparr>br_duration_s := dur_s, br_frames := s1_n s,
                   br_pipeline_throughput := per_second (s1_n s) dur_s,
                   br_latency_avg_us := (if s1_n s > 0 then ddiv (s1_sum s) (dof_u64 (s1_n s))
                                         else br_latency_avg_us r),
                   br_latency_max_us := s1_max s\<rparr>, s1_clk s)))))"

subsection \<open>Stage 2: overflow\<close>

text \<open>\<open>n\<close> rounds are left; the count of refusals is kept but not used, as in the code.\<close>

fun overflow_loop :: "nat \<Rightarrow> Pipeline \<Rightarrow> bt_bus_frame \<Rightarrow> u64 \<Rightarrow> (Pipeline \<times> u64) res" where
  "overflow_loop 0 tiny proto expected = Inr (tiny, expected)"
| "overflow_loop (Suc n) tiny proto expected =
     bindr (push tiny proto) (\<lambda>(ok, tiny).
     overflow_loop n tiny proto (if \<not> ok then expected + 1 else expected))"

definition run_stage2 :: "bt_bus_frame \<Rightarrow> BenchReport \<Rightarrow> BenchReport res" where
  "run_stage2 proto r =
     bindr (overflow_loop 1000 (new_Pipeline 16) proto 0) (\<lambda>(tiny, expected).
     Inr (r\<lparr>br_dropped := pl_dropped tiny\<rparr>))"

subsection \<open>Stage 3: the codec\<close>

record stage3 =
  s3_pkt :: "byte list"
  s3_decoded :: "byte list"
  s3_n :: u64
  s3_break :: bool
  s3_clk :: nat

text \<open>A turn, after the reading that let it begin; \<open>proto\<close> is the frame as an object in memory.\<close>

definition stage3_turn :: "nat \<Rightarrow> byte list \<Rightarrow> stage3 \<Rightarrow> stage3 res" where
  "stage3_turn e proto s =
     (let s = s\<lparr>s3_clk := s3_clk s + 1\<rparr> in
      bindr (encode_data e (Some (s3_pkt s)) (kMaxDataPkt e) (Some proto) 1 0) (\<lambda>(enc, pkt).
      let s = s\<lparr>s3_pkt := the pkt\<rparr> in
      if enc = 0 then Inr (s\<lparr>s3_break := True\<rparr>)
      else
        bindr (decode_data e (Some (s3_pkt s)) enc (Some (s3_decoded s)) BT_USB_FRAMES_PER_PACKET) (\<lambda>(dec, out, _).
        let s = s\<lparr>s3_decoded := the out\<rparr> in
        if dec \<noteq> 1 then Inr (s\<lparr>s3_break := True\<rparr>)
        else Inr (s\<lparr>s3_n := s3_n s + 1\<rparr>))))"

text \<open>
  The buffers start with whatever the stack holds. Leaving the loop by its condition takes one more
  reading, leaving it by \<^verbatim>\<open>break\<close> does not.
\<close>

definition run_stage3 ::
  "nat \<Rightarrow> clock \<Rightarrow> nat \<Rightarrow> double \<Rightarrow> byte list \<Rightarrow> byte list \<Rightarrow> byte list \<Rightarrow> BenchReport \<Rightarrow>
   (BenchReport \<times> nat) res option" where
  "run_stage3 e clk i dur proto pkt decoded r =
     (let t0 = clk i in
      bindo (Some (deadline_of t0 dur)) (\<lambda>deadline.
      bindo (while_res (\<lambda>s. \<not> s3_break s \<and> clk (s3_clk s) < deadline) (stage3_turn e proto)
               \<lparr>s3_pkt = pkt, s3_decoded = decoded, s3_n = 0, s3_break = False, s3_clk = i + 1\<rparr>) (\<lambda>s.
      let j = (if s3_break s then s3_clk s else s3_clk s + 1) in
      Some (Inr (r\<lparr>br_codec_frames := s3_n s,
                   br_codec_throughput := per_second (s3_n s) (seconds (clk j - t0))\<rparr>, j + 1)))))"

subsection \<open>Stage 4: device to consumer\<close>

text \<open>
  \<open>sched k\<close> lists the poll cycles of the capture thread (with the two clock readings of each read of
  the device) that complete before the consumer's \<open>k\<close>-th turn.
\<close>

type_synonym schedule = "nat \<Rightarrow> (u64 \<times> u64) list"

fun worker_cycles :: "(u64 \<times> u64) list \<Rightarrow> SimUsbDevice Capture \<Rightarrow> SimUsbDevice Capture res" where
  "worker_cycles [] c = Inr c"
| "worker_cycles ((t1, t2) # ts) c =
     bindr (capture_cycle sim_read_frames t1 t2 c) (\<lambda>(c, _). worker_cycles ts c)"

record stage4 =
  s4_cap :: "SimUsbDevice Capture"
  s4_consumed :: u64
  s4_sum :: double
  s4_max :: double
  s4_turn :: nat
  s4_clk :: nat

definition stage4_turn :: "clock \<Rightarrow> schedule \<Rightarrow> stage4 \<Rightarrow> stage4 res" where
  "stage4_turn clk sched s =
     (let s = s\<lparr>s4_clk := s4_clk s + 1, s4_turn := s4_turn s + 1\<rparr> in
      bindr (worker_cycles (sched (s4_turn s)) (s4_cap s)) (\<lambda>cap.
      bindr (pop (cs_pipe cap) True) (\<lambda>(r, pipe).
      let s = s\<lparr>s4_cap := cap\<lparr>cs_pipe := pipe\<rparr>\<rparr> in
      case r of
        None \<Rightarrow> Inr s
      | Some out \<Rightarrow>
          let us = microseconds (clk (s4_clk s) - f_timestamp out * 100);
              s = s\<lparr>s4_clk := s4_clk s + 1, s4_consumed := s4_consumed s + 1\<rparr>
          in if dle dzero us
             then Inr (s\<lparr>s4_sum := dadd (s4_sum s) us,
                         s4_max := (if dlt (s4_max s) us then us else s4_max s)\<rparr>)
             else Inr s)))"

definition run_stage4 ::
  "clock \<Rightarrow> nat \<Rightarrow> schedule \<Rightarrow> double \<Rightarrow> u32 \<Rightarrow> BenchReport \<Rightarrow> (BenchReport \<times> nat) res option" where
  "run_stage4 clk i sched dur sim_rate r =
     (let dev = snd (sim_open (clk i) (new_SimUsbDevice (default_SimConfig\<lparr>sc_rate := sim_rate\<rparr>)));
          cap = snd (capture_start sim_is_open sim_open 0 (new_Capture dev (new_Pipeline (2 ^ 20))));
          t0 = clk (i + 1) in
      bindo (Some (deadline_of t0 dur)) (\<lambda>deadline.
      bindo (while_res (\<lambda>s. clk (s4_clk s) < deadline) (stage4_turn clk sched)
               \<lparr>s4_cap = cap, s4_consumed = 0, s4_sum = dzero, s4_max = dzero, s4_turn = 0,
                s4_clk = i + 2\<rparr>) (\<lambda>s.
      let sec = seconds (clk (s4_clk s + 1) - t0) in
      bindo (Some (worker_cycles (sched (s4_turn s + 1)) (s4_cap s))) (\<lambda>cap.
      let cap = capture_stop cap in
      Some (Inr (r\<lparr>br_e2e_frames := s4_consumed s,
                   br_e2e_throughput := per_second (s4_consumed s) sec,
                   br_e2e_latency_avg_us := (if s4_consumed s > 0
                       then ddiv (s4_sum s) (dof_u64 (s4_consumed s)) else br_e2e_latency_avg_us r),
                   br_e2e_latency_max_us := s4_max s,
                   br_e2e_dropped := pl_dropped (cs_pipe cap),
                   br_sim_rate_achieved := per_second (sim_generated (cs_dev cap)) sec\<rparr>,
                 s4_clk s + 2))))))"

subsection \<open>The suite\<close>

text \<open>
  \<open>e\<close> and \<open>pad\<close> describe the frame structure's layout and padding, \<open>pkt\<close> and \<open>decoded\<close> the two stack
  buffers.
\<close>

definition run_bench_suite ::
  "nat \<Rightarrow> (nat \<Rightarrow> byte) \<Rightarrow> byte list \<Rightarrow> byte list \<Rightarrow> clock \<Rightarrow> schedule \<Rightarrow> double \<Rightarrow> u32 \<Rightarrow> BenchReport res option" where
  "run_bench_suite e pad pkt decoded clk sched duration_s sim_rate =
     (let dur = clamp_duration duration_s in
      bindo (run_stage1 clk 0 dur bench_frame new_BenchReport) (\<lambda>(r, i).
      bindo (Some (run_stage2 bench_frame r)) (\<lambda>r.
      bindo (run_stage3 e clk i dur (frame_repr e pad bench_frame) pkt decoded r) (\<lambda>(r, i).
      bindo (run_stage4 clk i sched dur sim_rate r) (\<lambda>(r, i).
      Some (Inr r))))))"

section \<open>Every stage returns\<close>

lemma stage1_turn_ok:
  assumes "pl_head (s1_pipe s) = pl_tail (s1_pipe s)" and "shape (s1_pipe s)"
  shows "\<exists>s'. stage1_turn clk proto s = Inr s' \<and> pl_head (s1_pipe s') = pl_tail (s1_pipe s') \<and>
     shape (s1_pipe s') \<and> s1_n s' = s1_n s + 1 \<and> s1_clk s' = s1_clk s + 3 \<and>
     s1_now s' = clk (s1_clk s + 2)"
proof -
  let ?p = "s1_pipe s"
  have c: "pl_capacity ?p > 0" and b: "length (pl_buf ?p) = unat (pl_capacity ?p)"
    using assms(2) by (simp_all add: shape_def)
  have room: "\<not> pl_capacity ?p \<le> pl_tail ?p - pl_head ?p" using c assms(1) by (simp add: not_le)
  let ?q = "?p\<lparr>pl_buf := (pl_buf ?p)[slot ?p (pl_tail ?p) := proto], pl_tail := pl_tail ?p + 1\<rparr>"
  have p1: "push ?p proto = Inr (True, ?q)"
    using room slot_less [OF assms(2)] by (simp add: push_def Let_def)
  have p2: "pop ?q True = Inr (Some proto, ?q\<lparr>pl_head := pl_head ?p + 1\<rparr>)"
    using slot_less [OF assms(2)] assms(1) by (simp add: pop_def slot_def Let_def)
  have "shape (?q\<lparr>pl_head := pl_head ?p + 1\<rparr>)"
    using assms by (simp add: shape_def pl_size_def)
  then show ?thesis
    using p1 p2 assms(1) by (simp add: stage1_turn_def Let_def)
qed

lemma deadline_of_Inr: "dto_u64 (dmul dur giga) = Inr d \<Longrightarrow> deadline_of t0 dur = Inr (t0 + d)"
  by (simp add: deadline_of_def)

lemma stage1_returns:
  assumes "passes clk d" and "dto_u64 (dmul dur giga) = Inr d"
  shows "\<exists>r' j. run_stage1 clk i dur bench_frame r = Some (Inr (r', j)) \<and>
     br_e2e_latency_avg_us r' = br_e2e_latency_avg_us r"
proof -
  obtain j where j: "i \<le> j" and w: "clk i + d \<le> clk j" "clk i + d \<le> clk (j + 1)" "clk i + d \<le> clk (j + 2)"
    using passes_end [OF assms(1)] .
  let ?I = "\<lambda>s :: stage1. pl_head (s1_pipe s) = pl_tail (s1_pipe s) \<and> shape (s1_pipe s) \<and>
     (\<exists>k. s1_clk s = k + 1 \<and> s1_now s = clk k \<and> k \<le> j + 2)"
  let ?s = "\<lparr>s1_pipe = new_Pipeline 65536, s1_n = 0, s1_sum = dzero, s1_max = dzero, s1_now = clk i,
             s1_clk = i + 1\<rparr>"
  have "\<exists>s'. while_res (\<lambda>s. s1_now s < clk i + d) (stage1_turn clk bench_frame) ?s = Some (Inr s') \<and>
      ?I s' \<and> \<not> s1_now s' < clk i + d"
  proof (rule while_res_total [where I = ?I and m = "\<lambda>s. j + 4 - s1_clk s"])
    show "?I ?s"
      using j fresh_inv [of 0 65536] by (auto simp: pl_inv_def) (simp_all add: new_Pipeline_def)
  next
    fix s :: stage1
    assume I: "?I s" and b: "s1_now s < clk i + d"
    then obtain k where k: "s1_clk s = k + 1" "s1_now s = clk k" "k \<le> j + 2" by blast
    then have "k \<noteq> j" "k \<noteq> j + 1" "k \<noteq> j + 2" using b w by (auto simp: not_le [symmetric])
    then have lt: "k < j" using k(3) by linarith
    obtain s' where s': "stage1_turn clk bench_frame s = Inr s'" "pl_head (s1_pipe s') = pl_tail (s1_pipe s')"
      "shape (s1_pipe s')" "s1_clk s' = s1_clk s + 3" "s1_now s' = clk (s1_clk s + 2)"
      using stage1_turn_ok I by blast
    have "?I s'" using s' k lt by (auto intro!: exI [of _ "Suc (Suc (Suc k))"] simp: numeral_3_eq_3)
    then show "\<exists>s'. stage1_turn clk bench_frame s = Inr s' \<and> ?I s' \<and> j + 4 - s1_clk s' < j + 4 - s1_clk s"
      using s' k lt by auto
  qed
  then show ?thesis
    by (auto simp: run_stage1_def Let_def deadline_of_Inr [OF assms(2)])
qed

lemma overflow_loop_fold:
  "pl_inv n p \<Longrightarrow> \<exists>ex'. overflow_loop n p f ex = Inr (fold (\<lambda>x s. snd (pl_enq s x)) (replicate n f) p, ex')"
proof (induction n arbitrary: p ex)
  case (Suc n)
  have "push p f = Inr (pl_enq p f)" using push_enq Suc.prems by (simp add: pl_inv_def)
  moreover have "pl_inv n (snd (pl_enq p f))" using ring.enq_cases [OF Suc.prems] by blast
  ultimately show ?case using Suc.IH by (simp add: case_prod_beta)
qed simp

lemma stage2_drops: "\<exists>r'. run_stage2 f r = Inr r' \<and> br_dropped r' = 984 \<and>
    br_e2e_latency_avg_us r' = br_e2e_latency_avg_us r \<and> br_frames r' = br_frames r"
proof -
  let ?p = "new_Pipeline 16" and ?q = "fold (\<lambda>x s. snd (pl_enq s x)) (replicate 1000 f) (new_Pipeline 16)"
  have i: "pl_inv 1000 ?p" by (rule fresh_inv) simp
  have "unat (pl_capacity ?p) = 16" using capacity_fresh [of 16] by simp
  then have "pl_dropped ?q = of_nat 984"
    using ring.enq_batch [of "replicate 1000 f" ?p] i fresh_dropped [of 16] by simp
  then show ?thesis
    using overflow_loop_fold [OF i, of f 0] by (auto simp: run_stage2_def)
qed

text \<open>The codec stage never breaks: a frame it encodes it also decodes.\<close>

lemma stage3_turn_ok:
  assumes "e = 4 \<or> e = 1" and "length (s3_pkt s) = kMaxDataPkt e" and "length proto = sizeof_frame e"
    and "length (s3_decoded s) = 16 * sizeof_frame e"
  shows "\<exists>s'. stage3_turn e proto s = Inr s' \<and> length (s3_pkt s') = kMaxDataPkt e \<and>
     length (s3_decoded s') = 16 * sizeof_frame e \<and> s3_break s' = s3_break s \<and>
     s3_n s' = s3_n s + 1 \<and> s3_clk s' = s3_clk s + 1"
proof -
  let ?k = "sizeof_frame e" and ?m = "s3_pkt s" and ?d = "s3_decoded s"
  let ?w = "packet_wire BT_PKT_DATA 0 proto"
  have cap: "kMaxDataPkt e = 12 + 16 * ?k"
    by (simp add: kMaxDataPkt_def BT_USB_HEADER_SIZE_def BT_USB_FRAMES_PER_PACKET_def)
  have k: "0 < ?k" "?k < 2 ^ 16" using sizeof_frame_pos [OF assms(1)] frame_bytes_lt [OF _ assms(1), of 1] by simp_all
  have enc: "encode_data e (Some ?m) (kMaxDataPkt e) (Some proto) 1 0 = Inr (12 + ?k, Some (patch ?m 0 ?w))"
    using encode_data_spec [of "kMaxDataPkt e" ?m 1 e proto 0] assms(2,3) k cap by simp
  have lw: "length ?w = 12 + ?k" by (simp add: packet_wire_def assms(3))
  have lp: "length (patch ?m 0 ?w) = length ?m" using lw assms(2) cap by (intro length_patch) simp
  have w: "take (12 + length proto) (patch ?m 0 ?w) = ?w"
    using patch_prefix [of ?w ?m] lw assms(2,3) cap by simp
  have "decode_data e (Some (patch ?m 0 ?w)) (12 + ?k) (Some ?d) 16
      = Inr (1, Some (proto @ drop (length proto) ?d), Some 0)"
    using decode_data_wire [OF w, of "12 + ?k" 16 e ?d] assms k lp cap by simp
  then show ?thesis
    using enc assms lp k by (simp add: stage3_turn_def BT_USB_FRAMES_PER_PACKET_def)
qed

lemma stage3_returns:
  assumes "passes clk d" and "dto_u64 (dmul dur giga) = Inr d" and "e = 4 \<or> e = 1"
    and "length pkt = kMaxDataPkt e" and "length decoded = 16 * sizeof_frame e"
  shows "\<exists>r' j. run_stage3 e clk i dur (frame_repr e pad bench_frame) pkt decoded r = Some (Inr (r', j)) \<and>
     br_dropped r' = br_dropped r \<and> br_frames r' = br_frames r \<and>
     br_e2e_latency_avg_us r' = br_e2e_latency_avg_us r"
proof -
  obtain j where j: "i \<le> j" and w: "clk i + d \<le> clk j" "clk i + d \<le> clk (j + 1)" "clk i + d \<le> clk (j + 2)"
    using passes_end [OF assms(1)] .
  let ?p = "frame_repr e pad bench_frame"
  have "wf_frame bench_frame"
    by (simp add: wf_frame_def bench_frame_def zero_frame_def BT_BUS_MAX_PAYLOAD_def)
  then have lp: "length ?p = sizeof_frame e" using length_frame_repr assms(3) by blast
  let ?I = "\<lambda>s :: stage3. length (s3_pkt s) = kMaxDataPkt e \<and> length (s3_decoded s) = 16 * sizeof_frame e \<and>
     \<not> s3_break s \<and> s3_clk s \<le> j + 2"
  let ?s = "\<lparr>s3_pkt = pkt, s3_decoded = decoded, s3_n = 0, s3_break = False, s3_clk = i + 1\<rparr>"
  have "\<exists>s'. while_res (\<lambda>s. \<not> s3_break s \<and> clk (s3_clk s) < clk i + d) (stage3_turn e ?p) ?s = Some (Inr s') \<and>
      ?I s' \<and> \<not> (\<not> s3_break s' \<and> clk (s3_clk s') < clk i + d)"
  proof (rule while_res_total [where I = ?I and m = "\<lambda>s. j + 3 - s3_clk s"])
    show "?I ?s" using j assms(4,5) by simp
  next
    fix s :: stage3
    assume I: "?I s" and b: "\<not> s3_break s \<and> clk (s3_clk s) < clk i + d"
    then have "s3_clk s \<noteq> j" "s3_clk s \<noteq> j + 1" "s3_clk s \<noteq> j + 2" using w by (auto simp: not_le [symmetric])
    then have lt: "s3_clk s < j" using I by linarith
    show "\<exists>s'. stage3_turn e ?p s = Inr s' \<and> ?I s' \<and> j + 3 - s3_clk s' < j + 3 - s3_clk s"
      using stage3_turn_ok [OF assms(3) _ lp, of s] I lt by auto
  qed
  then show ?thesis
    by (auto simp: run_stage3_def Let_def deadline_of_Inr [OF assms(2)])
qed

text \<open>In the last stage the queue is only known to keep its shape, which is enough.\<close>

lemma shape_push: "shape p \<Longrightarrow> \<exists>ok p'. push p f = Inr (ok, p') \<and> shape p'"
  using size_pushed [of p f]
  by (auto simp: push_cases shape_def word_le_nat_alt pushed_state_def pl_size_def)

lemma shape_pop: "shape p \<Longrightarrow> \<exists>r p'. pop p True = Inr (r, p') \<and> shape p'"
proof -
  assume s: "shape p"
  show ?thesis
  proof (cases "unat (pl_size p)")
    case (Suc n)
    then have "unat (pl_size (popped_state p)) \<le> unat (pl_size p)" using size_popped [OF Suc] by simp
    then have "shape (popped_state p)"
      using s by (simp add: shape_def word_le_nat_alt) (simp add: popped_state_def)
    then show ?thesis using pop_cases [OF s] Suc by simp
  qed (use pop_cases [OF s] s in simp)
qed

lemma shape_offer: "shape p \<Longrightarrow> \<exists>p' a b. offer_loop fs p ps off = Inr (p', a, b) \<and> shape p'"
proof (induction fs arbitrary: p ps off)
  case (Cons f fs)
  obtain ok p' where "push p f = Inr (ok, p')" "shape p'" using shape_push [OF Cons.prems] by blast
  then show ?case using Cons.IH by simp
qed simp

definition cap_sound :: "SimUsbDevice Capture \<Rightarrow> bool" where
  "cap_sound c \<longleftrightarrow> sim_sound (cs_dev c) \<and> shape (cs_pipe c)"

lemma worker_cycles_ok: "cap_sound c \<Longrightarrow> \<exists>c'. worker_cycles ts c = Inr c' \<and> cap_sound c'"
proof (induction ts c rule: worker_cycles.induct)
  case (2 t1 t2 ts c)
  obtain fs d' where r: "sim_read_frames t1 t2 (cs_dev c) kBatchFrames = Inr (fs, d')" "sim_sound d'"
    using sim_read_spec [of "cs_dev c" t1 t2 kBatchFrames] 2(2) by (auto simp: cap_sound_def)
  obtain p' a b where o: "offer_loop fs (cs_pipe c) (cs_pushed c) (cs_offered c) = Inr (p', a, b)" "shape p'"
    using shape_offer 2(2) unfolding cap_sound_def by blast
  have "\<exists>c' x. capture_cycle sim_read_frames t1 t2 c = Inr (c', x) \<and> cap_sound c'"
    using r o 2(2) by (auto simp: capture_cycle_def cap_sound_def)
  then show ?case using 2(1) by auto
qed simp

lemma stage4_turn_ok:
  assumes "cap_sound (s4_cap s)"
  shows "\<exists>s'. stage4_turn clk sched s = Inr s' \<and> cap_sound (s4_cap s') \<and>
     s4_clk s < s4_clk s' \<and> s4_clk s' \<le> s4_clk s + 2"
proof -
  obtain c where c: "worker_cycles (sched (s4_turn s + 1)) (s4_cap s) = Inr c" "cap_sound c"
    using worker_cycles_ok [OF assms] by blast
  obtain r p where p: "pop (cs_pipe c) True = Inr (r, p)" "shape p"
    using shape_pop c(2) unfolding cap_sound_def by blast
  have "cap_sound (c\<lparr>cs_pipe := p\<rparr>)" using c(2) p(2) by (simp add: cap_sound_def)
  then show ?thesis
    using c(1) p(1) by (cases r) (simp_all add: stage4_turn_def Let_def)
qed

lemma stage4_returns:
  assumes "passes clk d" and "dto_u64 (dmul dur giga) = Inr d"
  shows "\<exists>r' j. run_stage4 clk i sched dur rate r = Some (Inr (r', j)) \<and>
     br_dropped r' = br_dropped r \<and> br_frames r' = br_frames r \<and>
     (br_e2e_frames r' = 0 \<longrightarrow> br_e2e_latency_avg_us r' = br_e2e_latency_avg_us r)"
proof -
  obtain j where j: "i + 1 \<le> j" and w: "clk (i + 1) + d \<le> clk j" "clk (i + 1) + d \<le> clk (j + 1)"
    "clk (i + 1) + d \<le> clk (j + 2)"
    using passes_end [OF assms(1)] .
  define dev where "dev = snd (sim_open (clk i) (new_SimUsbDevice (default_SimConfig\<lparr>sc_rate := rate\<rparr>)))"
  define cap where "cap = snd (capture_start sim_is_open sim_open 0 (new_Capture dev (new_Pipeline (2 ^ 20))))"
  have "sim_sound (new_SimUsbDevice (default_SimConfig\<lparr>sc_rate := rate\<rparr>))"
    by (rule new_sim_sound) (simp add: default_SimConfig_def enabled_channels_def BT_BUS_MAX_CHANNELS_def upt_rec)
  then have "sim_sound dev" by (simp add: dev_def sim_open_def sim_sound_def)
  moreover have "shape (new_Pipeline (2 ^ 20))" using fresh_inv [of 0] by (simp add: pl_inv_def)
  ultimately have cs: "cap_sound cap"
    by (simp add: cap_def cap_sound_def capture_start_def new_Capture_def Let_def sim_open_def sim_sound_def
        split: prod.splits)
  let ?I = "\<lambda>s :: stage4. cap_sound (s4_cap s) \<and> s4_clk s \<le> j + 2"
  let ?s = "\<lparr>s4_cap = cap, s4_consumed = 0, s4_sum = dzero, s4_max = dzero, s4_turn = 0, s4_clk = i + 2\<rparr>"
  have "\<exists>s'. while_res (\<lambda>s. clk (s4_clk s) < clk (i + 1) + d) (stage4_turn clk sched) ?s = Some (Inr s') \<and>
      ?I s' \<and> \<not> clk (s4_clk s') < clk (i + 1) + d"
  proof (rule while_res_total [where I = ?I and m = "\<lambda>s. j + 3 - s4_clk s"])
    show "?I ?s" using j cs by simp
  next
    fix s :: stage4
    assume I: "?I s" and b: "clk (s4_clk s) < clk (i + 1) + d"
    then have "s4_clk s \<noteq> j" "s4_clk s \<noteq> j + 1" "s4_clk s \<noteq> j + 2" using w by (auto simp: not_le [symmetric])
    then have lt: "s4_clk s < j" using I by linarith
    obtain s' where "stage4_turn clk sched s = Inr s'" "cap_sound (s4_cap s')" "s4_clk s < s4_clk s'"
      "s4_clk s' \<le> s4_clk s + 2"
      using stage4_turn_ok I by blast
    then show "\<exists>s'. stage4_turn clk sched s = Inr s' \<and> ?I s' \<and> j + 3 - s4_clk s' < j + 3 - s4_clk s"
      using lt by auto
  qed
  then obtain s' where s': "while_res (\<lambda>s. clk (s4_clk s) < clk (i + 1) + d) (stage4_turn clk sched) ?s = Some (Inr s')"
    "cap_sound (s4_cap s')" by blast
  obtain c where c: "worker_cycles (sched (s4_turn s' + 1)) (s4_cap s') = Inr c"
    using worker_cycles_ok [OF s'(2)] by blast
  show ?thesis
    unfolding run_stage4_def Let_def dev_def [symmetric] cap_def [symmetric] deadline_of_Inr [OF assms(2)]
      bindo.simps s'(1) c by simp
qed

lemma no_overflow_iff: "(a :: u64) \<le> a + b \<longleftrightarrow> unat a + unat b < 2 ^ 64"
  by (simp add: no_olen_add_nat)

text \<open>
  The \<^verbatim>\<open>us >= 0.0\<close> test of the last stage never fails: the difference is taken in unsigned
  arithmetic before it becomes a floating point number.
\<close>

lemma round_mag_nonneg: "0 \<le> x \<Longrightarrow> 0 \<le> round_mag x"
proof -
  assume x: "0 \<le> x"
  then have "0 \<le> x / pow2 (ulp_exp x)" by (simp add: less_imp_le)
  then have "0 \<le> round_even (x / pow2 (ulp_exp x))"
    by (auto simp: round_even_def Let_def)
  then show ?thesis by (simp add: round_mag_def less_imp_le)
qed

lemma skew_guard_vacuous: "dle dzero (microseconds d)"
proof -
  have n: "dle dzero (round64 False x)" if "0 \<le> x" for x
    using round_mag_nonneg [OF that] by (simp add: round64_def Let_def dzero_def)
  have "dof_u64 d = round64 False (of_nat (unat d))"
    unfolding dof_u64_def of_rat64_def by (simp del: of_nat_unat)
  then consider (inf) "dof_u64 d = DInf False" | (fin) x where "dof_u64 d = DFin False x" "0 \<le> x"
    using round_mag_nonneg [of "of_nat (unat d)", OF of_nat_0_le_iff]
    by (auto simp: round64_def Let_def simp del: of_nat_unat pow2_numeral split: if_splits)
  then show ?thesis
    by cases (simp_all add: microseconds_def dzero_def n [unfolded dzero_def])
qed

section \<open>Properties\<close>

lemma bench_returns:
  assumes "passes clk d" and "dto_u64 (dmul (clamp_duration duration) giga) = Inr d" and "e = 4 \<or> e = 1"
    and "length pkt = kMaxDataPkt e" and "length decoded = 16 * sizeof_frame e"
  shows "\<exists>r. run_bench_suite e pad pkt decoded clk sched duration rate = Some (Inr r) \<and>
     br_dropped r = 984 \<and> (pass_loss_accounting r \<longleftrightarrow> unat (br_frames r) + 984 < 2 ^ 64) \<and>
     (br_e2e_frames r = 0 \<longrightarrow> pass_latency r)"
proof -
  let ?dur = "clamp_duration duration"
  obtain r1 i1 where 1: "run_stage1 clk 0 ?dur bench_frame new_BenchReport = Some (Inr (r1, i1))"
    "br_e2e_latency_avg_us r1 = dzero"
    using stage1_returns [OF assms(1,2), of 0 new_BenchReport] by (auto simp: new_BenchReport_def)
  obtain r2 where 2: "run_stage2 bench_frame r1 = Inr r2" "br_dropped r2 = 984"
    "br_e2e_latency_avg_us r2 = dzero"
    using stage2_drops [of bench_frame r1] 1(2) by auto
  obtain r3 i3 where 3: "run_stage3 e clk i1 ?dur (frame_repr e pad bench_frame) pkt decoded r2 = Some (Inr (r3, i3))"
    "br_dropped r3 = 984" "br_e2e_latency_avg_us r3 = dzero"
    using stage3_returns [OF assms, of i1 pad r2] 2 by auto
  obtain r4 i4 where 4: "run_stage4 clk i3 sched ?dur rate r3 = Some (Inr (r4, i4))" "br_dropped r4 = 984"
    "br_e2e_frames r4 = 0 \<Longrightarrow> br_e2e_latency_avg_us r4 = dzero"
    using stage4_returns [OF assms(1,2), of i3 sched rate r3] 3 by auto
  have "run_bench_suite e pad pkt decoded clk sched duration rate = Some (Inr r4)"
    by (simp add: run_bench_suite_def Let_def 1(1) 2(1) 3(1) 4(1))
  moreover have "pass_loss_accounting r4 \<longleftrightarrow> unat (br_frames r4) + 984 < 2 ^ 64"
    by (simp add: pass_loss_accounting_def 4(2) no_overflow_iff)
  moreover have "br_e2e_frames r4 = 0 \<Longrightarrow> pass_latency r4"
    using 4(3) by (simp add: pass_latency_def dzero_def)
  ultimately show ?thesis using 4(2) by blast
qed

text \<open>C30: The benchmark always comes to an end and never faults: if the clock passes deadlines and the
  duration is one that fits the clock, the suite returns a report, for every schedule of the capture
  thread, every requested rate and both layouts of the frame structure. The overflow stage has
  dropped 984 of its 1000 frames. The loss gate cannot fail (short of a 64-bit overflow of the frame
  counter, it compares a sum with one of its terms), and the latency gate passes when the consumer
  got no frame at all.\<close>

theorem bench_suite_returns:
  assumes "passes clk d" and "dto_u64 (dmul (clamp_duration duration) giga) = Inr d" and "e = 4 \<or> e = 1"
    and "length pkt = kMaxDataPkt e" and "length decoded = 16 * sizeof_frame e"
  shows "\<exists>r. run_bench_suite e pad pkt decoded clk sched duration rate = Some (Inr r) \<and>
     br_dropped r = 984 \<and> (pass_loss_accounting r \<longleftrightarrow> unat (br_frames r) + 984 < 2 ^ 64) \<and>
     (br_e2e_frames r = 0 \<longrightarrow> pass_latency r)"
  using assms by (rule bench_returns)

text \<open>A clock that makes two turns of the first stage and then jumps to its end.\<close>

definition sample_clock :: clock where
  "sample_clock i = (if i < 4 then of_nat i else - 1)"

lemma sample_clock_passes: "passes sample_clock 1000000000"
  unfolding passes_def
proof (intro allI)
  fix i
  have "\<forall>k\<in>{max i 4..max i 4 + 2}. sample_clock i + 1000000000 \<le> sample_clock k"
    by (simp add: sample_clock_def)
  then show "\<exists>j\<ge>i. \<forall>k\<in>{j..j + 2}. sample_clock i + 1000000000 \<le> sample_clock k"
    by (intro exI [of _ "max i 4"]) simp
qed

lemma tenth: "of_rat64 (1 / 10) = DFin False (3602879701896397 / 36028797018963968)"
  by code_simp

lemma clamp_one: "clamp_duration done1 = done1"
  by (simp add: clamp_duration_def tenth done1_def)

lemma one_second: "dto_u64 (dmul done1 giga) = Inr 1000000000"
proof -
  have "round_mag 1000000000 = 1000000000"
    by (rule round_mag_exact [of _ 1000000000 0]) simp_all
  moreover have "(1000000000 :: rat) < pow2 1024" using pow2_strict_mono [of 64 1024] by simp
  ultimately have "dmul done1 giga = DFin False 1000000000"
    by (simp add: done1_def giga_def round64_def)
  then show ?thesis by simp
qed

theorem bench_suite_returns_witness:
  "\<exists>r. run_bench_suite 4 (\<lambda>_. 0) (replicate (kMaxDataPkt 4) 0) (replicate (16 * sizeof_frame 4) 0)
         sample_clock (\<lambda>_. []) done1 50000 = Some (Inr r) \<and> br_dropped r = 984"
proof -
  have d: "dto_u64 (dmul (clamp_duration done1) giga) = Inr 1000000000"
    unfolding clamp_one by (rule one_second)
  show ?thesis
    using bench_suite_returns [OF sample_clock_passes d, of 4 "replicate (kMaxDataPkt 4) 0"
        "replicate (16 * sizeof_frame 4) 0" "\<lambda>_. 0" "\<lambda>_. []" 50000]
    by (metis length_replicate)
qed

end
