(* ===== verification/Cli.thy ===== *)
theory Cli
  imports Bench Workspace CText
begin

text \<open>
  The command line program (\<^verbatim>\<open>software/src/main.cpp\<close>) and the report of the benchmark it prints: the
  text written to standard output and the exit status, for every argument vector. The version
  string is set by the build and is a parameter.
\<close>

section \<open>The code\<close>

definition lf :: string where "lf = [newline]"

record outcome =
  exit_code :: int
  stdout :: string
  stderr :: string

definition hex_u :: "nat \<Rightarrow> nat \<Rightarrow> string" where "hex_u w n = pad0 w (fmt_X n)"

text \<open>The title of the program, in UTF-8.\<close>

definition title_bytes :: string where
  "title_bytes = map char_of
     ([0xE6, 0xB1, 0xBD, 0xE8, 0xBD, 0xA6, 0xE6, 0x80, 0xBB, 0xE7, 0xBA, 0xBF, 0xE6, 0xB5, 0x8B, 0xE8,
       0xAF, 0x95, 0xE5, 0xB9, 0xB3, 0xE5, 0x8F, 0xB0] :: nat list) @
     '' PC '' @ map char_of ([0xE7, 0xAB, 0xAF, 0xE9, 0xAA, 0xA8, 0xE6, 0x9E, 0xB6] :: nat list)"

definition cmd_info :: "string \<Rightarrow> outcome" where
  "cmd_info version =
     (let (ok, dev) = null_open 0 new_NullUsbDevice in
      if \<not> ok then \<lparr>exit_code = 1, stdout = [], stderr = ''error: cannot open null device'' @ lf\<rparr>
      else \<lparr>exit_code = 0, stdout =
        ''busmon '' @ version @ '' - '' @ title_bytes @ lf @
        ''  device        : '' @ null_name @ lf @
        ''  usb protocol  : v'' @ fmt_u (unat BT_USB_PROTOCOL_VERSION) @
          '' (magic 0x'' @ hex_u 4 (unat BT_USB_MAGIC) @ '')'' @ lf @
        ''  endpoints     : EP1 IN 0x'' @ hex_u 2 (unat BT_EP_DATA_IN) @ '' data | EP2 OUT 0x'' @
          hex_u 2 (unat BT_EP_CMD_OUT) @ '' cmd | EP3 IN 0x'' @ hex_u 2 (unat BT_EP_EVT_IN) @ '' evt'' @ lf @
        ''  frames/packet : '' @ fmt_u BT_USB_FRAMES_PER_PACKET @ lf @
        ''  status        : OK (null self-test device, no hardware)'' @ lf, stderr = []\<rparr>)"

definition channel_line :: "Channel \<Rightarrow> string" where
  "channel_line c =
     ''  ch'' @ fmt_u (unat (ch_id c)) @ '' '' @ ch_name c @ '' '' @
     (if ch_enabled c then ''enabled'' else ''disabled'') @ '' (rx='' @ fmt_u (unat (ch_rx_count c)) @
     '' tx='' @ fmt_u (unat (ch_tx_count c)) @ '')'' @ lf"

text \<open>A call on the channel behind a handle.\<close>

definition on_channel :: "nat \<Rightarrow> (Channel \<Rightarrow> Channel) \<Rightarrow> Workspace \<Rightarrow> Workspace" where
  "on_channel i f w = w\<lparr>ws_channels := (ws_channels w)[i := f (ws_channels w ! i)]\<rparr>"

definition cmd_demo :: outcome where
  "cmd_demo =
     (let (ch0, ws) = add_channel empty_Workspace 0 BT_BUS_CANFD ''CAN FD #0'';
          (_, ws) = add_channel ws 1 BT_BUS_CANFD ''CAN FD #1'';
          (_, ws) = add_channel ws 2 BT_BUS_LIN ''LIN #0'';
          (n, ws) = add_node ws ''ECU_Engine'' 0 []
      in case (ch0, n) of
           (Some ch0, Some n) \<Rightarrow>
             let ws = on_channel ch0 on_frame_rx ws;
                 ws = on_channel ch0 on_frame_rx ws;
                 ws = on_channel ch0 on_frame_tx ws
             in \<lparr>exit_code = 0, stdout =
                  ''workspace channels: '' @ fmt_u (length (ws_channels ws)) @ lf @
                  concat (map (\<lambda>i. channel_line (ws_channels ws ! i)) (channels ws)) @
                  ''workspace nodes   : '' @ fmt_u (length (ws_nodes ws)) @ lf @
                  ''engines           : RBS/script/test-runner skeleton (Phase B)'' @ lf, stderr = []\<rparr>
         | _ \<Rightarrow> \<lparr>exit_code = 1, stdout = [], stderr = ''error: workspace setup failed'' @ lf\<rparr>)"

definition pass_text :: "bool \<Rightarrow> string" where
  "pass_text b = (if b then ''PASS'' else ''FAIL'')"

definition print_bench_report :: "BenchReport \<Rightarrow> string" where
  "print_bench_report r =
     ''==== busmon bench (M1 host-side acceptance) ===='' @ lf @
     ''[pipeline]   '' @ fmt_f fmt_u 0 (br_pipeline_throughput r) @ '' msg/s  ('' @
       fmt_u (unat (br_frames r)) @ '' frames / '' @ fmt_f fmt_u 2 (br_duration_s r) @ ''s)'' @ lf @
     ''[latency]    avg '' @ fmt_f fmt_u 2 (br_latency_avg_us r) @ '' us | max '' @
       fmt_f fmt_u 2 (br_latency_max_us r) @ '' us (push->pop)'' @ lf @
     ''[overflow]   '' @ fmt_u (unat (br_dropped r)) @ '' frames dropped and accounted'' @ lf @
     ''[codec]      '' @ fmt_f fmt_u 0 (br_codec_throughput r) @ '' msg/s encode+decode round-trip'' @ lf @
     ''[e2e]        '' @ fmt_f fmt_u 0 (br_e2e_throughput r) @ '' msg/s consumed | sim '' @
       fmt_f fmt_u 0 (br_sim_rate_achieved r) @ '' msg/s'' @ lf @
     ''[e2e lat]    avg '' @ fmt_f fmt_u 1 (br_e2e_latency_avg_us r) @ '' us | max '' @
       fmt_f fmt_u 1 (br_e2e_latency_max_us r) @ '' us | dropped '' @ fmt_u (unat (br_e2e_dropped r)) @ lf @
     ''---- M1 host gate ----'' @ lf @
     ''  throughput >= 50k msg/s : '' @ pass_text (pass_throughput r) @ '' ('' @
       fmt_f fmt_u 0 (br_pipeline_throughput r) @ '')'' @ lf @
     ''  latency    < 1 ms      : '' @ pass_text (pass_latency r) @ '' ('' @
       fmt_f fmt_u 1 (br_e2e_latency_avg_us r) @ '' us avg e2e)'' @ lf @
     ''  loss accounting (REQ-DIAG-001) : '' @ pass_text (pass_loss_accounting r) @ lf"

text \<open>What the run of the suite depends on besides its arguments.\<close>

record bench_env =
  be_enum :: nat
  be_pad :: "nat \<Rightarrow> byte"
  be_pkt :: "byte list"
  be_decoded :: "byte list"
  be_clock :: clock
  be_sched :: schedule

fun bench_options :: "string list \<Rightarrow> double \<Rightarrow> u32 \<Rightarrow> double \<times> u32" where
  "bench_options [] duration rate = (duration, rate)"
| "bench_options (a # as) duration rate =
     (if starts_with ''--duration='' a then bench_options as (atof (drop 11 a)) rate
      else if starts_with ''--rate='' a then bench_options as duration (atoi (drop 7 a))
      else bench_options as duration rate)"

definition cmd_bench :: "bench_env \<Rightarrow> string list \<Rightarrow> outcome res option" where
  "cmd_bench env argv =
     (let (duration, rate) = bench_options (drop 2 argv) done1 50000 in
      bindo (run_bench_suite (be_enum env) (be_pad env) (be_pkt env) (be_decoded env) (be_clock env)
               (be_sched env) duration rate) (\<lambda>r.
      Some (Inr
        \<lparr>exit_code = (if pass_throughput r \<and> pass_latency r \<and> pass_loss_accounting r then 0 else 2),
         stdout = ''running bench suite: duration='' @ fmt_f fmt_u 2 duration @ ''s sim_rate='' @
           fmt_u (unat rate) @ '' msg/s ...'' @ lf @ print_bench_report r, stderr = []\<rparr>)))"

definition cmd_usage :: "string option \<Rightarrow> outcome" where
  "cmd_usage argv0 =
     (let self = (case argv0 of Some a \<Rightarrow> if a \<noteq> [] then a else ''busmon'' | None \<Rightarrow> ''busmon'') in
      \<lparr>exit_code = 0, stdout =
        ''usage: '' @ self @ '' [--info | --demo | --bench [opts] | --help]'' @ lf @
        ''  --info   device & protocol summary (default)'' @ lf @
        ''  --demo   exercise the object model (channels/nodes)'' @ lf @
        ''  --bench  M1 host benchmark: [--duration=S] [--rate=N]'' @ lf @
        ''           exit 0 = all gates pass, 2 = gate failure'' @ lf @
        ''  --help   this message'' @ lf, stderr = []\<rparr>)"

definition cli_main :: "string \<Rightarrow> bench_env \<Rightarrow> string list \<Rightarrow> outcome res option" where
  "cli_main version env argv =
     (let cmd = (if length argv > 1 then argv ! 1 else ''--info'') in
      if cmd = ''--info'' \<or> cmd = ''-i'' then Some (Inr (cmd_info version))
      else if cmd = ''--demo'' \<or> cmd = ''-d'' then Some (Inr cmd_demo)
      else if cmd = ''--bench'' \<or> cmd = ''-b'' then cmd_bench env argv
      else Some (Inr (cmd_usage (if length argv > 0 then Some (argv ! 0) else None))))"

section \<open>Properties\<close>

definition wf_env :: "bench_env \<Rightarrow> bool" where
  "wf_env env \<longleftrightarrow> (be_enum env = 4 \<or> be_enum env = 1) \<and>
     length (be_pkt env) = kMaxDataPkt (be_enum env) \<and>
     length (be_decoded env) = 16 * sizeof_frame (be_enum env)"

text \<open>The suite in an environment, for a pair of options.\<close>

definition suite :: "bench_env \<Rightarrow> double \<times> u32 \<Rightarrow> BenchReport res option" where
  "suite env opts = run_bench_suite (be_enum env) (be_pad env) (be_pkt env) (be_decoded env)
     (be_clock env) (be_sched env) (fst opts) (snd opts)"

lemma demo_exit: "exit_code cmd_demo = 0"
  by (simp add: cmd_demo_def add_channel_def find_channel_def empty_Workspace_def add_node_def
      find_node_def new_Channel_def Let_def)

lemma info_exit: "exit_code (cmd_info v) = 0"
  by (simp add: cmd_info_def null_open_def)

lemma usage_exit: "exit_code (cmd_usage a) = 0"
  by (simp add: cmd_usage_def Let_def)

text \<open>The benchmark's options ask for this many nanoseconds, if that is a number of 64 bits.\<close>

definition asked_ns :: "string list \<Rightarrow> u64 res" where
  "asked_ns argv = dto_u64 (dmul (clamp_duration (fst (bench_options (drop 2 argv) done1 50000))) giga)"

definition asks_bench :: "string list \<Rightarrow> bool" where
  "asks_bench argv \<longleftrightarrow> length argv > 1 \<and> (argv ! 1 = ''--bench'' \<or> argv ! 1 = ''-b'')"

lemma cli_bench: "asks_bench argv \<Longrightarrow> cli_main version env argv = cmd_bench env argv"
  by (auto simp: cli_main_def asks_bench_def)

lemma bench_bad_duration:
  "dto_u64 (dmul (clamp_duration duration) giga) = Inl e \<Longrightarrow>
   run_bench_suite n pad pkt decoded clk sched duration rate = Some (Inl e)"
  by (simp add: run_bench_suite_def run_stage1_def deadline_of_def Let_def)

lemma dto_u64_error: "dto_u64 x = Inl e \<Longrightarrow> e = BadConversion"
  by (cases x) (auto simp: Let_def split: if_splits)

lemma bench_exit:
  assumes "asks_bench argv" and "asked_ns argv = Inr d" and "wf_env env" and "passes (be_clock env) d"
  shows "\<exists>res r. cli_main version env argv = Some (Inr res) \<and>
     suite env (bench_options (drop 2 argv) done1 50000) = Some (Inr r) \<and>
     exit_code res = (if pass_throughput r \<and> pass_latency r \<and> unat (br_frames r) + 984 < 2 ^ 64 then 0 else 2)"
proof -
  obtain duration rate where o: "bench_options (drop 2 argv) done1 50000 = (duration, rate)"
    by fastforce
  have e: "be_enum env = 4 \<or> be_enum env = 1" "length (be_pkt env) = kMaxDataPkt (be_enum env)"
    "length (be_decoded env) = 16 * sizeof_frame (be_enum env)"
    using assms(3) by (simp_all add: wf_env_def)
  have d: "dto_u64 (dmul (clamp_duration duration) giga) = Inr d" using assms(2) by (simp add: asked_ns_def o)
  obtain r where r: "run_bench_suite (be_enum env) (be_pad env) (be_pkt env) (be_decoded env) (be_clock env)
      (be_sched env) duration rate = Some (Inr r)"
    "pass_loss_accounting r \<longleftrightarrow> unat (br_frames r) + 984 < 2 ^ 64"
    using bench_returns [OF assms(4) d e, of "be_pad env" "be_sched env" rate] by blast
  then show ?thesis
    by (auto simp: cli_bench [OF assms(1)] cmd_bench_def o suite_def)
qed

text \<open>C31: The exit status, for every argument vector. Every command but the benchmark (an unknown
  option included) ends without a fault and with 0, whatever its arguments. The benchmark multiplies
  the duration asked for by 10^9 and converts the product to 64 bits without a check: if that is
  not defined (as for \<^verbatim>\<open>--duration=inf\<close>, see the example), its behaviour is undefined. Otherwise, on a
  clock that passes the deadlines of that duration (and with the stack buffers at their declared
  sizes), it ends without a fault, with 0 exactly if the
  measured throughput reaches 50000 and the mean latency is below 1000 microseconds, else with 2:
  short of an overflow of the frame counter the loss gate has no say. A \<^verbatim>\<open>--rate\<close> out of range is cut
  to 32 bits, as the C library does; the standard leaves it undefined.\<close>

theorem cli_exit_status:
  "if length argv > 1 \<and> (argv ! 1 = ''--bench'' \<or> argv ! 1 = ''-b'')
   then (case asked_ns argv of
       Inl e \<Rightarrow> e = BadConversion \<and> cli_main version env argv = Some (Inl BadConversion)
     | Inr d \<Rightarrow> wf_env env \<and> passes (be_clock env) d \<longrightarrow>
         (\<exists>res r. cli_main version env argv = Some (Inr res) \<and>
            suite env (bench_options (drop 2 argv) done1 50000) = Some (Inr r) \<and>
            exit_code res = (if pass_throughput r \<and> pass_latency r \<and> unat (br_frames r) + 984 < 2 ^ 64
                             then 0 else 2)))
   else \<exists>res. cli_main version env argv = Some (Inr res) \<and> exit_code res = 0"
proof (cases "asks_bench argv")
  case True
  show ?thesis
  proof (cases "asked_ns argv")
    case (Inl e)
    obtain duration rate where o: "bench_options (drop 2 argv) done1 50000 = (duration, rate)"
      by fastforce
    have e: "dto_u64 (dmul (clamp_duration duration) giga) = Inl e"
      using Inl by (simp add: asked_ns_def o)
    show ?thesis
      using True Inl dto_u64_error [OF e] cli_bench [OF True]
      by (simp add: asks_bench_def cmd_bench_def o bench_bad_duration [OF e])
  next
    case (Inr d)
    show ?thesis
      unfolding True [unfolded asks_bench_def, THEN eqTrueI] Inr if_True sum.case
      using bench_exit [OF True Inr] by blast
  qed
next
  case False
  then show ?thesis
    by (auto simp: asks_bench_def cli_main_def demo_exit info_exit usage_exit Let_def)
qed

definition sample_env :: bench_env where
  "sample_env = \<lparr>be_enum = 4, be_pad = (\<lambda>_. 0), be_pkt = replicate (kMaxDataPkt 4) 0,
     be_decoded = replicate (16 * sizeof_frame 4) 0, be_clock = sample_clock, be_sched = (\<lambda>_. [])\<rparr>"

lemma atof_inf: "atof ''inf'' = DInf False"
  by code_simp

text \<open>A benchmark of one second, one that has undefined behaviour, and an unknown option.\<close>

theorem cli_exit_status_witness:
  "(\<exists>res. cli_main ''1.0'' sample_env [''busmon'', ''--bench'', ''--rate=100''] = Some (Inr res) \<and>
      exit_code res \<in> {0, 2}) \<and>
   cli_main ''1.0'' sample_env [''busmon'', ''--bench'', ''--duration=inf''] = Some (Inl BadConversion) \<and>
   (\<exists>res. cli_main ''1.0'' sample_env [''busmon'', ''--nothing'', ''--duration=inf''] = Some (Inr res) \<and>
      exit_code res = 0)"
proof -
  have "fst (bench_options (drop 2 [''busmon'', ''--bench'', ''--rate=100'']) done1 50000) = done1"
    by (simp add: starts_with_def)
  then have d: "asked_ns [''busmon'', ''--bench'', ''--rate=100''] = Inr 1000000000"
    unfolding asked_ns_def using one_second by (simp only: clamp_one)
  have "fst (bench_options (drop 2 [''busmon'', ''--bench'', ''--duration=inf'']) done1 50000) = DInf False"
    by (simp add: starts_with_def atof_inf)
  then have u: "asked_ns [''busmon'', ''--bench'', ''--duration=inf''] = Inl BadConversion"
    unfolding asked_ns_def by (simp only:) (simp add: clamp_duration_def giga_def tenth)
  have e: "wf_env sample_env" "passes (be_clock sample_env) 1000000000"
    using sample_clock_passes by (simp_all add: wf_env_def sample_env_def)
  show ?thesis
    using cli_exit_status [of "[''busmon'', ''--bench'', ''--rate=100'']" "''1.0''" sample_env]
      cli_exit_status [of "[''busmon'', ''--bench'', ''--duration=inf'']" "''1.0''" sample_env]
      cli_exit_status [of "[''busmon'', ''--nothing'', ''--duration=inf'']" "''1.0''" sample_env] d u e
    by (auto split: if_splits)
qed

end
