(* ===== verification/Firmware.thy ===== *)
theory Firmware
  imports UsbLink
begin

text \<open>
  The firmware around the protocol handler: the driver layer (\<^verbatim>\<open>firmware/src/drivers\<close>), which at
  this commit fixes the interfaces and leaves the hardware accesses out, and the main program
  (\<^verbatim>\<open>firmware/src/main.c\<close>). \<open>'h\<close> is the state of the hardware; a driver that does nothing yet
  returns it unchanged.
\<close>

section \<open>Board and application constants\<close>

definition BOARD_HSE_HZ :: u32 where "BOARD_HSE_HZ = 25000000"
definition BOARD_SYSCLK_HZ :: u32 where "BOARD_SYSCLK_HZ = 480000000"
definition BOARD_TCXO_HZ :: u32 where "BOARD_TCXO_HZ = 10000000"
definition BOARD_CAN_CHANNELS :: u8 where "BOARD_CAN_CHANNELS = 4"
definition BOARD_FDCAN1_CH_BASE :: u8 where "BOARD_FDCAN1_CH_BASE = 0"
definition BOARD_FDCAN2_CH_BASE :: u8 where "BOARD_FDCAN2_CH_BASE = 2"
definition BOARD_LIN_CHANNELS :: u8 where "BOARD_LIN_CHANNELS = 2"
definition BOARD_LIN_UART_BASE :: u8 where "BOARD_LIN_UART_BASE = 0"
definition BOARD_USB_EP_DATA_IN :: u8 where "BOARD_USB_EP_DATA_IN = 0x81"
definition BOARD_USB_EP_CMD_OUT :: u8 where "BOARD_USB_EP_CMD_OUT = 0x02"
definition BOARD_USB_EP_EVT_IN :: u8 where "BOARD_USB_EP_EVT_IN = 0x83"
definition BOARD_USB_MPS :: nat where "BOARD_USB_MPS = 1024"
definition BOARD_USB_ULPI_ENABLE :: u32 where "BOARD_USB_ULPI_ENABLE = 1"
definition BOARD_DFU_APP_BASE :: u32 where "BOARD_DFU_APP_BASE = 0x08008000"
definition BOARD_DFU_APP_MAX_SIZE :: u32 where "BOARD_DFU_APP_MAX_SIZE = 0x8000"
definition BOARD_FPGA_REG_BASE :: u32 where "BOARD_FPGA_REG_BASE = 0x60000000"
definition BOARD_FPGA_TS_LATCH_ADDR :: u32 where "BOARD_FPGA_TS_LATCH_ADDR = 0"
definition APP_RX_PACKET_COUNT :: u32 where "APP_RX_PACKET_COUNT = 64"
definition APP_CMD_QUEUE_DEPTH :: u32 where "APP_CMD_QUEUE_DEPTH = 16"
definition APP_EVT_QUEUE_DEPTH :: u32 where "APP_EVT_QUEUE_DEPTH = 16"
definition APP_SCHED_BASE_TICK_US :: u32 where "APP_SCHED_BASE_TICK_US = 100"
definition APP_TX_JITTER_TARGET_US :: u32 where "APP_TX_JITTER_TARGET_US = 100"
definition APP_FW_NAME :: string where "APP_FW_NAME = ''bt-fw-h750''"
definition APP_FW_VERSION_MAJOR :: u32 where "APP_FW_VERSION_MAJOR = 0"
definition APP_FW_VERSION_MINOR :: u32 where "APP_FW_VERSION_MINOR = 1"
definition APP_FW_VERSION_PATCH :: u32 where "APP_FW_VERSION_PATCH = 0"

text \<open>
  The endpoint addresses are written down twice, for the board and for the protocol; they agree. The
  build-time check of the application header holds. A full data packet needs two bulk transfers.
\<close>

lemma endpoints_agree:
  "BOARD_USB_EP_DATA_IN = BT_EP_DATA_IN \<and> BOARD_USB_EP_CMD_OUT = BT_EP_CMD_OUT \<and>
   BOARD_USB_EP_EVT_IN = BT_EP_EVT_IN"
  by (simp add: BOARD_USB_EP_DATA_IN_def BT_EP_DATA_IN_def BOARD_USB_EP_CMD_OUT_def BT_EP_CMD_OUT_def
      BOARD_USB_EP_EVT_IN_def BT_EP_EVT_IN_def)

definition bt_usb_header_size_check :: bool where
  "bt_usb_header_size_check \<longleftrightarrow> BT_USB_HEADER_SIZE = 12"

lemma header_size_check_holds: "bt_usb_header_size_check"
  by (simp add: bt_usb_header_size_check_def BT_USB_HEADER_SIZE_def)

lemma packet_needs_two_transfers:
  "e = 4 \<or> e = 1 \<Longrightarrow> BOARD_USB_MPS < BT_USB_PACKET_MAX e \<and> BT_USB_PACKET_MAX e \<le> 2 * BOARD_USB_MPS"
  by (auto simp: BOARD_USB_MPS_def BT_USB_PACKET_MAX_def BT_USB_HEADER_SIZE_def
      BT_USB_FRAMES_PER_PACKET_def simp del: One_nat_def)

section \<open>Drivers\<close>

definition fdcan_init :: "u8 \<Rightarrow> u8 \<Rightarrow> 'h \<Rightarrow> 'h" where
  "fdcan_init base_channel count h = h"

definition fdcan_set_filter :: "u8 \<Rightarrow> u32 \<Rightarrow> u32 \<Rightarrow> 'h \<Rightarrow> 'h" where
  "fdcan_set_filter channel msk v h = h"

definition fdcan_send_frame :: "u8 \<Rightarrow> u32 \<Rightarrow> u8 \<Rightarrow> u8 \<Rightarrow> byte list option \<Rightarrow> u8 \<Rightarrow> 'h \<Rightarrow> int \<times> 'h" where
  "fdcan_send_frame channel i extended fd data dlc h = (-1, h)"

definition fdcan_rx_isr :: "u8 \<Rightarrow> 'h \<Rightarrow> 'h" where
  "fdcan_rx_isr channel h = h"

definition lin_init :: "u8 \<Rightarrow> u8 \<Rightarrow> 'h \<Rightarrow> 'h" where
  "lin_init base_uart count h = h"

definition lin_set_schedule :: "u8 \<Rightarrow> byte list option \<Rightarrow> u16 \<Rightarrow> 'h \<Rightarrow> 'h" where
  "lin_set_schedule channel schedule len h = h"

definition lin_send_frame :: "u8 \<Rightarrow> u8 \<Rightarrow> byte list option \<Rightarrow> u8 \<Rightarrow> 'h \<Rightarrow> int \<times> 'h" where
  "lin_send_frame channel i data len h = (-1, h)"

definition lin_rx_isr :: "u8 \<Rightarrow> 'h \<Rightarrow> 'h" where
  "lin_rx_isr channel h = h"

definition usb_device_init :: "'h \<Rightarrow> 'h" where
  "usb_device_init h = h"

text \<open>The return value, the buffer and the length variable of the caller afterwards.\<close>

definition usb_device_poll_cmd :: "byte list \<Rightarrow> u16 \<Rightarrow> u16 \<Rightarrow> 'h \<Rightarrow> int \<times> byte list \<times> u16 \<times> 'h" where
  "usb_device_poll_cmd buf cap len h = (-1, buf, len, h)"

definition usb_device_poll_tx_stream :: "'h \<Rightarrow> 'h" where
  "usb_device_poll_tx_stream h = h"

definition usb_device_send_event :: "byte list option \<Rightarrow> u16 \<Rightarrow> 'h \<Rightarrow> int \<times> 'h" where
  "usb_device_send_event evt len h = (-1, h)"

definition usb_ep2_out_isr :: "'h \<Rightarrow> 'h" where
  "usb_ep2_out_isr h = h"

definition usb_ep1_in_isr :: "'h \<Rightarrow> 'h" where
  "usb_ep1_in_isr h = h"

definition dfu_check_request :: "'h \<Rightarrow> u8 \<times> 'h" where
  "dfu_check_request h = (0, h)"

definition dfu_jump_to_bootloader :: "'h \<Rightarrow> 'h" where
  "dfu_jump_to_bootloader h = h"

definition dfu_write_block :: "u32 \<Rightarrow> byte list option \<Rightarrow> u32 \<Rightarrow> 'h \<Rightarrow> int \<times> 'h" where
  "dfu_write_block offset data len h = (-1, h)"

definition dfu_activate :: "'h \<Rightarrow> int \<times> 'h" where
  "dfu_activate h = (-1, h)"

section \<open>The main program\<close>

definition system_clock_init :: "'h \<Rightarrow> 'h" where "system_clock_init h = h"
definition gpio_init :: "'h \<Rightarrow> 'h" where "gpio_init h = h"

definition fw_boot :: "'h \<Rightarrow> 'h" where
  "fw_boot h =
     (let h = system_clock_init h;
          h = gpio_init h;
          h = fdcan_init BOARD_FDCAN1_CH_BASE (BOARD_CAN_CHANNELS div 2) h;
          h = lin_init BOARD_LIN_UART_BASE BOARD_LIN_CHANNELS h;
          h = usb_device_init h;
          (req, h) = dfu_check_request h
      in if req \<noteq> 0 then dfu_jump_to_bootloader h else h)"

text \<open>
  One turn of the endless loop, over any driver function \<open>poll\<close> for the command endpoint: \<open>cmd_buf\<close> is
  what the stack holds; the result says what the dispatcher returned, if it was called.
\<close>

definition fw_turn ::
  "(byte list \<Rightarrow> u16 \<Rightarrow> u16 \<Rightarrow> 'h \<Rightarrow> int \<times> byte list \<times> u16 \<times> 'h) \<Rightarrow> nat \<Rightarrow> byte list \<Rightarrow> 'h \<Rightarrow>
   (int option \<times> 'h) res" where
  "fw_turn poll e cmd_buf h =
     (let (rc, buf, cmd_len, h) = poll cmd_buf (of_nat (BT_USB_PACKET_MAX e)) 0 h in
      bindr (if rc = 0 \<and> cmd_len > 0
             then bindr (usb_protocol_handle_cmd (Some buf) (unat cmd_len)) (\<lambda>r. Inr (Some r))
             else Inr None) (\<lambda>r.
      Inr (r, usb_device_poll_tx_stream h)))"

text \<open>The loop for as many turns as there are stack contents.\<close>

fun fw_turns ::
  "(byte list \<Rightarrow> u16 \<Rightarrow> u16 \<Rightarrow> 'h \<Rightarrow> int \<times> byte list \<times> u16 \<times> 'h) \<Rightarrow> nat \<Rightarrow> byte list list \<Rightarrow> 'h \<Rightarrow>
   (int list \<times> 'h) res" where
  "fw_turns poll e [] h = Inr ([], h)"
| "fw_turns poll e (b # bs) h =
     bindr (fw_turn poll e b h) (\<lambda>(r, h).
     bindr (fw_turns poll e bs h) (\<lambda>(rs, h).
     Inr ((case r of Some k \<Rightarrow> [k] | None \<Rightarrow> []) @ rs, h)))"

section \<open>What the loop relies on\<close>

text \<open>
  The contract of the poll function in the driver's header: it keeps to the buffer, and on success
  it reports no more bytes than fit. A dispatcher call is then within the buffer.
\<close>

lemma packet_max_small: "e = 4 \<or> e = 1 \<Longrightarrow> 276 \<le> BT_USB_PACKET_MAX e \<and> BT_USB_PACKET_MAX e < 2 ^ 16"
  by (auto simp: BT_USB_PACKET_MAX_def BT_USB_HEADER_SIZE_def BT_USB_FRAMES_PER_PACKET_def simp del: One_nat_def)

locale command_source =
  fixes poll :: "byte list \<Rightarrow> u16 \<Rightarrow> u16 \<Rightarrow> 'h \<Rightarrow> int \<times> byte list \<times> u16 \<times> 'h"
  assumes keeps_buffer: "poll buf cap len h = (rc, buf', len', h') \<Longrightarrow> length buf' = length buf"
    and fits: "poll buf cap len h = (0, buf', len', h') \<Longrightarrow> len' \<le> cap"
begin

lemma turn_safe:
  assumes "e = 4 \<or> e = 1" and "length b = BT_USB_PACKET_MAX e"
  shows "\<exists>r h'. fw_turn poll e b h = Inr (r, h') \<and> (\<forall>k. r = Some k \<longrightarrow> k = 0 \<or> k = -1)"
proof -
  obtain rc b' l h' where p: "poll b (of_nat (BT_USB_PACKET_MAX e)) 0 h = (rc, b', l, h')"
    by (metis prod_cases4)
  show ?thesis
  proof (cases "rc = 0 \<and> l > 0")
    case True
    have u: "unat (of_nat (BT_USB_PACKET_MAX e) :: u16) = BT_USB_PACKET_MAX e"
      using packet_max_small [OF assms(1)] by (intro unat_of_nat_id) simp
    have "l \<le> of_nat (BT_USB_PACKET_MAX e)" using fits p True by blast
    then have "unat l \<le> length b'"
      using keeps_buffer [OF p] assms(2) unfolding word_le_nat_alt u by simp
    then show ?thesis
      using handle_cmd_spec [of "unat l" b'] True p by (auto simp: fw_turn_def)
  next
    case False
    then show ?thesis using p by (auto simp: fw_turn_def)
  qed
qed

lemma turns_safe:
  assumes "e = 4 \<or> e = 1" and "\<forall>b\<in>set bs. length b = BT_USB_PACKET_MAX e"
  shows "\<exists>rs h'. fw_turns poll e bs h = Inr (rs, h') \<and> length rs \<le> length bs \<and> set rs \<subseteq> {0, -1}"
  using assms(2)
proof (induction bs arbitrary: h)
  case (Cons b bs)
  obtain r h1 where r: "fw_turn poll e b h = Inr (r, h1)" "\<forall>k. r = Some k \<longrightarrow> k = 0 \<or> k = -1"
    using turn_safe [OF assms(1), of b h] Cons.prems by auto
  obtain rs h2 where rs: "fw_turns poll e bs h1 = Inr (rs, h2)" "length rs \<le> length bs" "set rs \<subseteq> {0, -1}"
    using Cons.IH [of h1] Cons.prems by auto
  show ?case using r rs by (cases r) auto
qed simp

end

interpretation stub: command_source usb_device_poll_cmd
  by unfold_locales (simp_all add: usb_device_poll_cmd_def)

lemma stub_turns: "fw_turns usb_device_poll_cmd e bs h = Inr ([], h)"
  by (induction bs) (simp_all add: fw_turn_def usb_device_poll_cmd_def usb_device_poll_tx_stream_def)

section \<open>Properties\<close>

text \<open>C14: A host command reaches the dispatcher through the main loop. Whatever driver function puts
  an encoded host command into the loop's buffer, the turn hands it to the dispatcher, which returns
  success, and every command the host can encode fits into that buffer. With the driver of this
  commit, whose poll function always reports that there is nothing, no turn of the loop ever calls
  the dispatcher or faults.\<close>

theorem command_reaches_main_loop:
  assumes "e = 4 \<or> e = 1" and "length b = BT_USB_PACKET_MAX e" and "cap \<le> length m"
    and "encode_cmd (Some m) cap cmd ch pa (Some pl) (length pl) seq = Inr (n, Some m')" and "n \<noteq> 0"
    and "poll b (of_nat (BT_USB_PACKET_MAX e)) 0 h = (0, take n m' @ drop n b, of_nat n, h')"
  shows "n \<le> BT_USB_PACKET_MAX e \<and> fw_turn poll e b h = Inr (Some 0, usb_device_poll_tx_stream h') \<and>
    fw_turns usb_device_poll_cmd e bs h0 = Inr ([], h0)"
proof -
  have ok: "length pl \<le> 256" "20 + length pl \<le> cap"
    using assms(4,5) encode_8_reject [of "length pl" cap "Some m" BT_PKT_CMD cmd ch pa "Some pl" seq]
    by (auto simp: encode_cmd_def not_less [symmetric])
  let ?w = "packet_wire BT_PKT_CMD seq (body_wire cmd ch pa pl)"
  have n: "n = 20 + length pl" and m': "m' = patch m 0 ?w"
    using assms(4) encode_8_wire [OF ok(1,2) assms(3), of pl BT_PKT_CMD cmd ch pa seq]
    by (auto simp: encode_cmd_def)
  have lw: "length ?w = n" by (simp add: packet_wire_def body_wire_def n)
  then have t: "take n m' = ?w" unfolding m' by (simp add: patch_def)
  have small: "n \<le> BT_USB_PACKET_MAX e" "BT_USB_PACKET_MAX e < 2 ^ 16"
    using packet_max_small [OF assms(1)] n ok(1) by auto
  then have u: "unat (of_nat n :: u16) = n" by (intro unat_of_nat_id) simp
  let ?b = "take n m' @ drop n b"
  have "take n ?b = ?w" "n \<le> length ?b" using lw t small(1) assms(2) by simp_all
  then have "usb_protocol_handle_cmd (Some ?b) n = Inr 0"
    using fw_handles_command [OF ok(1), of ?b seq cmd ch pa] n by simp
  moreover have "(of_nat n :: u16) > 0" using u n by (simp add: word_gt_0_no word_greater_zero_iff unat_gt_0 [symmetric])
  ultimately show ?thesis
    using small(1) u by (simp add: fw_turn_def assms(6) stub_turns)
qed

theorem command_reaches_main_loop_witness:
  "\<exists>m'. encode_cmd (Some (replicate 24 0)) 24 4 2 5 (Some [1, 2, 3, 4]) (length [1 :: byte, 2, 3, 4]) 7
         = Inr (24, Some m') \<and>
     fw_turn (\<lambda>b cap len h. (0, take 24 m' @ drop 24 b, of_nat 24, h)) 4
       (replicate (BT_USB_PACKET_MAX 4) 0) () = Inr (Some 0, ())"
proof -
  obtain m' where m': "encode_cmd (Some (replicate 24 0)) 24 4 2 5 (Some [1, 2, 3, 4])
      (length [1 :: byte, 2, 3, 4]) 7 = Inr (24, Some m')"
    using encode_8_wire [of "length [1 :: byte, 2, 3, 4]" 24 "replicate 24 0" "[1, 2, 3, 4]" BT_PKT_CMD 4 2 5 7]
    by (simp add: encode_cmd_def)
  have "24 \<le> BT_USB_PACKET_MAX 4 \<and>
      fw_turn (\<lambda>b cap len h. (0, take 24 m' @ drop 24 b, of_nat 24, h)) 4
        (replicate (BT_USB_PACKET_MAX 4) 0) () = Inr (Some 0, usb_device_poll_tx_stream ()) \<and>
      fw_turns usb_device_poll_cmd 4 [] () = Inr ([], ())"
    by (rule command_reaches_main_loop [OF _ _ _ m']) simp_all
  then show ?thesis using m' by (simp add: usb_device_poll_tx_stream_def)
qed

text \<open>The main loop is memory safe for every driver that keeps its contract: if the poll function
  stays within the buffer it is given and reports no more bytes than fit, then no run of the loop,
  whatever bytes arrive and whatever the stack holds before, reads outside the command buffer, and
  every dispatched packet is answered with success or refusal.\<close>

theorem main_loop_safe:
  assumes "command_source poll" and "e = 4 \<or> e = 1" and "\<forall>b\<in>set bs. length b = BT_USB_PACKET_MAX e"
  shows "\<exists>rs h'. fw_turns poll e bs h = Inr (rs, h') \<and> length rs \<le> length bs \<and> set rs \<subseteq> {0, -1}"
  using assms by (rule command_source.turns_safe)

theorem main_loop_safe_witness:
  "\<exists>rs h'. fw_turns usb_device_poll_cmd 4 [replicate (BT_USB_PACKET_MAX 4) 0xFF] () = Inr (rs, h') \<and>
     length rs \<le> 1 \<and> set rs \<subseteq> {0, -1}"
  using main_loop_safe [OF stub.command_source_axioms, of 4 "[replicate (BT_USB_PACKET_MAX 4) 0xFF]" "()"]
  by simp

end
