(* ===== verification/Clocked.thy ===== *)
theory Clocked
  imports Prelude
begin

text \<open>
  Synchronous logic. A Verilog module is the record of its registers; all its \<^verbatim>\<open>always\<close> blocks on one
  clock edge together are one function from the inputs and the old registers to the new ones
  (nonblocking assignments read old values). The reset is an input like any other, since every
  register that has one takes its reset value whenever it is low. \<open>clocked\<close> is a run.
\<close>

primrec clocked :: "('i \<Rightarrow> 's \<Rightarrow> 's) \<Rightarrow> (nat \<Rightarrow> 'i) \<Rightarrow> 's \<Rightarrow> nat \<Rightarrow> 's" where
  "clocked step inp s 0 = s"
| "clocked step inp s (Suc n) = step (inp n) (clocked step inp s n)"

text \<open>The last of the first \<open>n\<close> cycles at which something held.\<close>

primrec last_at :: "(nat \<Rightarrow> bool) \<Rightarrow> nat \<Rightarrow> nat option" where
  "last_at P 0 = None"
| "last_at P (Suc n) = (if P n then Some n else last_at P n)"

text \<open>A register with a write enable holds what was written last.\<close>

lemma register_last_write:
  assumes "\<And>k. r (Suc k) = (if we k then w k else r k)"
  shows "r n = (case last_at we n of None \<Rightarrow> r 0 | Some m \<Rightarrow> w m)"
  by (induction n) (simp_all add: assms)

text \<open>How often something held in the first \<open>n\<close> cycles.\<close>

primrec count_at :: "(nat \<Rightarrow> bool) \<Rightarrow> nat \<Rightarrow> nat" where
  "count_at P 0 = 0"
| "count_at P (Suc n) = count_at P n + of_bool (P n)"

lemma count_at_le: "count_at P n \<le> n"
  by (induction n) simp_all

lemma count_at_mono: "m \<le> n \<Longrightarrow> count_at P m \<le> count_at P n"
  by (induction n) (auto simp: le_Suc_eq)

end
