(* ===== verification/TimeSync.thy ===== *)
theory TimeSync
  imports Clocked
begin

text \<open>
  The time base of the device (\<^verbatim>\<open>hardware/fpga/src/timestamp_engine.v\<close>, \<^verbatim>\<open>pps_sync.v\<close>): the counter of
  100 ns ticks with its capture register, and the circuit that corrects it at every rising edge of
  a pulse per second. The last section follows the corrected counter from pulse to pulse.
\<close>

section \<open>The timestamp engine\<close>

record timestamp_engine =
  te_cnt :: u64
  te_ts_out :: u64

definition te_reset :: timestamp_engine where
  "te_reset = \<lparr>te_cnt = 0, te_ts_out = 0\<rparr>"

definition te_step :: "bool \<Rightarrow> bool \<Rightarrow> bool \<Rightarrow> u32 \<Rightarrow> timestamp_engine \<Rightarrow> timestamp_engine" where
  "te_step rst_n capture_en pps_adj_en adj_delta s =
     (if \<not> rst_n then te_reset
      else \<lparr>te_cnt = (if pps_adj_en then te_cnt s + scast adj_delta else te_cnt s + 1),
            te_ts_out = (if capture_en then te_cnt s else te_ts_out s)\<rparr>)"

section \<open>Synchronisation to the pulse per second\<close>

record pps_sync =
  ps_debounce :: "20 word"
  ps_prev :: bool
  ps_detected :: bool
  ps_adj_delta :: u32
  ps_adj_valid :: bool
  ps_last_ts :: u64

definition NOMINAL_PERIOD :: u32 where
  "NOMINAL_PERIOD = 10000000"

definition ps_reset :: pps_sync where
  "ps_reset = \<lparr>ps_debounce = 0, ps_prev = False, ps_detected = False, ps_adj_delta = 0,
     ps_adj_valid = False, ps_last_ts = 0\<rparr>"

definition pps_filtered :: "pps_sync \<Rightarrow> bool" where
  "pps_filtered s \<longleftrightarrow> ps_debounce s = - 1"

definition pps_rise :: "pps_sync \<Rightarrow> bool" where
  "pps_rise s \<longleftrightarrow> pps_filtered s \<and> \<not> ps_prev s"

text \<open>The difference is taken on 64 bits and cut to 32 by the assignment.\<close>

definition ps_step :: "bool \<Rightarrow> bool \<Rightarrow> u64 \<Rightarrow> pps_sync \<Rightarrow> pps_sync" where
  "ps_step rst_n pps_in ts_now s =
     (if \<not> rst_n then ps_reset
      else \<lparr>ps_debounce = push_bit 1 (ps_debounce s) OR of_bool pps_in,
            ps_prev = pps_filtered s,
            ps_detected = pps_rise s,
            ps_adj_delta = (if pps_rise s then ucast (scast NOMINAL_PERIOD - (ts_now - ps_last_ts s))
                            else ps_adj_delta s),
            ps_adj_valid = pps_rise s,
            ps_last_ts = (if pps_rise s then ts_now else ps_last_ts s)\<rparr>)"

text \<open>The two modules as \<^verbatim>\<open>top.v\<close> connects them. The input: reset, pulse, capture strobe.\<close>

type_synonym sync_state = "timestamp_engine \<times> pps_sync"

fun sync_step :: "bool \<times> bool \<times> bool \<Rightarrow> sync_state \<Rightarrow> sync_state" where
  "sync_step (rst_n, pps_in, capture) (e, p) =
     (te_step rst_n capture (ps_adj_valid p) (ps_adj_delta p) e, ps_step rst_n pps_in (te_cnt e) p)"

section \<open>The debounced edge\<close>

definition sync_run :: "(nat \<Rightarrow> bool) \<Rightarrow> (nat \<Rightarrow> bool) \<Rightarrow> nat \<Rightarrow> sync_state" where
  "sync_run pps cap = clocked sync_step (\<lambda>n. (True, pps n, cap n)) (te_reset, ps_reset)"

lemma sync_run_0 [simp]: "sync_run pps cap 0 = (te_reset, ps_reset)"
  by (simp add: sync_run_def)

lemma sync_run_Suc:
  "sync_run pps cap (Suc n) = sync_step (True, pps n, cap n) (sync_run pps cap n)"
  by (simp add: sync_run_def)

lemma sync_run_parts [simp]:
  "ps_debounce (snd (sync_run pps cap (Suc n))) =
     push_bit 1 (ps_debounce (snd (sync_run pps cap n))) OR of_bool (pps n)"
  "ps_prev (snd (sync_run pps cap (Suc n))) = pps_filtered (snd (sync_run pps cap n))"
  "ps_adj_valid (snd (sync_run pps cap (Suc n))) = pps_rise (snd (sync_run pps cap n))"
  "ps_last_ts (snd (sync_run pps cap (Suc n))) =
     (if pps_rise (snd (sync_run pps cap n)) then te_cnt (fst (sync_run pps cap n))
      else ps_last_ts (snd (sync_run pps cap n)))"
  "ps_adj_delta (snd (sync_run pps cap (Suc n))) =
     (if pps_rise (snd (sync_run pps cap n))
      then ucast (scast NOMINAL_PERIOD -
             (te_cnt (fst (sync_run pps cap n)) - ps_last_ts (snd (sync_run pps cap n))))
      else ps_adj_delta (snd (sync_run pps cap n)))"
  "te_cnt (fst (sync_run pps cap (Suc n))) =
     (if ps_adj_valid (snd (sync_run pps cap n))
      then te_cnt (fst (sync_run pps cap n)) + scast (ps_adj_delta (snd (sync_run pps cap n)))
      else te_cnt (fst (sync_run pps cap n)) + 1)"
  by (cases "sync_run pps cap n"; simp add: sync_run_Suc ps_step_def te_step_def)+

lemma shift_in_bit:
  "bit (push_bit 1 d OR of_bool b :: 20 word) i \<longleftrightarrow> (if i = 0 then b else i < 20 \<and> bit d (i - 1))"
  by (simp only: bit_or_iff bit_push_bit_iff) (auto simp: bit_simps)

lemma debounce_bit:
  "i < 20 \<Longrightarrow> bit (ps_debounce (snd (sync_run pps cap n))) i \<longleftrightarrow> i < n \<and> pps (n - 1 - i)"
proof (induction n arbitrary: i)
  case 0
  then show ?case by (simp add: ps_reset_def)
next
  case (Suc n)
  then show ?case
    unfolding sync_run_parts shift_in_bit by (cases i) auto
qed

lemma filtered_iff:
  "pps_filtered (snd (sync_run pps cap n)) \<longleftrightarrow> 20 \<le> n \<and> (\<forall>k. n \<le> k + 20 \<longrightarrow> k < n \<longrightarrow> pps k)"
proof -
  have "pps_filtered (snd (sync_run pps cap n)) \<longleftrightarrow> (\<forall>i<20. i < n \<and> pps (n - 1 - i))"
    by (auto simp: pps_filtered_def bit_eq_iff debounce_bit)
  also have "\<dots> \<longleftrightarrow> 20 \<le> n \<and> (\<forall>k. n \<le> k + 20 \<longrightarrow> k < n \<longrightarrow> pps k)"
  proof safe
    assume a: "\<forall>i<20. i < n \<and> pps (n - 1 - i)"
    then show "20 \<le> n" by (metis Suc_leI lessI numeral_eq_Suc pred_numeral_simps(2))
    fix k assume "n \<le> k + 20" "k < n"
    then show "pps k" using a [rule_format, of "n - 1 - k"] by (simp add: less_diff_conv2)
  qed auto
  finally show ?thesis .
qed

section \<open>The corrected counter under a steady pulse\<close>

text \<open>A pulse every \<open>P\<close> ticks of the local oscillator, \<open>w\<close> ticks wide, the first at tick \<open>a\<close>.\<close>

definition pps_wave :: "nat \<Rightarrow> nat \<Rightarrow> nat \<Rightarrow> nat \<Rightarrow> bool" where
  "pps_wave a P w n \<longleftrightarrow> a \<le> n \<and> (n - a) mod P < w"

lemma mod_add_lt: "x mod P + i < P \<Longrightarrow> (x + i) mod P = x mod (P::nat) + i"
  by (metis mod_add_left_eq mod_less)

lemma window_in_pulse:
  fixes w :: nat
  assumes "20 \<le> w" and "w < P"
  shows "(\<forall>i<20. (x + i) mod P < w) \<longleftrightarrow> x mod P + 20 \<le> w"
proof
  assume all: "\<forall>i<20. (x + i) mod P < w"
  show "x mod P + 20 \<le> w"
  proof (rule ccontr)
    assume "\<not> x mod P + 20 \<le> w"
    moreover have "x mod P < w" using all [rule_format, of 0] by simp
    ultimately have i: "w - x mod P < 20" "x mod P + (w - x mod P) = w" by simp_all
    then have "(x + (w - x mod P)) mod P = w" using mod_add_lt [of x P "w - x mod P"] assms by simp
    then show False using all i(1) by (metis less_irrefl)
  qed
next
  assume x: "x mod P + 20 \<le> w"
  show "\<forall>i<20. (x + i) mod P < w" using mod_add_lt [of x P] x assms(2) by auto
qed

lemma filtered_wave:
  assumes "20 \<le> w" and "w < P"
  shows "pps_filtered (snd (sync_run (pps_wave a P w) cap n)) \<longleftrightarrow>
     a + 20 \<le> n \<and> (n - (a + 20)) mod P + 20 \<le> w"
proof -
  have "(\<forall>k. n \<le> k + 20 \<longrightarrow> k < n \<longrightarrow> pps_wave a P w k) \<longleftrightarrow>
        a + 20 \<le> n \<and> (\<forall>i<20. (n - (a + 20) + i) mod P < w)" if "20 \<le> n"
  proof safe
    assume a: "\<forall>k. n \<le> k + 20 \<longrightarrow> k < n \<longrightarrow> pps_wave a P w k"
    have "pps_wave a P w (n - 20)" using a that by simp
    then show r: "a + 20 \<le> n" using that by (auto simp: pps_wave_def)
    fix i :: nat assume "i < 20"
    then have "pps_wave a P w (n - 20 + i)" using a that by simp
    moreover have "n - 20 + i - a = n - (a + 20) + i" using r by simp
    ultimately show "(n - (a + 20) + i) mod P < w" by (simp add: pps_wave_def)
  next
    fix k assume r: "a + 20 \<le> n" and all: "\<forall>i<20. (n - (a + 20) + i) mod P < w" and k: "n \<le> k + 20" "k < n"
    then have "n - (a + 20) + (k - (n - 20)) = k - a" by simp
    then show "pps_wave a P w k"
      using all [rule_format, of "k - (n - 20)"] r k by (simp add: pps_wave_def)
  qed
  then show ?thesis
    unfolding filtered_iff window_in_pulse [OF assms] by auto
qed

lemma rise_wave:
  assumes "20 \<le> w" and "w < P"
  shows "pps_rise (snd (sync_run (pps_wave a P w) cap n)) \<longleftrightarrow> a + 20 \<le> n \<and> (n - (a + 20)) mod P = 0"
proof (cases n)
  case 0
  then show ?thesis
    using filtered_wave [OF assms, of a cap n] by (simp add: pps_rise_def)
next
  case (Suc k)
  have step: "(n - (a + 20)) mod P + 20 \<le> w \<and> \<not> (k - (a + 20)) mod P + 20 \<le> w \<longleftrightarrow>
      (n - (a + 20)) mod P = 0" if "a + 20 \<le> k"
  proof -
    have n: "n - (a + 20) = Suc (k - (a + 20))" using that Suc by simp
    show ?thesis using assms unfolding n by (auto simp: mod_Suc split: if_splits)
  qed
  have "pps_rise (snd (sync_run (pps_wave a P w) cap n)) \<longleftrightarrow>
     a + 20 \<le> n \<and> (n - (a + 20)) mod P + 20 \<le> w \<and> \<not> (a + 20 \<le> k \<and> (k - (a + 20)) mod P + 20 \<le> w)"
    unfolding pps_rise_def filtered_wave [OF assms] Suc sync_run_parts by simp
  also have "\<dots> \<longleftrightarrow> a + 20 \<le> n \<and> (n - (a + 20)) mod P = 0"
    using step assms Suc by (cases "a + 20 \<le> k") (auto simp: le_Suc_eq)
  finally show ?thesis .
qed

text \<open>Small differences survive the cut to 32 bits.\<close>

lemma scast_ucast_small:
  assumes "- (2 ^ 31) \<le> i" and "i < 2 ^ 31"
  shows "scast (ucast (of_int i :: u64) :: u32) = (of_int i :: u64)"
proof -
  have "sint (of_int i :: u32) = i"
    using assms by (simp add: sint_sbintrunc' signed_take_bit_int_eq_self)
  moreover have "ucast (of_int i :: u64) = (of_int i :: u32)"
    by (simp add: ucast_eq unsigned_of_int word_of_int_eq_iff)
  ultimately show ?thesis by (simp add: scast_eq)
qed

text \<open>From one edge to the next: the correction replaces one tick.\<close>

lemma between_edges:
  fixes cap :: "nat \<Rightarrow> bool"
  assumes "20 \<le> w" and "w < P" and e: "e = a + 20 + m * P" and "2 \<le> j" and "j \<le> P"
  defines "s \<equiv> sync_run (pps_wave a P w) cap"
  shows "te_cnt (fst (s (e + j))) = te_cnt (fst (s e)) + scast (ps_adj_delta (snd (s (e + 1)))) + of_nat (j - 1)
     \<and> ps_last_ts (snd (s (e + j))) = te_cnt (fst (s e))"
  using assms(4,5)
proof (induction j rule: dec_induct)
  case base
  have r: "pps_rise (snd (s e))" "\<not> pps_rise (snd (s (Suc e)))" "\<not> ps_adj_valid (snd (s e))"
  proof -
    show "pps_rise (snd (s e))" unfolding s_def rise_wave [OF assms(1,2)] e by simp
    have "Suc e - (a + 20) = Suc (m * P)" using e by simp
    then have "(Suc e - (a + 20)) mod P = Suc 0" using assms(1,2) by (simp add: mod_Suc)
    then show "\<not> pps_rise (snd (s (Suc e)))" unfolding s_def rise_wave [OF assms(1,2)] by simp
    obtain k where k: "e = Suc k" using e by (cases e) auto
    show "\<not> ps_adj_valid (snd (s e))"
    proof (cases m)
      case 0
      then show ?thesis unfolding k s_def sync_run_parts rise_wave [OF assms(1,2)] using e k by simp
    next
      case (Suc m')
      have "k - (a + 20) = P - 1 + m' * P" using e k Suc assms(1,2) by simp
      then have "(k - (a + 20)) mod P = (P - 1 + m' * P) mod P" by (rule arg_cong)
      then have "(k - (a + 20)) mod P = P - 1" using assms(1,2) unfolding mod_mult_self1 by simp
      then show ?thesis unfolding k s_def sync_run_parts rise_wave [OF assms(1,2)] using assms(1,2) by simp
    qed
  qed
  then show ?case by (simp add: s_def algebra_simps numeral_2_eq_2)
next
  case (step j)
  have quiet: "\<not> pps_rise (snd (s (e + i)))" if "0 < i" "i < P" for i
  proof -
    have "(e + i - (a + 20)) mod P = (i + m * P) mod P" using e by (simp add: add.commute)
    then show ?thesis unfolding s_def rise_wave [OF assms(1,2)] mod_mult_self1 using that by simp
  qed
  have "\<not> pps_rise (snd (s (e + j)))" "\<not> pps_rise (snd (s (e + (j - 1))))"
    using quiet [of j] quiet [of "j - 1"] step.hyps step.prems by simp_all
  moreover obtain i where "j = Suc i" using step.hyps by (cases j) auto
  ultimately show ?case using step by (simp add: s_def algebra_simps)
qed

text \<open>
  The counter at the edges in closed form: with the first edge at reading \<open>d\<close>, the counter shows \<open>d\<close>
  at even edges and \<open>P + 9999999\<close> at odd ones, on top of that value for every two seconds.
\<close>

definition edge_value :: "nat \<Rightarrow> nat \<Rightarrow> nat \<Rightarrow> nat" where
  "edge_value d P m = m div 2 * (P + 9999999) + (if even m then d else P + 9999999)"

lemma edge_value_Suc:
  "int (edge_value d P (Suc m)) =
     int (edge_value d P m) + (if even m then int P + 9999999 - int d else int d)"
  by (cases "even m") (simp_all add: edge_value_def algebra_simps)

lemma correction:
  assumes "d < 2 ^ 31" and "P < 2 ^ 31" and "0 < P"
  shows "scast (ucast (scast NOMINAL_PERIOD - of_int (if even m then int d else int P + 9999999 - int d) :: u64) :: u32)
     = (of_int (10000000 - (if even m then int d else int P + 9999999 - int d)) :: u64)"
proof -
  have "scast NOMINAL_PERIOD = (of_int 10000000 :: u64)" by (simp add: NOMINAL_PERIOD_def scast_eq)
  then have "scast NOMINAL_PERIOD - of_int i = (of_int (10000000 - i) :: u64)" for i by simp
  then show ?thesis using assms by (simp only:) (rule scast_ucast_small; simp)
qed

lemma counter_at_edge:
  fixes cap :: "nat \<Rightarrow> bool"
  assumes w: "20 \<le> w" "w < P" and b: "P < 2 ^ 31" "a + 20 < 2 ^ 31"
  defines "s \<equiv> sync_run (pps_wave a P w) cap"
  shows "te_cnt (fst (s (a + 20 + m * P))) = of_nat (edge_value (a + 20) P m) \<and>
    te_cnt (fst (s (a + 20 + m * P))) - ps_last_ts (snd (s (a + 20 + m * P))) =
      of_int (if even m then int (a + 20) else int P + 9999999 - int (a + 20))"
proof (induction m)
  case 0
  have free: "te_cnt (fst (s n)) = of_nat n \<and> ps_last_ts (snd (s n)) = 0 \<and> \<not> ps_adj_valid (snd (s n))"
    if "n \<le> a + 20" for n
    using that
  proof (induction n)
    case (Suc n)
    then have "\<not> pps_rise (snd (s n))" unfolding s_def rise_wave [OF w] by simp
    then show ?case using Suc by (simp add: s_def)
  qed (simp add: s_def te_reset_def ps_reset_def)
  show ?case using free [of "a + 20"] by (simp add: edge_value_def)
next
  case (Suc m)
  let ?e = "a + 20 + m * P" and ?D = "if even m then int (a + 20) else int P + 9999999 - int (a + 20)"
  have e: "a + 20 + Suc m * P = ?e + P" by simp
  have "pps_rise (snd (s ?e))" unfolding s_def rise_wave [OF w] by simp
  then have "ps_adj_delta (snd (s (Suc ?e))) = ucast (scast NOMINAL_PERIOD - (of_int ?D :: u64))"
    unfolding s_def sync_run_parts Suc.IH [THEN conjunct2, unfolded s_def] by (simp only: if_True)
  then have "scast (ps_adj_delta (snd (s (?e + 1)))) = (of_int (10000000 - ?D) :: u64)"
    using correction [OF b(2,1), of m] w unfolding Suc_eq_plus1 by (simp only:)
  then have c: "te_cnt (fst (s (?e + P))) = te_cnt (fst (s ?e)) + of_int (10000000 - ?D) + of_nat (P - 1)"
    "ps_last_ts (snd (s (?e + P))) = te_cnt (fst (s ?e))"
    using between_edges [OF w refl, where j = P and a = a and m = m and cap = cap] w unfolding s_def by simp_all
  have i: "int (edge_value (a + 20) P (Suc m)) =
      int (edge_value (a + 20) P m) + (10000000 - ?D) + int (P - 1)"
    unfolding edge_value_Suc using w by (simp add: of_nat_diff)
  have n: "10000000 - ?D + int (P - 1) =
      (if even (Suc m) then int (a + 20) else int P + 9999999 - int (a + 20))"
    using w by (simp add: of_nat_diff)
  have "te_cnt (fst (s (?e + P))) = of_int (int (edge_value (a + 20) P (Suc m)))"
    using c(1) Suc.IH unfolding i by simp
  moreover have "te_cnt (fst (s (?e + P))) - ps_last_ts (snd (s (?e + P))) = of_int (10000000 - ?D + int (P - 1))"
    unfolding c by simp
  ultimately show ?case unfolding e n of_int_of_nat_eq by (rule conjI)
qed

lemma at_edge: "e \<le> n \<and> (n - e) mod P = 0 \<longleftrightarrow> (\<exists>m. n = e + m * (P :: nat))"
proof
  assume n: "e \<le> n \<and> (n - e) mod P = 0"
  then have "n = e + (n - e) div P * P" by (metis add_0_right div_mult_mod_eq le_add_diff_inverse)
  then show "\<exists>m. n = e + m * P" by (rule exI)
qed auto

text \<open>C21: What the synchronisation makes of a clean pulse every \<open>P\<close> ticks of the local oscillator,
  starting at any tick \<open>a\<close>. Every edge is detected exactly once. From edge to edge the corrected
  counter advances alternately by \<open>P + 9999999 - d\<close> and by \<open>d\<close> ticks, for ever, where \<open>d = a + 20\<close> is what
  the counter happened to show at the first edge: each correction is computed from the result of
  the one before and undoes it. So the two advances do not move towards a nominal second of
  10000000 ticks; how far they are from it is set by the first edge (they may be a second by
  coincidence of \<open>d\<close> and \<open>P\<close>). Over any two seconds the counter gains \<open>P + 9999999\<close> ticks, whatever \<open>d\<close>
  is: one second of the uncorrected oscillator and one nominal second less a tick.\<close>

theorem pps_corrections_alternate:
  assumes "20 \<le> w" and "w < P" and "P < 2 ^ 31" and "a + 20 < 2 ^ 31"
  shows "(ps_detected (snd (sync_run (pps_wave a P w) cap (Suc n))) \<longleftrightarrow> (\<exists>m. n = a + 20 + m * P)) \<and>
    te_cnt (fst (sync_run (pps_wave a P w) cap (a + 20))) = of_nat (a + 20) \<and>
    te_cnt (fst (sync_run (pps_wave a P w) cap (a + 20 + (m + 1) * P))) =
      te_cnt (fst (sync_run (pps_wave a P w) cap (a + 20 + m * P))) +
        of_int (if even m then int P + 9999999 - int (a + 20) else int (a + 20)) \<and>
    te_cnt (fst (sync_run (pps_wave a P w) cap (a + 20 + (m + 2) * P))) =
      te_cnt (fst (sync_run (pps_wave a P w) cap (a + 20 + m * P))) + of_nat (P + 9999999)"
proof (intro conjI)
  have "ps_detected (snd (sync_run pps cap (Suc n))) = pps_rise (snd (sync_run pps cap n))" for pps
    by (cases "sync_run pps cap n") (simp add: sync_run_Suc ps_step_def)
  then have "ps_detected (snd (sync_run (pps_wave a P w) cap (Suc n))) \<longleftrightarrow>
      a + 20 \<le> n \<and> (n - (a + 20)) mod P = 0"
    by (simp only: rise_wave [OF assms(1,2)])
  then show "ps_detected (snd (sync_run (pps_wave a P w) cap (Suc n))) \<longleftrightarrow> (\<exists>m. n = a + 20 + m * P)"
    unfolding at_edge .
  have v: "te_cnt (fst (sync_run (pps_wave a P w) cap (a + 20 + m * P))) =
      of_int (int (edge_value (a + 20) P m))" for m
    using counter_at_edge [OF assms, of cap m] by simp
  show "te_cnt (fst (sync_run (pps_wave a P w) cap (a + 20 + (m + 1) * P))) =
      te_cnt (fst (sync_run (pps_wave a P w) cap (a + 20 + m * P))) +
        of_int (if even m then int P + 9999999 - int (a + 20) else int (a + 20))"
    unfolding v Suc_eq_plus1 [symmetric] edge_value_Suc by (rule of_int_add)
  show "te_cnt (fst (sync_run (pps_wave a P w) cap (a + 20))) = of_nat (a + 20)"
    using v [of 0] by (simp add: edge_value_def)
  have "edge_value (a + 20) P (m + 2) = edge_value (a + 20) P m + (P + 9999999)"
    by (simp add: edge_value_def)
  then show "te_cnt (fst (sync_run (pps_wave a P w) cap (a + 20 + (m + 2) * P))) =
      te_cnt (fst (sync_run (pps_wave a P w) cap (a + 20 + m * P))) + of_nat (P + 9999999)"
    unfolding v of_int_of_nat_eq by (simp only: of_nat_add)
qed

text \<open>An oscillator 100 ticks fast per second, the first pulse half a second after the reset: the
  seconds are counted as 15000079 and 5000020 ticks in turn.\<close>

theorem pps_corrections_alternate_witness:
  "te_cnt (fst (sync_run (pps_wave 5000000 10000100 1000) (\<lambda>n. False) (5000020 + 1 * 10000100))) -
   te_cnt (fst (sync_run (pps_wave 5000000 10000100 1000) (\<lambda>n. False) (5000020 + 0 * 10000100))) = 15000079 \<and>
   te_cnt (fst (sync_run (pps_wave 5000000 10000100 1000) (\<lambda>n. False) (5000020 + 2 * 10000100))) -
   te_cnt (fst (sync_run (pps_wave 5000000 10000100 1000) (\<lambda>n. False) (5000020 + 1 * 10000100))) = 5000020"
  using pps_corrections_alternate [of 1000 10000100 5000000 "\<lambda>n. False" 0 0]
    pps_corrections_alternate [of 1000 10000100 5000000 "\<lambda>n. False" 0 1]
  by simp

end
