(* ===== verification/ChannelLogic.thy ===== *)
theory ChannelLogic
  imports Clocked
begin

text \<open>
  The logic of one bus channel (\<^verbatim>\<open>hardware/fpga/src\<close>): the identifier filter (\<^verbatim>\<open>hw_filter.v\<close>), the error
  injector (\<^verbatim>\<open>error_injector.v\<close>) and the sampler of the bus level (\<^verbatim>\<open>phys_sampler.v\<close>).
\<close>

section \<open>Identifier filter\<close>

record hw_filter =
  hf_mask :: "29 word"
  hf_value :: "29 word"
  hf_lo :: "29 word"
  hf_hi :: "29 word"
  hf_accept_ext :: bool

definition hf_reset :: hw_filter where
  "hf_reset = \<lparr>hf_mask = 0, hf_value = 0, hf_lo = 0, hf_hi = - 1, hf_accept_ext = True\<rparr>"

definition hf_step :: "bool \<Rightarrow> bool \<Rightarrow> hw_filter \<Rightarrow> hw_filter \<Rightarrow> hw_filter" where
  "hf_step rst_n cfg_we cfg s = (if \<not> rst_n then hf_reset else if cfg_we then cfg else s)"

definition mask_hit :: "hw_filter \<Rightarrow> 29 word \<Rightarrow> bool" where
  "mask_hit s frame_id \<longleftrightarrow> frame_id AND hf_mask s = hf_value s"

definition range_hit :: "hw_filter \<Rightarrow> 29 word \<Rightarrow> bool" where
  "range_hit s frame_id \<longleftrightarrow> frame_id \<ge> hf_lo s \<and> frame_id \<le> hf_hi s"

definition type_hit :: "hw_filter \<Rightarrow> bool \<Rightarrow> bool" where
  "type_hit s frame_ext \<longleftrightarrow> frame_ext = hf_accept_ext s"

definition hf_pass :: "hw_filter \<Rightarrow> 29 word \<Rightarrow> bool \<Rightarrow> bool \<Rightarrow> bool" where
  "hf_pass s frame_id frame_ext frame_valid \<longleftrightarrow>
     frame_valid \<and> (mask_hit s frame_id \<or> range_hit s frame_id \<or> type_hit s frame_ext)"

section \<open>Error injector\<close>

record error_injector =
  ei_type :: "3 word"
  ei_bit_pos :: u16
  ei_glitch_ns :: u8
  ei_bit_cnt :: u16
  ei_glitch_cnt :: u8
  ei_armed :: bool
  ei_inject :: bool

definition ei_reset :: error_injector where
  "ei_reset = \<lparr>ei_type = 0, ei_bit_pos = 0, ei_glitch_ns = 1, ei_bit_cnt = 0, ei_glitch_cnt = 0,
     ei_armed = False, ei_inject = False\<rparr>"

text \<open>
  The registers after a clock edge with the frame on the bus. Where the source assigns a register
  more than once, the last assignment counts: the test of \<^verbatim>\<open>armed\<close> comes after the one of \<^verbatim>\<open>bit_tick\<close>.
\<close>

definition ei_strobe :: "error_injector \<Rightarrow> error_injector \<Rightarrow> error_injector" where
  "ei_strobe s t = (let t = t\<lparr>ei_bit_cnt := ei_bit_cnt s + 1\<rparr> in
     if ei_bit_cnt s = ei_bit_pos s
     then (if ei_type s = 5 then t\<lparr>ei_glitch_cnt := ei_glitch_ns s, ei_armed := True\<rparr>
           else t\<lparr>ei_inject := True\<rparr>)
     else t)"

definition ei_glitch :: "error_injector \<Rightarrow> error_injector \<Rightarrow> error_injector" where
  "ei_glitch s t = (let t = t\<lparr>ei_inject := True\<rparr> in
     if ei_glitch_cnt s = 0 then t\<lparr>ei_armed := False\<rparr>
     else t\<lparr>ei_glitch_cnt := ei_glitch_cnt s - 1\<rparr>)"

definition ei_engine :: "bool \<Rightarrow> bool \<Rightarrow> error_injector \<Rightarrow> error_injector" where
  "ei_engine frame_active bit_tick s = (let t = s\<lparr>ei_inject := False\<rparr> in
     if ei_type s = 0 then t\<lparr>ei_armed := False\<rparr>
     else if frame_active then
       (let t = if bit_tick then ei_strobe s t else t in if ei_armed s then ei_glitch s t else t)
     else t\<lparr>ei_bit_cnt := 0, ei_glitch_cnt := 0, ei_armed := False\<rparr>)"

text \<open>Both \<^verbatim>\<open>always\<close> blocks: the configuration and the engine, which reads the old configuration.\<close>

definition ei_step :: "bool \<Rightarrow> bool \<Rightarrow> 3 word \<Rightarrow> u16 \<Rightarrow> u8 \<Rightarrow> bool \<Rightarrow> bool \<Rightarrow> error_injector \<Rightarrow> error_injector" where
  "ei_step rst_n cfg_we cfg_type cfg_bit_pos cfg_glitch_ns frame_active bit_tick s =
     (if \<not> rst_n then ei_reset
      else let t = ei_engine frame_active bit_tick s in
        if cfg_we then t\<lparr>ei_type := cfg_type, ei_bit_pos := cfg_bit_pos, ei_glitch_ns := cfg_glitch_ns\<rparr>
        else t)"

section \<open>Sampler of the bus level\<close>

text \<open>The memory has no reset: its first contents are whatever they are.\<close>

record phys_sampler =
  sm_wp :: "12 word"
  sm_capture_on :: bool
  sm_mem :: "12 word \<Rightarrow> bool"
  sm_rd_addr :: "12 word"

definition sm_reset :: "(12 word \<Rightarrow> bool) \<Rightarrow> phys_sampler" where
  "sm_reset mem = \<lparr>sm_wp = 0, sm_capture_on = False, sm_mem = mem, sm_rd_addr = 0\<rparr>"

text \<open>An edge of the sampling clock; then one of the reader's clock.\<close>

definition sm_step :: "bool \<Rightarrow> bool \<Rightarrow> bool \<Rightarrow> bool \<Rightarrow> bool \<Rightarrow> phys_sampler \<Rightarrow> phys_sampler" where
  "sm_step rst_n bus_level arm stop trig s =
     (if \<not> rst_n then s\<lparr>sm_wp := 0, sm_capture_on := False\<rparr>
      else s\<lparr>sm_capture_on := (if stop then False else if arm then True else sm_capture_on s),
             sm_mem := (if sm_capture_on s then (sm_mem s)(sm_wp s := bus_level) else sm_mem s),
             sm_wp := (if trig then sm_wp s else if sm_capture_on s then sm_wp s + 1 else sm_wp s)\<rparr>)"

definition sm_rd_step :: "bool \<Rightarrow> 12 word \<Rightarrow> phys_sampler \<Rightarrow> phys_sampler" where
  "sm_rd_step rst_n rd_addr s = s\<lparr>sm_rd_addr := (if \<not> rst_n then 0 else rd_addr)\<rparr>"

definition sm_rd_data :: "phys_sampler \<Rightarrow> bool" where
  "sm_rd_data s = sm_mem s (sm_rd_addr s)"

section \<open>When the line is corrupted\<close>

text \<open>A run with the frame on the bus and the configuration left alone; the input is the bit strobe.\<close>

definition ei_run :: "(nat \<Rightarrow> bool) \<Rightarrow> error_injector \<Rightarrow> nat \<Rightarrow> error_injector" where
  "ei_run tick = clocked (ei_step True False 0 0 0 True) tick"

definition ei_idle :: "error_injector \<Rightarrow> bool" where
  "ei_idle s \<longleftrightarrow> ei_bit_cnt s = 0 \<and> \<not> ei_armed s \<and> \<not> ei_inject s"

lemmas ei_defs = ei_step_def ei_engine_def ei_strobe_def ei_glitch_def Let_def

lemma ei_run_0 [simp]: "ei_run tick s 0 = s"
  by (simp add: ei_run_def)

lemma ei_run_Suc: "ei_run tick s (Suc n) = ei_step True False 0 0 0 True (tick n) (ei_run tick s n)"
  by (simp add: ei_run_def)

lemma ei_run_config [simp]:
  "ei_type (ei_run tick s n) = ei_type s" "ei_bit_pos (ei_run tick s n) = ei_bit_pos s"
  "ei_glitch_ns (ei_run tick s n) = ei_glitch_ns s"
  by (induction n) (simp_all add: ei_run_Suc ei_defs)

lemma ei_run_bit_cnt:
  "ei_type s \<noteq> 0 \<Longrightarrow> ei_bit_cnt s = 0 \<Longrightarrow> ei_bit_cnt (ei_run tick s n) = of_nat (count_at tick n)"
  by (induction n) (simp_all add: ei_run_Suc ei_defs)

lemma strobe_unique:
  assumes "tick b" and "tick n" and "count_at tick n = count_at tick b"
  shows "n = b"
  using assms count_at_mono [of "Suc n" b tick] count_at_mono [of "Suc b" n tick]
  by (cases n b rule: linorder_cases) simp_all

lemma hit_iff:
  assumes "tick b" and "count_at tick b = unat p" and "count_at tick n < 2 ^ 16"
  shows "tick n \<and> of_nat (count_at tick n) = (p :: u16) \<longleftrightarrow> n = b"
proof
  assume h: "tick n \<and> of_nat (count_at tick n) = p"
  have "unat (of_nat (count_at tick n) :: u16) = count_at tick n"
    using assms(3) by (simp add: unat_of_nat take_bit_nat_eq_self)
  then have "count_at tick n = unat p" unfolding conjunct2 [OF h] by (rule sym)
  then show "n = b" using strobe_unique [OF assms(1) conjunct1 [OF h]] assms(2) by metis
next
  assume "n = b"
  then show "tick n \<and> of_nat (count_at tick n) = p" using assms(1,2) by simp
qed

lemma inject_single:
  assumes "ei_idle s" and "ei_type s \<noteq> 0" and "ei_type s \<noteq> 5"
  shows "ei_inject (ei_run tick s (Suc n)) \<longleftrightarrow> tick n \<and> of_nat (count_at tick n) = ei_bit_pos s"
proof -
  have "\<not> ei_armed (ei_run tick s n)"
    using assms by (induction n) (simp_all add: ei_idle_def ei_run_Suc ei_defs)
  then show ?thesis
    using assms ei_run_bit_cnt [of s tick n] by (simp add: ei_idle_def ei_run_Suc ei_defs)
qed

text \<open>The glitch counter is loaded one cycle after the strobe and runs down to zero inclusively.\<close>

lemma glitch_state:
  assumes "ei_idle s" and "ei_type s = 5" and "tick b" and "count_at tick b = unat (ei_bit_pos s)"
    and "count_at tick n < 2 ^ 16"
  shows "(ei_armed (ei_run tick s n) \<longleftrightarrow> b < n \<and> n \<le> b + 1 + unat (ei_glitch_ns s)) \<and>
    (b < n \<longrightarrow> n \<le> b + 1 + unat (ei_glitch_ns s) \<longrightarrow>
       unat (ei_glitch_cnt (ei_run tick s n)) = unat (ei_glitch_ns s) - (n - (b + 1))) \<and>
    (ei_inject (ei_run tick s n) \<longleftrightarrow> b + 2 \<le> n \<and> n \<le> b + 2 + unat (ei_glitch_ns s))"
  using assms(5)
proof (induction n)
  case 0
  then show ?case using assms(1) by (simp add: ei_idle_def)
next
  case (Suc n)
  let ?t = "ei_run tick s n"
  have n: "count_at tick n < 2 ^ 16" using Suc.prems by simp
  have cnt: "ei_bit_cnt ?t = of_nat (count_at tick n)"
    using assms(1,2) by (intro ei_run_bit_cnt) (simp_all add: ei_idle_def)
  have hit: "tick n \<and> ei_bit_cnt ?t = ei_bit_pos s \<longleftrightarrow> n = b"
    unfolding cnt by (rule hit_iff [OF assms(3,4) n])
  show ?case
  proof (cases "n = b")
    case True
    then show ?thesis using Suc.IH [OF n] hit assms(2)
      by (simp add: ei_run_Suc ei_defs)
  next
    case False
    then have h: "\<not> (tick n \<and> ei_bit_cnt ?t = ei_bit_pos s)" using hit by simp
    show ?thesis
    proof (cases "ei_armed ?t")
      case True
      then have g: "b < n" "n \<le> b + 1 + unat (ei_glitch_ns s)"
        "unat (ei_glitch_cnt ?t) = unat (ei_glitch_ns s) - (n - (b + 1))"
        using Suc.IH [OF n] by simp_all
      then have z: "ei_glitch_cnt ?t = 0 \<longleftrightarrow> n = b + 1 + unat (ei_glitch_ns s)"
        unfolding unat_eq_zero [symmetric] by auto
      have "unat (x - 1) = unat x - 1" if "x \<noteq> 0" for x :: u8
        using that by (simp add: unat_sub_if_size unat_gt_0 Suc_leI)
      then show ?thesis using True h assms(2) g z
        by (auto simp: ei_run_Suc ei_defs)
    next
      case False
      then show ?thesis using Suc.IH [OF n] h assms(2) \<open>n \<noteq> b\<close>
        by (auto simp: ei_run_Suc ei_defs)
    qed
  qed
qed

text \<open>C37: Where and for how long the injector corrupts the line. In the first frame of a run, for
  every pattern of bit strobes: a bit, CRC, ACK or stuffing error is driven in the one clock cycle
  after the strobe of the configured bit and in no other (not for the bit time the header
  promises); a glitch begins one cycle later and lasts one cycle longer than the configured number,
  whatever the strobes do meanwhile.\<close>

theorem injector_pulse:
  assumes "ei_idle s" and "ei_type s \<noteq> 0" and "tick b" and "count_at tick b = unat (ei_bit_pos s)"
    and "count_at tick n < 2 ^ 16"
  shows "ei_inject (ei_run tick s n) \<longleftrightarrow>
    (if ei_type s = 5 then b + 2 \<le> n \<and> n \<le> b + 2 + unat (ei_glitch_ns s) else n = b + 1)"
proof (cases "ei_type s = 5")
  case True
  then show ?thesis using glitch_state [OF assms(1) True assms(3-5)] by simp
next
  case False
  show ?thesis
  proof (cases n)
    case 0
    then show ?thesis using False assms(1) by (simp add: ei_idle_def)
  next
    case (Suc k)
    have "count_at tick k < 2 ^ 16" using assms(5) Suc by simp
    then show ?thesis
      unfolding Suc inject_single [OF assms(1,2) False] using hit_iff [OF assms(3,4)] False by simp
  qed
qed

text \<open>A strobe every eight cycles, the error at bit 5, so at the strobe of cycle 40.\<close>

definition strobe8 :: "nat \<Rightarrow> bool" where
  "strobe8 n \<longleftrightarrow> n mod 8 = 0"

theorem injector_pulse_witness:
  "ei_inject (ei_run strobe8 (ei_reset\<lparr>ei_type := 1, ei_bit_pos := 5\<rparr>) 41) \<and>
   \<not> ei_inject (ei_run strobe8 (ei_reset\<lparr>ei_type := 1, ei_bit_pos := 5\<rparr>) 42) \<and>
   ei_inject (ei_run strobe8 (ei_reset\<lparr>ei_type := 5, ei_bit_pos := 5, ei_glitch_ns := 3\<rparr>) 45) \<and>
   \<not> ei_inject (ei_run strobe8 (ei_reset\<lparr>ei_type := 5, ei_bit_pos := 5, ei_glitch_ns := 3\<rparr>) 46)"
proof -
  have c: "count_at strobe8 40 = 5" by code_simp
  have le: "count_at strobe8 n < 2 ^ 16" if "n \<le> 46" for n
    using count_at_le [of strobe8 n] that by simp
  have i: "ei_idle (ei_reset\<lparr>ei_type := x, ei_bit_pos := 5\<rparr>)"
    "ei_idle (ei_reset\<lparr>ei_type := x, ei_bit_pos := 5, ei_glitch_ns := 3\<rparr>)" for x
    by (simp_all add: ei_idle_def ei_reset_def)
  have s: "strobe8 40" by (simp add: strobe8_def)
  show ?thesis
    using injector_pulse [OF i(1) [of 1] _ s _ le, of 41] injector_pulse [OF i(1) [of 1] _ s _ le, of 42]
      injector_pulse [OF i(2) [of 5] _ s _ le, of 45] injector_pulse [OF i(2) [of 5] _ s _ le, of 46] c
    by simp
qed

section \<open>What the sample memory holds\<close>

text \<open>Cycles of an armed sampler: the level of the bus and the arm line are inputs.\<close>

definition sm_run :: "(nat \<Rightarrow> bool \<times> bool) \<Rightarrow> phys_sampler \<Rightarrow> nat \<Rightarrow> phys_sampler" where
  "sm_run = clocked (\<lambda>(level, arm). sm_step True level arm False False)"

lemma sm_run_state:
  assumes "sm_capture_on s"
  shows "sm_capture_on (sm_run inp s n) \<and> sm_wp (sm_run inp s n) = sm_wp s + of_nat n"
  using assms by (induction n) (simp_all add: sm_run_def sm_step_def split: prod.split)

lemma sampler_keeps_last:
  assumes "sm_capture_on s" and "k < n" and "n \<le> k + 4096"
  shows "sm_mem (sm_run inp s n) (sm_wp s + of_nat k) = fst (inp k)"
  using assms(2,3)
proof (induction n)
  case (Suc n)
  have step: "sm_mem (sm_run inp s (Suc n)) = (sm_mem (sm_run inp s n))(sm_wp s + of_nat n := fst (inp n))"
    using sm_run_state [OF assms(1), of inp n] by (simp add: sm_run_def sm_step_def split: prod.split)
  show ?case
  proof (cases "k = n")
    case False
    have "(of_nat k :: 12 word) \<noteq> of_nat n"
    proof
      assume "(of_nat k :: 12 word) = of_nat n"
      then have "n mod 4096 = k mod 4096" by (simp add: word_of_nat_eq_iff take_bit_eq_mod)
      then have "4096 dvd n - k" using mod_eq_dvd_iff_nat [of k n 4096] Suc.prems by simp
      moreover have "0 < n - k" "n - k < 4096" using False Suc.prems by simp_all
      ultimately show False by (auto dest: nat_dvd_not_less)
    qed
    then show ?thesis unfolding step using Suc False by simp
  qed (simp add: step)
qed simp

end
