(* ===== verification/TxScheduler.thy ===== *)
theory TxScheduler
  imports Clocked
begin

text \<open>
  The hardware transmit scheduler (\<^verbatim>\<open>hardware/fpga/src/tx_scheduler.v\<close>) with the sizes \<^verbatim>\<open>top.v\<close> gives it:
  16 slots, 32 bit ticks. The main result bounds the jitter of every slot; it rests on a potential
  that falls in every cycle until a due slot is served.
\<close>

section \<open>Registers and steps\<close>

record tx_scheduler =
  tx_period :: "4 word \<Rightarrow> u32"
  tx_next :: "4 word \<Rightarrow> u32"
  tx_scan :: "4 word"
  tx_dispatch_slot :: "4 word"
  tx_dispatch_pulse :: bool

definition tx_reset :: tx_scheduler where
  "tx_reset = \<lparr>tx_period = (\<lambda>_. 0), tx_next = (\<lambda>_. 0), tx_scan = 0, tx_dispatch_slot = 0,
     tx_dispatch_pulse = False\<rparr>"

definition SLOTS :: int where "SLOTS = 16"

text \<open>
  Both \<^verbatim>\<open>always\<close> blocks assign \<^verbatim>\<open>next\<close>. If they assign the same entry in one cycle, the language leaves
  open which assignment is last; \<open>ack_last\<close> says so.
\<close>

definition cfg_next :: "bool \<Rightarrow> 4 word \<Rightarrow> u32 \<Rightarrow> u32 \<Rightarrow> (4 word \<Rightarrow> u32) \<Rightarrow> 4 word \<Rightarrow> u32" where
  "cfg_next cfg_we cfg_slot cfg_period_ticks base_tick nx =
     (if cfg_we then nx(cfg_slot := base_tick + cfg_period_ticks) else nx)"

definition ack_next :: "bool \<Rightarrow> tx_scheduler \<Rightarrow> (4 word \<Rightarrow> u32) \<Rightarrow> 4 word \<Rightarrow> u32" where
  "ack_next slot_ack s nx =
     (if slot_ack
      then nx(tx_dispatch_slot s := tx_next s (tx_dispatch_slot s) + tx_period s (tx_dispatch_slot s))
      else nx)"

definition due :: "tx_scheduler \<Rightarrow> u32 \<Rightarrow> 4 word \<Rightarrow> bool" where
  "due s base_tick k \<longleftrightarrow> tx_period s k \<noteq> 0 \<and> base_tick \<ge> tx_next s k"

definition tx_scan_step :: "u32 \<Rightarrow> tx_scheduler \<Rightarrow> tx_scheduler" where
  "tx_scan_step base_tick s = (let t = s\<lparr>tx_dispatch_pulse := False\<rparr> in
     if tx_scan s = 0 then t\<lparr>tx_scan := 1\<rparr>
     else if uint (tx_scan s) < SLOTS then
       (if due s base_tick (tx_scan s)
        then t\<lparr>tx_dispatch_slot := tx_scan s, tx_dispatch_pulse := True, tx_scan := 0\<rparr>
        else t\<lparr>tx_scan := tx_scan s + 1\<rparr>)
     else t\<lparr>tx_scan := 0\<rparr>)"

definition tx_step :: "bool \<Rightarrow> bool \<Rightarrow> bool \<Rightarrow> 4 word \<Rightarrow> u32 \<Rightarrow> u32 \<Rightarrow> bool \<Rightarrow> tx_scheduler \<Rightarrow> tx_scheduler" where
  "tx_step ack_last rst_n cfg_we cfg_slot cfg_period_ticks base_tick slot_ack s =
     (if \<not> rst_n then tx_reset
      else (tx_scan_step base_tick s)
        \<lparr>tx_period := (if cfg_we then (tx_period s)(cfg_slot := cfg_period_ticks) else tx_period s),
         tx_next := (if ack_last
           then ack_next slot_ack s (cfg_next cfg_we cfg_slot cfg_period_ticks base_tick (tx_next s))
           else cfg_next cfg_we cfg_slot cfg_period_ticks base_tick (ack_next slot_ack s (tx_next s)))\<rparr>)"

text \<open>In \<^verbatim>\<open>top.v\<close> the dispatch pulse acknowledges itself.\<close>

definition tx_loop :: "bool \<Rightarrow> bool \<Rightarrow> bool \<Rightarrow> 4 word \<Rightarrow> u32 \<Rightarrow> u32 \<Rightarrow> tx_scheduler \<Rightarrow> tx_scheduler" where
  "tx_loop ack_last rst_n cfg_we cfg_slot cfg_period_ticks base_tick s =
     tx_step ack_last rst_n cfg_we cfg_slot cfg_period_ticks base_tick (tx_dispatch_pulse s) s"

lemma scan_in_range [simp]: "uint (k :: 4 word) < SLOTS"
  using uint_bounded [of k] by (simp add: SLOTS_def)

section \<open>A run without configuration writes\<close>

definition tx_run :: "(nat \<Rightarrow> u32) \<Rightarrow> tx_scheduler \<Rightarrow> nat \<Rightarrow> tx_scheduler" where
  "tx_run = clocked (\<lambda>base. tx_loop True True False 0 0 base)"

text \<open>A write of the other order makes no difference when there is no write.\<close>

lemma tx_loop_no_cfg: "tx_loop b True False x y base s = tx_loop True True False 0 0 base s"
  by (simp add: tx_loop_def tx_step_def cfg_next_def)

text \<open>Due times with an acknowledged dispatch already counted.\<close>

definition eff_next :: "tx_scheduler \<Rightarrow> 4 word \<Rightarrow> u32" where
  "eff_next s = ack_next (tx_dispatch_pulse s) s (tx_next s)"

definition dispatches :: "u32 \<Rightarrow> tx_scheduler \<Rightarrow> 4 word \<Rightarrow> bool" where
  "dispatches base s k \<longleftrightarrow> k \<noteq> 0 \<and> tx_scan s = k \<and> due s base k"

definition tx_ok :: "tx_scheduler \<Rightarrow> bool" where
  "tx_ok s \<longleftrightarrow> (tx_dispatch_pulse s \<longrightarrow> tx_scan s = 0 \<and> tx_dispatch_slot s \<noteq> 0)"

lemmas tx_defs = tx_loop_def tx_step_def tx_scan_step_def cfg_next_def ack_next_def Let_def

lemma tx_run_0 [simp]: "tx_run base s 0 = s"
  by (simp add: tx_run_def)

lemma tx_run_Suc: "tx_run base s (Suc n) = tx_loop True True False 0 0 (base n) (tx_run base s n)"
  by (simp add: tx_run_def)

lemma tx_ok_loop: "tx_ok (tx_loop b rst_n we k p base s)"
  by (simp add: tx_ok_def tx_defs tx_reset_def)

lemma tx_ok_run: "tx_ok s \<Longrightarrow> tx_ok (tx_run base s n)"
  by (cases n) (simp_all add: tx_run_Suc tx_ok_loop)

lemma tx_run_period [simp]: "tx_period (tx_run base s n) = tx_period s"
  by (induction n) (simp_all add: tx_run_Suc tx_defs)

text \<open>One cycle, seen through due times with dispatches counted at once.\<close>

lemma pulse_iff: "tx_dispatch_pulse (tx_loop b True we c p base s) \<and>
    tx_dispatch_slot (tx_loop b True we c p base s) = k \<longleftrightarrow> dispatches base s k"
  by (auto simp: tx_defs dispatches_def)

lemma scan_loop: "tx_scan (tx_loop b True we c p base s) =
    (if dispatches base s (tx_scan s) then 0 else tx_scan s + 1)"
  by (simp add: tx_defs dispatches_def)

lemma eff_next_scan: "tx_ok s \<Longrightarrow> tx_scan s \<noteq> 0 \<Longrightarrow> eff_next s = tx_next s"
  by (simp add: tx_ok_def eff_next_def ack_next_def)

lemma eff_next_loop:
  "eff_next (tx_loop True True False 0 0 base s) k =
     eff_next s k + (if dispatches base s k then tx_period s k else 0)" if "tx_ok s"
  using that by (auto simp: tx_defs eff_next_def dispatches_def tx_ok_def)

section \<open>The jitter of a slot\<close>

text \<open>
  A run of \<open>N\<close> cycles from tick \<open>B\<close> on in which nothing wraps: no enabled slot is overdue at the
  beginning, every period is at least 512 ticks and at most \<open>M\<close>.
\<close>

definition steady :: "(nat \<Rightarrow> u32) \<Rightarrow> nat \<Rightarrow> nat \<Rightarrow> nat \<Rightarrow> tx_scheduler \<Rightarrow> bool" where
  "steady base B N M s \<longleftrightarrow> tx_ok s \<and> B + N + M < 2 ^ 32 \<and> (\<forall>n\<le>N. base n = of_nat (B + n)) \<and>
     (\<forall>k. k \<noteq> 0 \<longrightarrow> tx_period s k \<noteq> 0 \<longrightarrow> 512 \<le> unat (tx_period s k) \<and> unat (tx_period s k) \<le> M \<and>
        B \<le> unat (eff_next s k) \<and> unat (eff_next s k) \<le> B + M)"

definition slot_on :: "tx_scheduler \<Rightarrow> 4 word \<Rightarrow> bool" where
  "slot_on s k \<longleftrightarrow> k \<noteq> 0 \<and> tx_period s k \<noteq> 0"

definition sent_at :: "(nat \<Rightarrow> u32) \<Rightarrow> tx_scheduler \<Rightarrow> nat \<Rightarrow> 4 word \<Rightarrow> bool" where
  "sent_at base s n k \<longleftrightarrow> dispatches (base n) (tx_run base s n) k"

definition nx :: "(nat \<Rightarrow> u32) \<Rightarrow> tx_scheduler \<Rightarrow> nat \<Rightarrow> 4 word \<Rightarrow> nat" where
  "nx base s n k = unat (eff_next (tx_run base s n) k)"

lemma steadyD:
  assumes "steady base B N M s"
  shows "tx_ok s" "B + N + M < 2 ^ 32" "n \<le> N \<Longrightarrow> unat (base n) = B + n"
    "slot_on s k \<Longrightarrow> 512 \<le> unat (tx_period s k)" "slot_on s k \<Longrightarrow> unat (tx_period s k) \<le> M"
    "slot_on s k \<Longrightarrow> B \<le> nx base s 0 k" "slot_on s k \<Longrightarrow> nx base s 0 k \<le> B + M"
proof -
  have "unat (of_nat (B + n) :: u32) = B + n" if "n \<le> N"
    using assms that by (simp only: unat_of_nat steady_def) (simp add: take_bit_nat_eq_self)
  then show "n \<le> N \<Longrightarrow> unat (base n) = B + n" using assms by (simp add: steady_def)
qed (use assms in \<open>auto simp: steady_def slot_on_def nx_def\<close>)

lemma sent_at_slot:
  assumes "tx_ok s" and "sent_at base s n k"
  shows "slot_on s k" and "tx_scan (tx_run base s n) = k" and "unat (base n) \<ge> nx base s n k"
  using assms tx_ok_run [of s base n] eff_next_scan [of "tx_run base s n"]
  by (auto simp: sent_at_def dispatches_def due_def slot_on_def nx_def word_le_nat_alt)

lemma sent_atI:
  assumes "tx_ok s" and "slot_on s k" and "tx_scan (tx_run base s n) = k" and "nx base s n k \<le> unat (base n)"
  shows "sent_at base s n k"
  using assms tx_ok_run [of s base n] eff_next_scan [of "tx_run base s n"]
  by (auto simp: sent_at_def dispatches_def due_def slot_on_def nx_def word_le_nat_alt)

lemma nx_step:
  assumes st: "steady base B N M s" and on: "slot_on s k"
  shows "n \<le> N \<Longrightarrow> nx base s n k \<le> B + n + M"
    and "n < N \<Longrightarrow> nx base s (Suc n) k = nx base s n k + (if sent_at base s n k then unat (tx_period s k) else 0)"
proof -
  note ok = steadyD(1) [OF st]
  have e: "eff_next (tx_run base s (Suc n)) k =
      eff_next (tx_run base s n) k + (if sent_at base s n k then tx_period s k else 0)" for n
    unfolding tx_run_Suc eff_next_loop [OF tx_ok_run [OF ok]] by (simp add: sent_at_def)
  have both: "n < N \<Longrightarrow> nx base s n k \<le> B + n + M \<Longrightarrow>
      nx base s (Suc n) k = nx base s n k + (if sent_at base s n k then unat (tx_period s k) else 0) \<and>
      nx base s (Suc n) k \<le> B + Suc n + M" for n
  proof (cases "sent_at base s n k")
    case True
    assume n: "n < N"
    have "nx base s n k \<le> B + n" using sent_at_slot(3) [OF ok True] steadyD(3) [OF st] n by simp
    then have "nx base s n k + unat (tx_period s k) < 2 ^ 32"
      using steadyD(2,5) [OF st] on n by fastforce
    then have "nx base s (Suc n) k = nx base s n k + unat (tx_period s k)"
      unfolding nx_def e using True by (simp add: unat_add_lem [THEN iffD1])
    then show ?thesis using True \<open>nx base s n k \<le> B + n\<close> steadyD(5) [OF st on] by simp
  qed (simp add: nx_def e)
  show bound: "n \<le> N \<Longrightarrow> nx base s n k \<le> B + n + M" for n
  proof (induction n)
    case (Suc n)
    then show ?case using both [of n] by linarith
  qed (use steadyD(7) [OF st on] in simp)
  show "n < N \<Longrightarrow> nx base s (Suc n) k = nx base s n k + (if sent_at base s n k then unat (tx_period s k) else 0)"
    using both bound by simp
qed

lemma nx_count:
  assumes "steady base B N M s" and "slot_on s k" and "n \<le> N"
  shows "nx base s n k = nx base s 0 k + count_at (\<lambda>t. sent_at base s t k) n * unat (tx_period s k)"
  using assms(3) by (induction n) (use nx_step(2) [OF assms(1,2)] in simp_all)

lemma nx_mono:
  assumes "steady base B N M s" and "slot_on s k" and "n \<le> N" and "m \<le> n"
  shows "nx base s m k \<le> nx base s n k"
  unfolding nx_count [OF assms(1-3)] nx_count [OF assms(1,2) le_trans [OF assms(4,3)]]
  by (intro add_left_mono mult_le_mono1 count_at_mono assms(4))

text \<open>
  The potential for slot \<open>k\<close>: 16 for every slot up to \<open>k\<close> that can become due within 256 ticks of \<open>t0\<close>,
  and the number of slots the scan has still to pass.
\<close>

definition rivals :: "(nat \<Rightarrow> u32) \<Rightarrow> tx_scheduler \<Rightarrow> nat \<Rightarrow> 4 word \<Rightarrow> nat \<Rightarrow> 4 word set" where
  "rivals base s bound k n = {j. slot_on s j \<and> j \<le> k \<and> nx base s n j < bound}"

definition potential :: "(nat \<Rightarrow> u32) \<Rightarrow> tx_scheduler \<Rightarrow> nat \<Rightarrow> 4 word \<Rightarrow> nat \<Rightarrow> nat" where
  "potential base s bound k n = 16 * card (rivals base s bound k n) + unat (k - tx_scan (tx_run base s n))"

lemma unat_diff4: "unat (k - j :: 4 word) = (if j \<le> k then unat k - unat j else unat k + 16 - unat j)"
  unfolding unat_sub_if_size word_le_nat_alt word_size by simp

lemma unat_minus_one_less: "x \<noteq> 0 \<Longrightarrow> unat (x - 1) < unat (x :: 4 word)"
  by (simp add: unat_sub_if_size unat_gt_0 Suc_leI)

lemma unat_lt4: "unat (k :: 4 word) < 16"
  using unsigned_less [of k] by simp

lemma rivals_card: "card (rivals base s bound k n) \<le> 15"
proof -
  have "card (rivals base s bound k n) \<le> card (UNIV - {0 :: 4 word})"
    by (rule card_mono) (auto simp: rivals_def slot_on_def)
  then show ?thesis by (simp add: card_Diff_singleton card_word)
qed

lemma potential_le: "potential base s bound k n \<le> 255"
  using rivals_card [of base s bound k n] unat_lt4 [of "k - tx_scan (tx_run base s n)"]
  unfolding potential_def by linarith

lemma scan_Suc: "tx_scan (tx_run base s (Suc n)) =
    (if sent_at base s n (tx_scan (tx_run base s n)) then 0 else tx_scan (tx_run base s n) + 1)"
  unfolding tx_run_Suc scan_loop sent_at_def ..

lemma potential_falls:
  assumes st: "steady base B N M s" and on: "slot_on s k" and n: "n < N"
    and due: "nx base s n k \<le> B + n" and quiet: "\<not> sent_at base s n k"
    and window: "B + n < bound" "bound \<le> B + n + 256"
    and late: "\<forall>j. slot_on s j \<longrightarrow> B + n < nx base s n j + 256"
  shows "potential base s bound k (Suc n) < potential base s bound k n"
proof -
  let ?j = "tx_scan (tx_run base s n)"
  note ok = steadyD(1) [OF st]
  have same: "nx base s (Suc n) i = nx base s n i" if "slot_on s i" "\<not> sent_at base s n i" for i
    using nx_step(2) [OF st that(1) n] that(2) by simp
  have only: "i = ?j" if "sent_at base s n i" for i using sent_at_slot(2) [OF ok that] by simp
  show ?thesis
  proof (cases "sent_at base s n ?j")
    case False
    have "?j \<noteq> k"
      using quiet sent_atI [OF ok on] due steadyD(3) [OF st] n by (metis less_or_eq_imp_le)
    moreover have "rivals base s bound k (Suc n) = rivals base s bound k n"
      using same only False by (auto simp: rivals_def) metis+
    moreover have "unat (k - (?j + 1)) < unat (k - ?j)" if "?j \<noteq> k"
    proof -
      have "k - ?j \<noteq> 0" using that by simp
      then have "unat (k - ?j - 1) < unat (k - ?j)" by (rule unat_minus_one_less)
      then show ?thesis by (simp add: diff_diff_eq)
    qed
    ultimately show ?thesis unfolding potential_def scan_Suc using False by simp
  next
    case True
    then have j: "slot_on s ?j" "nx base s n ?j \<le> B + n" "?j \<noteq> k"
      using sent_at_slot [OF ok True] steadyD(3) [OF st] n quiet by auto
    have next_late: "bound \<le> nx base s (Suc n) ?j"
      using nx_step(2) [OF st j(1) n] True steadyD(4) [OF st j(1)] late j(1) window(2) by fastforce
    show ?thesis
    proof (cases "?j \<le> k")
      case below: True
      have "rivals base s bound k (Suc n) = rivals base s bound k n - {?j}"
        using same only next_late j(1) by (auto simp: rivals_def) (metis not_less)+
      moreover have "?j \<in> rivals base s bound k n"
        using j below window(1) by (simp add: rivals_def)
      ultimately have "Suc (card (rivals base s bound k (Suc n))) = card (rivals base s bound k n)"
        using card_Suc_Diff1 [of "rivals base s bound k n" ?j] by simp
      then show ?thesis
        unfolding potential_def scan_Suc using True below unat_lt4 [of k] unat_lt4 [of ?j]
        by (simp add: unat_diff4)
    next
      case False
      have "rivals base s bound k (Suc n) = rivals base s bound k n"
        using same only False by (auto simp: rivals_def) metis+
      then show ?thesis
        unfolding potential_def scan_Suc using True False unat_lt4 [of ?j]
        by (simp add: unat_diff4 word_le_nat_alt)
    qed
  qed
qed

lemma served_in_time:
  assumes st: "steady base B N M s" and on: "slot_on s k" and t0: "t0 + 256 \<le> N"
    and due: "\<And>n. t0 \<le> n \<Longrightarrow> n < t0 + 256 \<Longrightarrow> nx base s n k \<le> B + n"
    and late: "\<And>n j. t0 \<le> n \<Longrightarrow> n < t0 + 256 \<Longrightarrow> slot_on s j \<Longrightarrow> B + n < nx base s n j + 256"
  shows "\<exists>n\<ge>t0. n < t0 + 256 \<and> sent_at base s n k"
proof (rule ccontr)
  assume "\<not> ?thesis"
  then have quiet: "\<not> sent_at base s n k" if "t0 \<le> n" "n < t0 + 256" for n using that by blast
  have "potential base s (B + t0 + 256) k (t0 + i) + i \<le> 255" if "i \<le> 256" for i
    using that
  proof (induction i)
    case 0
    then show ?case using potential_le [of base s "B + t0 + 256" k t0] by simp
  next
    case (Suc i)
    have "potential base s (B + t0 + 256) k (Suc (t0 + i)) < potential base s (B + t0 + 256) k (t0 + i)"
      using Suc.prems t0 quiet due late by (intro potential_falls [OF st on]) simp_all
    then show ?case using Suc by simp
  qed
  from this [of 256] show False by simp
qed

lemma never_late:
  assumes st: "steady base B N M s"
  shows "n \<le> N \<Longrightarrow> slot_on s k \<Longrightarrow> B + n < nx base s n k + 256"
proof (induction n arbitrary: k rule: less_induct)
  case (less n)
  note on = less.prems(2)
  show ?case
  proof (rule ccontr)
    assume "\<not> ?thesis"
    then have l: "nx base s n k + 256 \<le> B + n" by simp
    moreover have "nx base s 0 k \<le> nx base s n k" using less.prems by (intro nx_mono [OF st on]) simp_all
    ultimately have n: "256 \<le> n" using steadyD(6) [OF st on] by simp
    have mono: "nx base s t k \<le> nx base s n k" if "t \<le> n" for t
      using that less.prems by (intro nx_mono [OF st on]) simp_all
    have "\<exists>t\<ge>n - 256. t < n - 256 + 256 \<and> sent_at base s t k"
    proof (rule served_in_time [OF st on])
      show "n - 256 + 256 \<le> N" using n less.prems by simp
      fix t assume t: "n - 256 \<le> t" "t < n - 256 + 256"
      show "nx base s t k \<le> B + t" using mono [of t] t n l by simp
      fix j assume "slot_on s j"
      then show "B + t < nx base s t j + 256" using t n less.prems by (intro less.IH) simp_all
    qed
    then obtain t where t: "n - 256 \<le> t" "t < n" "sent_at base s t k" using n by auto
    have "nx base s (Suc t) k = nx base s t k + unat (tx_period s k)"
      using nx_step(2) [OF st on, of t] t less.prems by simp
    moreover have "nx base s (Suc t) k \<le> nx base s n k" using mono [of "Suc t"] t by simp
    moreover have "B + t < nx base s t k + 256" using less.IH [of t k] t less.prems on by simp
    ultimately show False using steadyD(4) [OF st on] l t n by simp
  qed
qed

text \<open>
  A slot is served once per period and never drifts: dispatch number \<open>c\<close> (from 0) of a slot first due
  at tick \<open>F\<close> happens at the earliest at \<open>F + c * period\<close> and before \<open>F + c * period + 256\<close>.
\<close>

lemma jitter_bound:
  assumes st: "steady base B N M s" and on: "slot_on s k" and n: "n < N"
  defines "deadline \<equiv> unat (eff_next s k) + count_at (\<lambda>t. sent_at base s t k) n * unat (tx_period s k)"
  shows "B + n < deadline + 256" and "sent_at base s n k \<Longrightarrow> deadline \<le> B + n"
proof -
  have d: "deadline = nx base s n k"
    using nx_count [OF st on] n unfolding deadline_def nx_def by simp
  show "B + n < deadline + 256" unfolding d using never_late [OF st _ on] n by simp
  show "deadline \<le> B + n" if "sent_at base s n k"
    unfolding d using sent_at_slot(3) [OF steadyD(1) [OF st] that] steadyD(3) [OF st] n by simp
qed

lemma sent_at_iff: "sent_at base s n k \<longleftrightarrow>
    tx_dispatch_pulse (tx_run base s (Suc n)) \<and> tx_dispatch_slot (tx_run base s (Suc n)) = k"
  unfolding tx_run_Suc pulse_iff sent_at_def ..

section \<open>Slot 0\<close>

text \<open>A run with any inputs: order of writes, reset, configuration, tick, acknowledgement.\<close>

type_synonym tx_input = "bool \<times> bool \<times> bool \<times> 4 word \<times> u32 \<times> u32 \<times> bool"

fun tx_input_step :: "tx_input \<Rightarrow> tx_scheduler \<Rightarrow> tx_scheduler" where
  "tx_input_step (l, r, we, c, p, base, ack) s = tx_step l r we c p base ack s"

text \<open>Slot 0 is never served. The scan leaves slot 0 without looking at it, so no run from the
  reset state, whatever is written to slot 0 and whatever else happens, ever dispatches it: of the
  16 slots of the register map 15 work.\<close>

theorem slot0_never_sent:
  "\<not> (tx_dispatch_pulse (clocked tx_input_step inp tx_reset n) \<and>
      tx_dispatch_slot (clocked tx_input_step inp tx_reset n) = 0)"
proof -
  have "tx_ok (tx_input_step i s)" for i s
    by (cases i) (simp add: tx_ok_def tx_defs tx_reset_def)
  then have "tx_ok (clocked tx_input_step inp tx_reset n)"
    by (cases n) (simp_all add: tx_ok_def tx_reset_def)
  then show ?thesis by (auto simp: tx_ok_def)
qed

section \<open>When the due time wraps\<close>

lemma of_nat_le_word: "n \<le> unat w \<Longrightarrow> of_nat n \<le> (w :: u32)"
  unfolding word_le_nat_alt unat_of_nat by (rule order_trans [OF mod_less_eq_dividend])

lemma burst_round:
  assumes "tx_scan s = 1" and "\<not> tx_dispatch_pulse s" and "tx_period s 1 \<noteq> 0" and "tx_next s 1 \<le> base 0"
  shows "tx_dispatch_pulse (tx_run base s 1) \<and> tx_dispatch_slot (tx_run base s 1) = 1 \<and>
    tx_scan (tx_run base s 2) = 1 \<and> \<not> tx_dispatch_pulse (tx_run base s 2) \<and>
    tx_next (tx_run base s 2) 1 = tx_next s 1 + tx_period s 1"
  using assms by (simp add: tx_run_def tx_defs due_def SLOTS_def numeral_2_eq_2)

text \<open>C38: Every 429 seconds the scheduler bursts. When the next due time of slot 1 passes the end of
  the 32 bit tick range, it wraps to a small number \<open>r\<close> while the tick counter is still near its
  end, and the comparison takes the slot for long overdue: it is dispatched in every second clock
  cycle, as often as its period fits between \<open>r\<close> and the counter (42949 times in a row for a period
  of 10 ms) instead of once.\<close>

theorem tx_wrap_burst:
  assumes "tx_scan s = 1" and "\<not> tx_dispatch_pulse s" and "tx_period s 1 \<noteq> 0"
    and "\<forall>n\<le>2 * c. tx_next s 1 \<le> base n"
    and "unat (tx_next s 1) + unat (tx_period s 1) = 2 ^ 32 + r"
    and "r + (c - 1) * unat (tx_period s 1) \<le> unat (tx_next s 1)"
    and "i \<le> c"
  shows "tx_dispatch_pulse (tx_run base s (2 * i + 1)) \<and> tx_dispatch_slot (tx_run base s (2 * i + 1)) = 1"
proof -
  let ?p = "tx_period s 1"
  let ?v = "\<lambda>i. if i = 0 then tx_next s 1 else of_nat (r + (i - 1) * unat ?p)"
  have wrap: "tx_next s 1 + ?p = of_nat r"
    using arg_cong [OF assms(5), of "of_nat :: nat \<Rightarrow> u32"] by simp
  have small: "?v i \<le> tx_next s 1" if "i \<le> c" for i
  proof -
    have "(i - 1) * unat ?p \<le> (c - 1) * unat ?p" using that by (intro mult_le_mono1) simp
    then have "r + (i - 1) * unat ?p \<le> unat (tx_next s 1)" using assms(6) by linarith
    then show ?thesis using of_nat_le_word [of "r + (i - 1) * unat ?p" "tx_next s 1"] by (simp del: of_nat_add of_nat_mult)
  qed
  have early: "tx_next s 1 \<le> base (2 * i)" if "i \<le> c" for i using assms(4) that by simp
  have shift: "tx_run base s (2 * i + k) = tx_run (\<lambda>n. base (2 * i + n)) (tx_run base s (2 * i)) k" for i k
    by (induction k) (simp_all add: tx_run_Suc)
  have state: "tx_scan (tx_run base s (2 * i)) = 1 \<and> \<not> tx_dispatch_pulse (tx_run base s (2 * i)) \<and>
      tx_next (tx_run base s (2 * i)) 1 = ?v i" if "i \<le> c" for i
    using that
  proof (induction i)
    case (Suc i)
    let ?t = "tx_run base s (2 * i)"
    have t: "tx_scan ?t = 1" "\<not> tx_dispatch_pulse ?t" "tx_next ?t 1 = ?v i" using Suc by simp_all
    have d: "tx_next ?t 1 \<le> base (2 * i)" unfolding t(3) using small [of i] early [of i] Suc.prems by (meson Suc_leD order.trans)
    have e: "?v i + ?p = ?v (Suc i)" using wrap by (cases i) (simp_all add: algebra_simps)
    have "tx_period ?t 1 \<noteq> 0" "tx_next ?t 1 \<le> base (2 * i + 0)" using assms(3) d by simp_all
    note r = burst_round [where base = "\<lambda>n. base (2 * i + n)", OF t(1,2) this, folded shift, unfolded tx_run_period]
    have two: "2 * Suc i = 2 * i + 2" by simp
    from r have n: "tx_next (tx_run base s (2 * i + 2)) 1 = tx_next ?t 1 + ?p" by blast
    have "tx_next (tx_run base s (2 * i + 2)) 1 = ?v (Suc i)" unfolding n t(3) by (rule e)
    then show ?case unfolding two using r by blast
  qed (use assms in simp)
  have "tx_next (tx_run base s (2 * i)) 1 = ?v i" using state [OF assms(7)] by blast
  then have "tx_next (tx_run base s (2 * i)) 1 \<le> base (2 * i)"
    by (rule ord_eq_le_trans [OF _ order.trans [OF small [OF assms(7)] early [OF assms(7)]]])
  then have "tx_period (tx_run base s (2 * i)) 1 \<noteq> 0" "tx_next (tx_run base s (2 * i)) 1 \<le> base (2 * i + 0)"
    using assms(3) by simp_all
  from burst_round [where base = "\<lambda>n. base (2 * i + n)", OF _ _ this] state [OF assms(7)] show ?thesis unfolding shift [of i 1] by blast
qed

text \<open>A period of 10 ms, due at the last tick: thirty dispatches within 60 clock cycles.\<close>

definition before_wrap :: tx_scheduler where
  "before_wrap = tx_reset\<lparr>tx_period := (\<lambda>k. 100000), tx_next := (\<lambda>k. - 100), tx_scan := 1\<rparr>"

theorem tx_wrap_burst_witness:
  "tx_dispatch_pulse (tx_run (\<lambda>n. - 100 + of_nat n) before_wrap 61) \<and>
   tx_dispatch_slot (tx_run (\<lambda>n. - 100 + of_nat n) before_wrap 61) = 1"
proof -
  have p: "tx_scan before_wrap = 1" "\<not> tx_dispatch_pulse before_wrap" "tx_next before_wrap 1 = - 100"
    "tx_period before_wrap 1 = 100000"
    by (simp_all add: before_wrap_def tx_reset_def)
  have "(- 100 :: u32) \<le> - 100 + of_nat n" if "n \<le> 60" for n
  proof -
    have "unat (of_nat n :: u32) = n" using that by (simp add: unat_of_nat take_bit_nat_eq_self)
    then have "unat (- 100 + of_nat n :: u32) = unat (- 100 :: u32) + n"
      using that by (subst unat_add_lem [THEN iffD1]) simp_all
    then show ?thesis by (simp add: word_le_nat_alt)
  qed
  then show ?thesis
    using tx_wrap_burst [of before_wrap 30 "\<lambda>n. - 100 + of_nat n" 99900 30] p by simp
qed

end
