(* ===== verification/FpgaTop.thy ===== *)
theory FpgaTop
  imports TimeSync ChannelLogic TxScheduler
begin

text \<open>
  The top level of the FPGA (\<^verbatim>\<open>hardware/fpga/src/top.v\<close>): the modules behind the register interface of
  the microcontroller. Signals that the source ties to constants or leaves undriven (the CAN engine,
  the bit engine and the transceiver are to be connected) are constants here, and the frame that the
  filter looks at is an argument.
\<close>

section \<open>Registers, inputs, steps\<close>

record channel_logic =
  cl_filter :: hw_filter
  cl_injector :: error_injector
  cl_sampler :: phys_sampler

record fpga_top =
  ft_ts :: timestamp_engine
  ft_pps :: pps_sync
  ft_capture_latch :: bool
  ft_ts_latched :: u64
  ft_ch :: "channel_logic list"
  ft_txs :: tx_scheduler

text \<open>\<open>fi_ack_last\<close> is the order of conflicting assignments in the scheduler.\<close>

record fpga_in =
  fi_rst_n :: bool
  fi_pps_in :: bool
  fi_mcu_addr :: "8 word"
  fi_mcu_wdata :: u32
  fi_mcu_we :: bool
  fi_ack_last :: bool

definition CHANNELS :: nat where "CHANNELS = 4"

definition page :: "fpga_in \<Rightarrow> 4 word" where
  "page i = ucast (drop_bit 4 (fi_mcu_addr i))"

definition reg_index :: "fpga_in \<Rightarrow> 4 word" where
  "reg_index i = ucast (fi_mcu_addr i)"

definition flt_we :: "nat \<Rightarrow> fpga_in \<Rightarrow> bool" where
  "flt_we ch i \<longleftrightarrow> fi_mcu_we i \<and> page i = 2 \<and> reg_index i = of_nat ch"

definition inj_we :: "nat \<Rightarrow> fpga_in \<Rightarrow> bool" where
  "inj_we ch i \<longleftrightarrow> fi_mcu_we i \<and> page i = 3 \<and> reg_index i = of_nat ch"

definition txs_we :: "fpga_in \<Rightarrow> bool" where
  "txs_we i \<longleftrightarrow> fi_mcu_we i \<and> page i = 5"

definition flt_cfg :: "u32 \<Rightarrow> hw_filter" where
  "flt_cfg w = \<lparr>hf_mask = ucast w, hf_value = ucast w, hf_lo = ucast w, hf_hi = ucast w,
     hf_accept_ext = bit w 31\<rparr>"

definition channel_step :: "fpga_in \<Rightarrow> nat \<Rightarrow> channel_logic \<Rightarrow> channel_logic" where
  "channel_step i ch c =
     (let w = fi_mcu_wdata i; r = fi_rst_n i in
      \<lparr>cl_filter = hf_step r (flt_we ch i) (flt_cfg w) (cl_filter c),
       cl_injector = ei_step r (inj_we ch i) (ucast w) (ucast (drop_bit 3 w)) (ucast (drop_bit 19 w))
         False False (cl_injector c),
       cl_sampler = sm_rd_step r 0 (sm_step r False (bit w 0) (bit w 1) False (cl_sampler c))\<rparr>)"

definition top_step :: "fpga_in \<Rightarrow> fpga_top \<Rightarrow> fpga_top" where
  "top_step i s =
     (let r = fi_rst_n i; ts_now = te_cnt (ft_ts s) in
      \<lparr>ft_ts = te_step r (ft_capture_latch s) (ps_adj_valid (ft_pps s)) (ps_adj_delta (ft_pps s)) (ft_ts s),
       ft_pps = ps_step r (fi_pps_in i) ts_now (ft_pps s),
       ft_capture_latch = (r \<and> fi_mcu_we i \<and> fi_mcu_addr i = 0x00),
       ft_ts_latched = (if \<not> r then 0 else if ft_capture_latch s then te_ts_out (ft_ts s) else ft_ts_latched s),
       ft_ch = map (\<lambda>ch. channel_step i ch (ft_ch s ! ch)) [0..<CHANNELS],
       ft_txs = tx_loop (fi_ack_last i) r (txs_we i) (reg_index i) (fi_mcu_wdata i) (ucast ts_now) (ft_txs s)\<rparr>)"

text \<open>The combinational outputs: the read data, and the decision of a channel's filter.\<close>

definition mcu_rdata :: "8 word \<Rightarrow> fpga_top \<Rightarrow> u32" where
  "mcu_rdata mcu_addr s =
     (if mcu_addr = 0x00 then ucast (ft_ts_latched s)
      else if mcu_addr = 0x04 then ucast (drop_bit 32 (ft_ts_latched s))
      else if mcu_addr = 0x08 then ucast (te_cnt (ft_ts s))
      else if mcu_addr = 0x0C then ucast (drop_bit 32 (te_cnt (ft_ts s)))
      else if mcu_addr = 0x10 then ps_adj_delta (ft_pps s)
      else 0xDEADBEEF)"

definition filter_pass :: "nat \<Rightarrow> 29 word \<Rightarrow> bool \<Rightarrow> bool \<Rightarrow> fpga_top \<Rightarrow> bool" where
  "filter_pass ch frame_id frame_ext frame_valid s =
     hf_pass (cl_filter (ft_ch s ! ch)) frame_id frame_ext frame_valid"

text \<open>The state after reset; the sample memories hold anything.\<close>

definition top_reset :: "(nat \<Rightarrow> 12 word \<Rightarrow> bool) \<Rightarrow> fpga_top" where
  "top_reset mems = \<lparr>ft_ts = te_reset, ft_pps = ps_reset, ft_capture_latch = False, ft_ts_latched = 0,
     ft_ch = map (\<lambda>ch. \<lparr>cl_filter = hf_reset, cl_injector = ei_reset, cl_sampler = sm_reset (mems ch)\<rparr>)
       [0..<CHANNELS],
     ft_txs = tx_reset\<rparr>"

section \<open>Runs with the reset released\<close>

definition top_run :: "(nat \<Rightarrow> 12 word \<Rightarrow> bool) \<Rightarrow> (nat \<Rightarrow> fpga_in) \<Rightarrow> nat \<Rightarrow> fpga_top" where
  "top_run mems inp = clocked top_step inp (top_reset mems)"

lemma top_run_0 [simp]: "top_run mems inp 0 = top_reset mems"
  by (simp add: top_run_def)

lemma top_run_Suc: "top_run mems inp (Suc n) = top_step (inp n) (top_run mems inp n)"
  by (simp add: top_run_def)

lemma channel_logic_run:
  "ch < CHANNELS \<Longrightarrow> ft_ch (top_run mems inp (Suc n)) ! ch = channel_step (inp n) ch (ft_ch (top_run mems inp n) ! ch)"
  by (simp add: top_run_Suc top_step_def Let_def)

lemma channel_start:
  "ch < CHANNELS \<Longrightarrow> ft_ch (top_run mems inp 0) ! ch =
     \<lparr>cl_filter = hf_reset, cl_injector = ei_reset, cl_sampler = sm_reset (mems ch)\<rparr>"
  by (simp add: top_reset_def)

text \<open>The time base of the top level is the pair of modules followed in \<^verbatim>\<open>TimeSync\<close>.\<close>

lemma sync_in_top:
  assumes "\<forall>k. fi_rst_n (inp k)"
  shows "(ft_ts (top_run mems inp n), ft_pps (top_run mems inp n)) =
    sync_run (\<lambda>k. fi_pps_in (inp k)) (\<lambda>k. ft_capture_latch (top_run mems inp k)) n"
proof (induction n)
  case (Suc n)
  show ?case unfolding sync_run_Suc Suc [symmetric] using assms
    by (simp add: top_run_Suc top_step_def Let_def)
qed (simp add: top_reset_def)

lemma last_at_delayed:
  assumes "\<not> Q 0" and "\<And>k. Q (Suc k) = P k"
  shows "last_at Q (Suc n) = map_option Suc (last_at P n)"
  using assms by (induction n) simp_all

definition ts_write :: "fpga_in \<Rightarrow> bool" where
  "ts_write i \<longleftrightarrow> fi_mcu_we i \<and> fi_mcu_addr i = 0x00"

lemma latched_value:
  assumes "\<forall>k. fi_rst_n (inp k)" and "ts_write (inp n)"
  shows "ft_ts_latched (top_run mems inp (n + 2)) =
    (case last_at (\<lambda>k. ts_write (inp k)) n of None \<Rightarrow> 0
     | Some m \<Rightarrow> te_cnt (ft_ts (top_run mems inp (m + 1))))"
proof -
  let ?s = "top_run mems inp" and ?latch = "\<lambda>k. ft_capture_latch (top_run mems inp k)"
  have latch: "\<not> ?latch 0" "?latch (Suc k) = ts_write (inp k)" for k
    using assms(1) by (simp_all add: top_reset_def top_run_Suc top_step_def ts_write_def Let_def)
  have "te_ts_out (ft_ts (?s (Suc k))) = (if ?latch k then te_cnt (ft_ts (?s k)) else te_ts_out (ft_ts (?s k)))" for k
    using assms(1) by (simp add: top_run_Suc top_step_def te_step_def Let_def)
  then have "te_ts_out (ft_ts (?s (Suc n))) =
      (case last_at ?latch (Suc n) of None \<Rightarrow> te_ts_out (ft_ts (?s 0)) | Some m \<Rightarrow> te_cnt (ft_ts (?s m)))"
    by (rule register_last_write)
  also have "last_at ?latch (Suc n) = map_option Suc (last_at (\<lambda>k. ts_write (inp k)) n)"
    using latch by (rule last_at_delayed)
  also have "te_ts_out (ft_ts (?s 0)) = 0" by (simp add: top_reset_def te_reset_def)
  finally have "te_ts_out (ft_ts (?s (Suc n))) = (case last_at (\<lambda>k. ts_write (inp k)) n of None \<Rightarrow> 0
      | Some m \<Rightarrow> te_cnt (ft_ts (?s (m + 1))))"
    by (simp add: option.case_eq_if split: option.split) (auto split: option.splits)
  moreover have "ft_ts_latched (?s (Suc (Suc n))) = te_ts_out (ft_ts (?s (Suc n)))"
    using assms latch(2) [of n] unfolding top_run_Suc [of mems inp "Suc n"]
    by (simp add: top_step_def Let_def)
  ultimately show ?thesis by simp
qed

section \<open>Reading a timestamp\<close>

text \<open>A timestamp is read one capture late. Writing register 0 at cycle \<open>n\<close> captures the counter,
  but the register that is read back latches the old capture at the same edge: from the second
  cycle on the low and high words read are those of the counter at the previous write of register 0,
  or zero if there was none since the reset, whatever else was written and however the counter was
  corrected in between.\<close>

theorem timestamp_read_previous:
  fixes mems :: "nat \<Rightarrow> 12 word \<Rightarrow> bool"
  assumes "\<forall>k. fi_rst_n (inp k)" and "ts_write (inp n)"
  defines "v \<equiv> case last_at (\<lambda>k. ts_write (inp k)) n of None \<Rightarrow> 0
     | Some m \<Rightarrow> te_cnt (ft_ts (top_run mems inp (m + 1)))"
  shows "mcu_rdata 0x00 (top_run mems inp (n + 2)) = ucast v \<and>
    mcu_rdata 0x04 (top_run mems inp (n + 2)) = ucast (drop_bit 32 v)"
  unfolding mcu_rdata_def latched_value [OF assms(1,2)] v_def by simp

text \<open>Register 0 written at cycles 10 and 500: the second reading shows the first capture, 11.\<close>

definition idle_in :: fpga_in where
  "idle_in = \<lparr>fi_rst_n = True, fi_pps_in = False, fi_mcu_addr = 0x08, fi_mcu_wdata = 0, fi_mcu_we = False,
     fi_ack_last = True\<rparr>"

definition two_captures :: "nat \<Rightarrow> fpga_in" where
  "two_captures n = (if n = 10 \<or> n = 500 then idle_in\<lparr>fi_mcu_addr := 0x00, fi_mcu_we := True\<rparr> else idle_in)"

lemma quiet_pps:
  assumes "\<forall>k. fi_rst_n (inp k) \<and> \<not> fi_pps_in (inp k)"
  shows "ps_debounce (ft_pps (top_run mems inp n)) = 0 \<and> \<not> ps_adj_valid (ft_pps (top_run mems inp n)) \<and>
    te_cnt (ft_ts (top_run mems inp n)) = of_nat n"
  using assms by (induction n)
    (simp_all add: top_reset_def te_reset_def ps_reset_def top_run_Suc top_step_def ps_step_def te_step_def
      pps_rise_def pps_filtered_def Let_def)

theorem timestamp_read_previous_witness:
  "mcu_rdata 0x00 (top_run (\<lambda>_ _. False) two_captures 502) = 11 \<and>
   mcu_rdata 0x00 (top_run (\<lambda>_ _. False) two_captures 12) = 0"
proof -
  have r: "\<forall>k. fi_rst_n (two_captures k)" "\<forall>k. fi_rst_n (two_captures k) \<and> \<not> fi_pps_in (two_captures k)"
    by (simp_all add: two_captures_def idle_in_def)
  have w: "ts_write (two_captures k) \<longleftrightarrow> k = 10 \<or> k = 500" for k
    by (simp add: two_captures_def idle_in_def ts_write_def)
  have "last_at (\<lambda>k. ts_write (two_captures k)) 500 = Some 10" "last_at (\<lambda>k. ts_write (two_captures k)) 10 = None"
    unfolding w by code_simp+
  then show ?thesis
    using timestamp_read_previous [where mems = "\<lambda>_ _. False", OF r(1), of 500] timestamp_read_previous [where mems = "\<lambda>_ _. False", OF r(1), of 10]
      quiet_pps [OF r(2), of "\<lambda>_ _. False" 11]
    by (simp add: w)
qed

section \<open>Which frames pass a filter\<close>

text \<open>What a filter of the device can select. The single configuration word \<open>w\<close> written last to a
  channel's register is mask, value and both bounds at once, so a frame passes exactly if its
  identifier has all the bits of \<open>w\<close>, or its type is the one of bit 31: half of all frames pass
  under every configuration, and no configuration accepts one identifier only. Before the first
  write every frame passes. Writes to other registers and other channels have no influence.\<close>

theorem filter_decision:
  assumes "\<forall>k. fi_rst_n (inp k)" and "ch < CHANNELS"
  shows "filter_pass ch frame_id ext valid (top_run mems inp n) \<longleftrightarrow> valid \<and>
    (case last_at (\<lambda>k. flt_we ch (inp k)) n of None \<Rightarrow> True
     | Some m \<Rightarrow> (let w = fi_mcu_wdata (inp m) in frame_id AND ucast w = ucast w \<or> ext = bit w 31))"
proof -
  let ?f = "\<lambda>k. cl_filter (ft_ch (top_run mems inp k) ! ch)"
  have "?f (Suc k) = (if flt_we ch (inp k) then flt_cfg (fi_mcu_wdata (inp k)) else ?f k)" for k
    using assms by (simp add: channel_logic_run channel_step_def hf_step_def Let_def)
  then have "?f n = (case last_at (\<lambda>k. flt_we ch (inp k)) n of None \<Rightarrow> ?f 0 | Some m \<Rightarrow> flt_cfg (fi_mcu_wdata (inp m)))"
    by (rule register_last_write)
  also have "?f 0 = hf_reset" using assms(2) by (simp add: channel_start del: top_run_0)
  finally have f: "?f n = (case last_at (\<lambda>k. flt_we ch (inp k)) n of None \<Rightarrow> hf_reset
      | Some m \<Rightarrow> flt_cfg (fi_mcu_wdata (inp m)))" .
  show ?thesis
    unfolding filter_pass_def f
    by (auto simp: hf_pass_def mask_hit_def range_hit_def type_hit_def flt_cfg_def hf_reset_def Let_def
        split: option.split)
qed

text \<open>Identifier 0x123 configured for channel 1 and base frames: 0x124 passes too, as a base frame.\<close>

definition select_123 :: "nat \<Rightarrow> fpga_in" where
  "select_123 n = (if n = 3 then idle_in\<lparr>fi_mcu_addr := 0x21, fi_mcu_we := True, fi_mcu_wdata := 0x123\<rparr> else idle_in)"

theorem filter_decision_witness:
  "filter_pass 1 0x124 False True (top_run (\<lambda>_ _. False) select_123 10) \<and>
   \<not> filter_pass 1 0x124 True True (top_run (\<lambda>_ _. False) select_123 10) \<and>
   filter_pass 1 0x1A3 True True (top_run (\<lambda>_ _. False) select_123 10)"
proof -
  have r: "\<forall>k. fi_rst_n (select_123 k)" by (simp add: select_123_def idle_in_def)
  have w: "flt_we 1 (select_123 k) \<longleftrightarrow> k = 3" for k
    by (simp add: select_123_def idle_in_def flt_we_def page_def reg_index_def)
  have l: "last_at (\<lambda>k. flt_we 1 (select_123 k)) 10 = Some 3" unfolding w by code_simp
  have d: "fi_mcu_wdata (select_123 3) = 0x123" by (simp add: select_123_def)
  have c: "1 < CHANNELS" by (simp add: CHANNELS_def)
  have "filter_pass 1 frame_id ext valid (top_run mems select_123 10) \<longleftrightarrow>
      valid \<and> (frame_id AND 0x123 = 0x123 \<or> ext = False)" for frame_id ext valid mems
    unfolding filter_decision [OF r c] l option.case d Let_def by (simp add: bit_simps)
  then show ?thesis by simp
qed

section \<open>Samplers and injectors\<close>

text \<open>The samplers listen to the data lines, not to their register. On every channel the capture is
  on exactly if the last word on the data lines of the microcontroller with bit 0 or bit 1 set has
  bit 1 clear, whether it was a write or not and whatever its address was; the injectors never
  touch the line, since no frame ever reaches them.\<close>

theorem samplers_follow_data_lines:
  assumes "\<forall>k. fi_rst_n (inp k)" and "ch < CHANNELS"
  shows "(sm_capture_on (cl_sampler (ft_ch (top_run mems inp n) ! ch)) \<longleftrightarrow>
      (case last_at (\<lambda>k. bit (fi_mcu_wdata (inp k)) 0 \<or> bit (fi_mcu_wdata (inp k)) 1) n of None \<Rightarrow> False
       | Some m \<Rightarrow> \<not> bit (fi_mcu_wdata (inp m)) 1)) \<and>
    \<not> ei_inject (cl_injector (ft_ch (top_run mems inp n) ! ch))"
proof
  let ?c = "\<lambda>k. sm_capture_on (cl_sampler (ft_ch (top_run mems inp k) ! ch))"
  let ?w = "\<lambda>k. fi_mcu_wdata (inp k)"
  have "?c (Suc k) = (if bit (?w k) 0 \<or> bit (?w k) 1 then \<not> bit (?w k) 1 else ?c k)" for k
    using assms by (auto simp: channel_logic_run channel_step_def sm_rd_step_def sm_step_def Let_def)
  then have "?c n = (case last_at (\<lambda>k. bit (?w k) 0 \<or> bit (?w k) 1) n of None \<Rightarrow> ?c 0 | Some m \<Rightarrow> \<not> bit (?w m) 1)"
    by (rule register_last_write)
  also have "?c 0 = False" using assms(2) by (simp add: channel_start sm_reset_def del: top_run_0)
  finally show "?c n \<longleftrightarrow> (case last_at (\<lambda>k. bit (?w k) 0 \<or> bit (?w k) 1) n of None \<Rightarrow> False | Some m \<Rightarrow> \<not> bit (?w m) 1)" .
  let ?i = "\<lambda>k. cl_injector (ft_ch (top_run mems inp k) ! ch)"
  have "\<not> ei_inject (?i n) \<and> \<not> ei_armed (?i n)"
  proof (induction n)
    case 0
    show ?case using assms(2) by (simp add: channel_start ei_reset_def del: top_run_0)
  next
    case (Suc n)
    then show ?case
      using assms by (simp add: channel_logic_run channel_step_def ei_step_def ei_engine_def Let_def)
  qed
  then show "\<not> ei_inject (?i n)" by simp
qed

text \<open>Configuring the filter of channel 0 with an odd word starts the sampler of channel 3.\<close>

definition odd_filter :: "nat \<Rightarrow> fpga_in" where
  "odd_filter n = (if n = 3 then idle_in\<lparr>fi_mcu_addr := 0x20, fi_mcu_we := True, fi_mcu_wdata := 0x101\<rparr> else idle_in)"

theorem samplers_follow_data_lines_witness:
  "sm_capture_on (cl_sampler (ft_ch (top_run (\<lambda>_ _. False) odd_filter 10) ! 3))"
proof -
  have r: "\<forall>k. fi_rst_n (odd_filter k)" by (simp add: odd_filter_def idle_in_def)
  have w: "bit (fi_mcu_wdata (odd_filter k)) 0 \<or> bit (fi_mcu_wdata (odd_filter k)) 1 \<longleftrightarrow> k = 3" for k
    by (simp add: odd_filter_def idle_in_def bit_numeral_simps)
  have l: "last_at (\<lambda>k. bit (fi_mcu_wdata (odd_filter k)) 0 \<or> bit (fi_mcu_wdata (odd_filter k)) 1) 10 = Some 3"
    unfolding w by code_simp
  have c: "3 < CHANNELS" and d: "\<not> bit (fi_mcu_wdata (odd_filter 3)) 1"
    by (simp_all add: CHANNELS_def odd_filter_def)
  show ?thesis unfolding conjunct1 [OF samplers_follow_data_lines [OF r c]] l option.case by (rule d)
qed

section \<open>The transmit schedule of the device\<close>

text \<open>Slot \<open>k\<close> is handed to the transmitter in cycle \<open>n\<close>.\<close>

definition slot_sent :: "(nat \<Rightarrow> 12 word \<Rightarrow> bool) \<Rightarrow> (nat \<Rightarrow> fpga_in) \<Rightarrow> 4 word \<Rightarrow> nat \<Rightarrow> bool" where
  "slot_sent mems inp k n \<longleftrightarrow> tx_dispatch_pulse (ft_txs (top_run mems inp (Suc n))) \<and>
     tx_dispatch_slot (ft_txs (top_run mems inp (Suc n))) = k"

text \<open>The top level provides the scheduler with a tick that counts the cycles.\<close>

lemma scheduler_in_top:
  assumes "\<forall>k. fi_rst_n (inp k) \<and> \<not> fi_pps_in (inp k)" and "\<forall>k\<ge>n0. \<not> txs_we (inp k)"
  shows "ft_txs (top_run mems inp (n0 + n)) =
    tx_run (\<lambda>n. of_nat (n0 + n)) (ft_txs (top_run mems inp n0)) n"
proof (induction n)
  case (Suc n)
  have "ucast (te_cnt (ft_ts (top_run mems inp (n0 + n)))) = (of_nat (n0 + n) :: u32)"
    using quiet_pps [OF assms(1), of mems "n0 + n"] by (simp add: word_of_nat_eq_iff unsigned_of_nat del: of_nat_add)
  moreover have "tx_loop b True False x y base s = tx_loop True True False 0 0 base s" for b x y base s
    by (rule tx_loop_no_cfg)
  ultimately show ?case
    using Suc assms by (simp add: top_run_Suc top_step_def Let_def tx_run_Suc)
qed simp

text \<open>C11: The transmit schedule keeps its times. From a cycle \<open>n0\<close> on at which no enabled slot is
  overdue, with periods of at least 512 ticks, no pulse per second, no further configuration and no
  wrap of the tick counter, every slot but slot 0 is handed to the transmitter exactly once per
  period: with \<open>c\<close> frames sent so far, the next one is not sent before tick \<open>F + c * period\<close> and is
  sent before tick \<open>F + c * period + 256\<close>, however many slots compete. The jitter is below 25.6
  microseconds (the header asks for 100) and does not accumulate.\<close>

theorem device_schedule:
  assumes "\<forall>k. fi_rst_n (inp k) \<and> \<not> fi_pps_in (inp k)" and "\<forall>k\<ge>n0. \<not> txs_we (inp k)"
    and "steady (\<lambda>n. of_nat (n0 + n)) n0 N M (ft_txs (top_run mems inp n0))"
    and "k \<noteq> 0" and "tx_period (ft_txs (top_run mems inp n0)) k \<noteq> 0" and "n < N"
  shows "n0 + n < unat (eff_next (ft_txs (top_run mems inp n0)) k) +
      count_at (\<lambda>t. slot_sent mems inp k (n0 + t)) n * unat (tx_period (ft_txs (top_run mems inp n0)) k) + 256 \<and>
    (slot_sent mems inp k (n0 + n) \<longrightarrow> unat (eff_next (ft_txs (top_run mems inp n0)) k) +
      count_at (\<lambda>t. slot_sent mems inp k (n0 + t)) n * unat (tx_period (ft_txs (top_run mems inp n0)) k) \<le> n0 + n)"
proof -
  have on: "slot_on (ft_txs (top_run mems inp n0)) k" using assms(4,5) by (simp add: slot_on_def)
  have s: "slot_sent mems inp k (n0 + t) \<longleftrightarrow>
      sent_at (\<lambda>n. of_nat (n0 + n)) (ft_txs (top_run mems inp n0)) t k" for t
    unfolding slot_sent_def sent_at_iff add_Suc_right [symmetric] scheduler_in_top [OF assms(1,2)] ..
  show ?thesis unfolding s using jitter_bound [OF assms(3) on assms(6)] by blast
qed

text \<open>Slot 3 configured for 1000 ticks by a register write in cycle 0: nothing is sent at tick 999, and
  by tick 1300 something has been sent.\<close>

definition schedule_slot3 :: "nat \<Rightarrow> fpga_in" where
  "schedule_slot3 n = (if n = 0 then idle_in\<lparr>fi_mcu_addr := 0x53, fi_mcu_we := True, fi_mcu_wdata := 1000\<rparr>
     else idle_in)"

theorem device_schedule_witness:
  "1 \<le> count_at (\<lambda>t. slot_sent (\<lambda>_ _. False) schedule_slot3 3 (1 + t)) 1299 \<and>
   \<not> slot_sent (\<lambda>_ _. False) schedule_slot3 3 (1 + 998)"
proof -
  let ?s = "ft_txs (top_run (\<lambda>_ _. False) schedule_slot3 1)"
  have i: "\<forall>k. fi_rst_n (schedule_slot3 k) \<and> \<not> fi_pps_in (schedule_slot3 k)"
    "\<forall>k\<ge>1. \<not> txs_we (schedule_slot3 k)"
    by (simp_all add: schedule_slot3_def idle_in_def txs_we_def)
  have s: "tx_ok ?s" "tx_period ?s k = (if k = 3 then 1000 else 0)" "eff_next ?s k = (if k = 3 then 1000 else 0)" for k
    by (simp_all add: top_run_Suc top_step_def top_reset_def schedule_slot3_def idle_in_def txs_we_def page_def
        reg_index_def tx_ok_def eff_next_def tx_defs tx_reset_def te_reset_def)
  have st: "steady (\<lambda>n. of_nat (1 + n)) 1 3000 1000 ?s"
    unfolding steady_def s(2,3) using s(1) by (auto split: if_splits)
  have p: "tx_period ?s 3 \<noteq> 0" unfolding s(2) by simp
  have "1 + 1299 < unat (1000 :: u32) + count_at (\<lambda>t. slot_sent (\<lambda>_ _. False) schedule_slot3 3 (1 + t)) 1299 *
      unat (1000 :: u32) + 256"
    using device_schedule [OF i st _ p, of 1299] unfolding s by simp
  moreover have "\<not> slot_sent (\<lambda>_ _. False) schedule_slot3 3 (1 + 998)"
    using device_schedule [OF i st _ p, of 998] unfolding s by simp
  ultimately show ?thesis by simp
qed

end
