(* ===== verification/SpscRaces.thy ===== *)
theory SpscRaces
  imports SpscRing
begin

text \<open>
  The accesses of the two threads to the ring buffer under the rules of the C++ memory model: an
  execution is the sequence of the labels of its steps; happens-before is program order together
  with every acquire load that reads from a release store; two accesses of different threads to
  one slot, one of them a write, race if neither happens before the other. The last section bounds
  the number of steps of a call.
\<close>

section \<open>Executions, happens-before, races\<close>

type_synonym event = "thread \<times> access"

inductive spsc_exec :: "memory_order \<Rightarrow> u64 \<Rightarrow> event list \<Rightarrow> spsc \<Rightarrow> bool" for mo c where
  exec_start: "spsc_exec mo c [] (spsc_init c)"
| exec_more: "spsc_exec mo c tr s \<Longrightarrow> spsc_access mo s th a s' \<Longrightarrow>
    spsc_exec mo c (tr @ map (Pair th) a) s'"

definition event_at :: "event list \<Rightarrow> nat \<Rightarrow> event \<Rightarrow> bool" where
  "event_at tr i e \<longleftrightarrow> i < length tr \<and> tr ! i = e"

text \<open>Index values are written once each, so a load of value \<open>n\<close> reads from the store of \<open>n\<close>.\<close>

inductive happens_before :: "event list \<Rightarrow> nat \<Rightarrow> nat \<Rightarrow> bool" for tr where
  program_order: "i < j \<Longrightarrow> event_at tr i (th, a) \<Longrightarrow> event_at tr j (th, b) \<Longrightarrow> happens_before tr i j"
| synchronizes: "i < j \<Longrightarrow> event_at tr i (th, Store v Release n) \<Longrightarrow> event_at tr j (th', Load v Acquire n) \<Longrightarrow>
    happens_before tr i j"
| hb_trans: "happens_before tr i j \<Longrightarrow> happens_before tr j k \<Longrightarrow> happens_before tr i k"

fun slot_access :: "access \<Rightarrow> (bool \<times> nat) option" where
  "slot_access (ReadSlot n) = Some (False, n)"
| "slot_access (WriteSlot n) = Some (True, n)"
| "slot_access _ = None"

text \<open>Slots of a ring of \<open>cap\<close> frames.\<close>

definition conflict :: "nat \<Rightarrow> event list \<Rightarrow> nat \<Rightarrow> nat \<Rightarrow> bool" where
  "conflict cap tr i j \<longleftrightarrow> i < j \<and> j < length tr \<and> fst (tr ! i) \<noteq> fst (tr ! j) \<and>
     (case (slot_access (snd (tr ! i)), slot_access (snd (tr ! j))) of
        (Some (w, m), Some (w', n)) \<Rightarrow> (w \<or> w') \<and> m mod cap = n mod cap
      | _ \<Rightarrow> False)"

definition data_race :: "nat \<Rightarrow> event list \<Rightarrow> nat \<Rightarrow> nat \<Rightarrow> bool" where
  "data_race cap tr i j \<longleftrightarrow> conflict cap tr i j \<and> \<not> happens_before tr i j"

lemma event_at_Nil [simp]: "\<not> event_at [] i e"
  by (simp add: event_at_def)

lemma event_at_snoc [simp]: "event_at (tr @ [x]) i e \<longleftrightarrow> event_at tr i e \<or> i = length tr \<and> x = e"
  by (auto simp: event_at_def nth_append less_Suc_eq)

lemma event_at_append: "event_at tr i e \<Longrightarrow> event_at (tr @ xs) i e"
  by (simp add: event_at_def nth_append)

lemma happens_before_append: "happens_before tr i j \<Longrightarrow> happens_before (tr @ xs) i j"
  by (induction rule: happens_before.induct)
     (blast intro: happens_before.intros event_at_append)+

lemma exec_reachable: "spsc_exec mo c tr s \<Longrightarrow> reachable c s"
proof (induction rule: spsc_exec.induct)
  case (exec_more tr s th a s')
  then show ?case using access_any_order [OF exec_more(2), of push_head_order] more by blast
qed (rule start)

text \<open>Without an acquire load in the producer nothing of the consumer is ordered before it.\<close>

lemma producer_loads:
  "spsc_exec mo c tr s \<Longrightarrow> event_at tr i (Producer, Load v m n) \<Longrightarrow> m = mo"
proof (induction arbitrary: i rule: spsc_exec.induct)
  case (exec_more tr s th a s')
  from exec_more(2,4) show ?case by (cases rule: spsc_access.cases) (auto dest: exec_more.IH)
qed simp

lemma nothing_before_producer:
  assumes "spsc_exec mo c tr s" and "mo \<noteq> Acquire"
  shows "happens_before tr i j \<Longrightarrow> event_at tr j (Producer, b) \<Longrightarrow> \<exists>a. event_at tr i (Producer, a)"
proof (induction arbitrary: b rule: happens_before.induct)
  case (program_order i j th a b')
  then show ?case by (auto simp: event_at_def)
next
  case (synchronizes i j th v n th')
  then show ?case using producer_loads [OF assms(1), of j v Acquire n] assms(2) by (auto simp: event_at_def)
qed blast

section \<open>What the accesses of one thread look like to the other\<close>

text \<open>Thread \<open>th\<close> has published the values 1 to \<open>k\<close> of its index \<open>v\<close>, in this order.\<close>

definition stores_ok :: "event list \<Rightarrow> thread \<Rightarrow> index_var \<Rightarrow> nat \<Rightarrow> bool" where
  "stores_ok tr th v k \<longleftrightarrow>
     (\<forall>p l. event_at tr p (th, Store v Release l) \<longrightarrow> 1 \<le> l \<and> l \<le> k) \<and>
     (\<forall>l. 1 \<le> l \<longrightarrow> l \<le> k \<longrightarrow> (\<exists>p. event_at tr p (th, Store v Release l))) \<and>
     (\<forall>p q l m. event_at tr p (th, Store v Release l) \<longrightarrow> event_at tr q (th, Store v Release m) \<longrightarrow>
        l \<le> m \<longrightarrow> p \<le> q)"

text \<open>Each slot access \<open>acc l\<close> of \<open>th\<close> is followed by the publication of \<open>l + 1\<close>, but for the last one.\<close>

definition slots_ok :: "event list \<Rightarrow> thread \<Rightarrow> index_var \<Rightarrow> (nat \<Rightarrow> access) \<Rightarrow> nat \<Rightarrow> bool \<Rightarrow> bool" where
  "slots_ok tr th v acc k pending \<longleftrightarrow>
     (\<forall>p l. event_at tr p (th, acc l) \<longrightarrow>
        (l < k \<and> (\<exists>q>p. event_at tr q (th, Store v Release (Suc l)))) \<or> (l = k \<and> pending))"

text \<open>Thread \<open>th\<close> has loaded a value with \<open>P\<close> of the other's index, with order \<open>mo\<close>, after it was stored.\<close>

definition loaded_ok :: "event list \<Rightarrow> thread \<Rightarrow> index_var \<Rightarrow> memory_order \<Rightarrow> thread \<Rightarrow> (nat \<Rightarrow> bool) \<Rightarrow> bool" where
  "loaded_ok tr th v mo th' P \<longleftrightarrow>
     (\<exists>q j. event_at tr q (th, Load v mo j) \<and> P j \<and>
        (1 \<le> j \<longrightarrow> (\<exists>p<q. event_at tr p (th', Store v Release j))))"

lemma stores_other:
  "(\<And>l. x \<noteq> (th, Store v Release l)) \<Longrightarrow> stores_ok (tr @ [x]) th v k \<longleftrightarrow> stores_ok tr th v k"
  by (simp add: stores_ok_def)

lemma stores_next:
  assumes "stores_ok tr th v k"
  shows "stores_ok (tr @ [(th, Store v Release (Suc k))]) th v (Suc k)"
proof -
  have "p < length tr" if "event_at tr p e" for p e using that by (simp add: event_at_def)
  then show ?thesis
    using assms unfolding stores_ok_def by (fastforce simp: le_Suc_eq)
qed

lemma slots_other:
  "slots_ok tr th v acc k pend \<Longrightarrow> (\<And>l. x \<noteq> (th, acc l)) \<Longrightarrow> slots_ok (tr @ [x]) th v acc k pend"
  unfolding slots_ok_def event_at_snoc by blast

lemma loaded_append: "loaded_ok tr th v mo th' P \<Longrightarrow> loaded_ok (tr @ xs) th v mo th' P"
  unfolding loaded_ok_def by (blast intro: event_at_append)

lemma loaded_weaken: "loaded_ok tr th v mo th' P \<Longrightarrow> (\<And>j. P j \<Longrightarrow> Q j) \<Longrightarrow> loaded_ok tr th v mo th' Q"
  unfolding loaded_ok_def by blast

lemma loaded_new:
  assumes "stores_ok tr th' v k" and "j \<le> k" and "P j"
  shows "loaded_ok (tr @ [(th, Load v mo j)]) th v mo th' P"
proof -
  have "\<exists>p<length tr. event_at tr p (th', Store v Release j)" if "1 \<le> j"
    using assms(1,2) that unfolding stores_ok_def by (meson event_at_def)
  then show ?thesis
    using assms(3) unfolding loaded_ok_def
    by (intro exI [of _ "length tr"] exI [of _ j]) auto
qed

text \<open>The chain: access, publication, load, next access of the other thread.\<close>

lemma ordered_by_publication:
  assumes "slots_ok tr th v acc k pend" and "stores_ok tr th v k" and "th \<noteq> th'"
    and "loaded_ok tr th' v Acquire th (\<lambda>j. l < j \<and> j \<le> k)" and "event_at tr p (th, acc l)"
  shows "happens_before (tr @ [(th', x)]) p (length tr)"
proof -
  obtain q j p' where q: "event_at tr q (th', Load v Acquire j)" "l < j" "j \<le> k"
    "p' < q" "event_at tr p' (th, Store v Release j)"
    using assms(4) unfolding loaded_ok_def by (metis One_nat_def Suc_leI less_nat_zero_code neq0_conv)
  obtain q' where q': "p < q'" "event_at tr q' (th, Store v Release (Suc l))"
    using assms(1,5) q(2,3) unfolding slots_ok_def by fastforce
  have "q' \<le> p'" using assms(2) q(2,5) q'(2) unfolding stores_ok_def by (meson Suc_leI)
  let ?tr = "tr @ [(th', x)]"
  have "happens_before ?tr p p'"
    using program_order [of p p' ?tr th "acc l"] assms(5) q(5) q'(1) \<open>q' \<le> p'\<close>
    by (meson event_at_append less_le_trans)
  moreover have "happens_before ?tr p' q"
    using synchronizes [of p' q ?tr th v j th'] q by (meson event_at_append)
  moreover have "happens_before ?tr q (length tr)"
    using program_order [of q "length tr" ?tr th' _ x] q(1) by (auto simp: event_at_def nth_append)
  ultimately show ?thesis by (blast intro: hb_trans)
qed

section \<open>The invariant of executions\<close>

definition prod_loaded :: "memory_order \<Rightarrow> event list \<Rightarrow> spsc \<Rightarrow> bool" where
  "prod_loaded mo tr s \<longleftrightarrow>
     (\<forall>f h. sp_prod s = P_loaded_head f h \<longrightarrow>
        loaded_ok tr Producer Head mo Consumer (\<lambda>j. h = of_nat j \<and> j \<le> length (ghost_out s))) \<and>
     (\<forall>f t. sp_prod s = P_room f t \<or> sp_prod s = P_written f t \<longrightarrow>
        loaded_ok tr Producer Head mo Consumer
          (\<lambda>j. length (ghost_in s) < j + unat (sp_capacity s) \<and> j \<le> length (ghost_out s)))"

definition cons_loaded :: "event list \<Rightarrow> spsc \<Rightarrow> bool" where
  "cons_loaded tr s \<longleftrightarrow>
     (\<forall>h. sp_cons s = C_data h \<longrightarrow>
        loaded_ok tr Consumer Tail Acquire Producer
          (\<lambda>j. length (ghost_out s) < j \<and> j \<le> length (ghost_in s)))"

definition cons_pending :: "spsc \<Rightarrow> bool" where
  "cons_pending s \<longleftrightarrow> (\<exists>h f. sp_cons s = C_read h f)"

definition prod_pending :: "spsc \<Rightarrow> bool" where
  "prod_pending s \<longleftrightarrow> (\<exists>f t. sp_prod s = P_written f t)"

definition trace_inv :: "memory_order \<Rightarrow> event list \<Rightarrow> spsc \<Rightarrow> bool" where
  "trace_inv mo tr s \<longleftrightarrow>
     stores_ok tr Consumer Head (length (ghost_out s)) \<and> stores_ok tr Producer Tail (length (ghost_in s)) \<and>
     slots_ok tr Consumer Head ReadSlot (length (ghost_out s)) (cons_pending s) \<and>
     slots_ok tr Producer Tail WriteSlot (length (ghost_in s)) (prod_pending s) \<and>
     prod_loaded mo tr s \<and> cons_loaded tr s"

lemma trace_inv_start: "trace_inv mo [] (spsc_init c)"
  by (simp add: trace_inv_def stores_ok_def slots_ok_def prod_loaded_def cons_loaded_def spsc_init_def)

lemma prod_loaded_append: "prod_loaded mo tr s \<Longrightarrow> prod_loaded mo (tr @ xs) s"
  unfolding prod_loaded_def by (auto intro: loaded_append)

lemma cons_loaded_append: "cons_loaded tr s \<Longrightarrow> cons_loaded (tr @ xs) s"
  unfolding cons_loaded_def by (auto intro: loaded_append)

text \<open>What the other thread learned stays true when a thread publishes.\<close>

lemma slots_publish:
  assumes "slots_ok tr th v acc k True" and "\<And>l m. acc l \<noteq> Store v Release m"
  shows "slots_ok (tr @ [(th, Store v Release (Suc k))]) th v acc (Suc k) False"
  unfolding slots_ok_def
proof (intro allI impI)
  fix p l assume "event_at (tr @ [(th, Store v Release (Suc k))]) p (th, acc l)"
  then have p: "event_at tr p (th, acc l)" using assms(2) [of l "Suc k"] by (auto dest: sym)
  then have "p < length tr" by (simp add: event_at_def)
  then show "l < Suc k \<and> (\<exists>q>p. event_at (tr @ [(th, Store v Release (Suc k))]) q (th, Store v Release (Suc l))) \<or>
      l = Suc k \<and> False"
    using assms(1) p unfolding slots_ok_def by (auto simp: less_Suc_eq)
qed

lemma slots_access:
  assumes "slots_ok tr th v acc k False" and "\<And>l m. acc l = acc m \<Longrightarrow> l = m"
  shows "slots_ok (tr @ [(th, acc k)]) th v acc k True"
  using assms unfolding slots_ok_def by (auto dest: assms(2)) blast

lemma trace_inv_step:
  assumes "trace_inv mo tr s" and "spsc_access mo s th a s'" and "spsc_inv s" and "small s'"
  shows "trace_inv mo (tr @ map (Pair th) a) s'"
proof -
  have sm: "small s" using assms(4) ghost_in_mono [OF assms(2)] by (simp add: small_def)
  have le: "length (ghost_out s) \<le> length (ghost_in s)" "length (ghost_in s) < 2 ^ 64"
    using assms(3) sm by (simp_all add: spsc_inv_def ring_inv_def small_def)
  note inv = assms(1) [unfolded trace_inv_def]
  note defs = trace_inv_def stores_other slots_other prod_loaded_def cons_loaded_def cons_pending_def prod_pending_def
  have pi: "prod_inv s" and ci: "cons_inv s" and ri: "ring_inv s" using assms(3) by (simp_all add: spsc_inv_def)
  from assms(2) show ?thesis
  proof (cases rule: spsc_access.cases)
    case (push_load_head j f)
    then show ?thesis
      using inv cons_loaded_append loaded_new [of tr Consumer Head "length (ghost_out s)" j]
      by (simp add: defs)
  next
    case (push_full f h)
    then show ?thesis
      using inv cons_loaded_append [of tr s "[(Producer, CountDrop)]"] by (simp add: defs)
  next
    case (push_room f h)
    have "loaded_ok tr Producer Head mo Consumer
        (\<lambda>j. length (ghost_in s) < j + unat (sp_capacity s) \<and> j \<le> length (ghost_out s))"
      using inv push_room room_before [OF ri sm]
      by (auto simp: prod_loaded_def intro: loaded_weaken)
    then show ?thesis using inv push_room by (simp add: defs)
  next
    case (push_write f t)
    have t: "unat t = length (ghost_in s)"
      using pi push_write le by (simp add: prod_inv_def unat_index del: unat_of_nat)
    then show ?thesis
      using inv push_write slots_access [of tr Producer Tail WriteSlot]
        prod_loaded_append [of mo tr s "[(Producer, WriteSlot (unat t))]"]
        cons_loaded_append [of tr s "[(Producer, WriteSlot (unat t))]"]
      by (simp add: defs)
  next
    case (push_publish f t)
    have "t + 1 = of_nat (Suc (length (ghost_in s)))"
      using pi push_publish by (simp add: prod_inv_def)
    moreover have "Suc (length (ghost_in s)) < 2 ^ 64" using assms(4) push_publish by (simp add: small_def)
    ultimately have t: "unat (t + 1) = Suc (length (ghost_in s))" by (simp only: unat_index)
    then show ?thesis
      using inv push_publish slots_publish [of tr Producer Tail WriteSlot] stores_next
        cons_loaded_append [of tr s "[(Producer, Store Tail Release (Suc (length (ghost_in s))))]"]
      by (auto simp: defs intro: loaded_weaken)
  next
    case pop_load_head
    then show ?thesis using inv by (simp add: defs)
  next
    case (pop_none h j)
    then show ?thesis
      using inv prod_loaded_append [of mo tr s "[(Consumer, Load Tail Acquire j)]"] by (simp add: defs)
  next
    case (pop_data h j)
    have "j \<noteq> length (ghost_out s)" using ci pop_data by (auto simp: cons_inv_def)
    then show ?thesis
      using inv pop_data prod_loaded_append [of mo tr s "[(Consumer, Load Tail Acquire j)]"]
        loaded_new [of tr Producer Tail "length (ghost_in s)" j
          "\<lambda>j. length (ghost_out s) < j \<and> j \<le> length (ghost_in s)" Consumer Acquire]
      by (simp add: defs)
  next
    case (pop_read h)
    have h: "unat h = length (ghost_out s)"
      using ci pop_read le by (simp add: cons_inv_def unat_index del: unat_of_nat)
    then show ?thesis
      using inv pop_read slots_access [of tr Consumer Head ReadSlot]
        prod_loaded_append [of mo tr s "[(Consumer, ReadSlot (unat h))]"]
      by (simp add: defs)
  next
    case (pop_publish h f)
    have "h + 1 = of_nat (Suc (length (ghost_out s)))" "length (ghost_out s) < length (ghost_in s)"
      using ci pop_publish by (simp_all add: cons_inv_def)
    then have h: "unat (h + 1) = Suc (length (ghost_out s))" using le by (simp only: unat_index)
    then show ?thesis
      using inv pop_publish slots_publish [of tr Consumer Head ReadSlot] stores_next
        prod_loaded_append [of mo tr s "[(Consumer, Store Head Release (Suc (length (ghost_out s))))]"]
      by (auto simp: defs intro: loaded_weaken)
  qed
qed

lemma exec_inv:
  "spsc_exec mo c tr s \<Longrightarrow> small s \<Longrightarrow> trace_inv mo tr s \<and> spsc_inv s"
proof (induction rule: spsc_exec.induct)
  case (exec_more tr s th a s')
  then have "small s" using ghost_in_mono [OF exec_more(2)] by (simp add: small_def)
  with exec_more show ?case using trace_inv_step inv_step by blast
qed (simp add: trace_inv_start inv_init)

section \<open>Which accesses race\<close>

lemma same_slot_earlier:
  assumes "l mod n = k mod (n :: nat)" and "l < k + n"
  shows "l \<le> k"
proof (rule ccontr)
  assume "\<not> l \<le> k"
  then have "0 < l - k" "l - k < n" "k + (l - k) = l" using assms(2) by linarith+
  then show False using mod_neq_window [of 0 "l - k" n k] assms(1) by simp
qed

lemma same_slot_before:
  assumes "l mod n = k mod (n :: nat)" and "l < k"
  shows "l + n \<le> k"
proof (rule ccontr)
  assume "\<not> l + n \<le> k"
  then have "0 < k - l" "k - l < n" "l + (k - l) = k" using assms(2) by linarith+
  then show False using mod_neq_window [of 0 "k - l" n l] assms(1) by simp
qed

text \<open>A new access to a slot is ordered after the other thread's accesses to it.\<close>

lemma read_ordered:
  assumes "trace_inv mo tr s" and "spsc_inv s" and "sp_cons s = C_data h"
    and "event_at tr i (Producer, WriteSlot t)"
    and "t mod unat (sp_capacity s) = length (ghost_out s) mod unat (sp_capacity s)"
  shows "happens_before (tr @ [(Consumer, x)]) i (length tr)"
proof -
  let ?n = "length (ghost_in s)" and ?o = "length (ghost_out s)"
  have "t < ?n \<or> t = ?n \<and> prod_pending s"
    using assms(1,4) unfolding trace_inv_def slots_ok_def by blast
  moreover have "?n \<le> ?o + unat (sp_capacity s)" using assms(2) unfolding spsc_inv_def ring_inv_def by blast
  moreover have "prod_pending s \<Longrightarrow> ?n < ?o + unat (sp_capacity s)"
    using assms(2) by (auto simp: prod_pending_def spsc_inv_def prod_inv_def)
  ultimately have "t < ?o + unat (sp_capacity s)" by linarith
  then have t: "t \<le> ?o" by (rule same_slot_earlier [OF assms(5)])
  have "loaded_ok tr Consumer Tail Acquire Producer (\<lambda>j. t < j \<and> j \<le> ?n)"
    using assms(1,3) t unfolding trace_inv_def cons_loaded_def by (auto intro: loaded_weaken)
  then show ?thesis
    using assms(1,4) unfolding trace_inv_def by (intro ordered_by_publication [of tr Producer Tail WriteSlot ?n "prod_pending s"]) simp_all
qed

lemma write_ordered:
  assumes "trace_inv Acquire tr s" and "spsc_inv s" and "sp_prod s = P_room f t"
    and "event_at tr i (Consumer, ReadSlot h)"
    and "h mod unat (sp_capacity s) = length (ghost_in s) mod unat (sp_capacity s)"
  shows "happens_before (tr @ [(Producer, x)]) i (length tr)"
proof -
  let ?n = "length (ghost_in s)" and ?o = "length (ghost_out s)"
  have "h < ?o \<or> h = ?o \<and> ?o < ?n"
    using assms(1,2,4) unfolding trace_inv_def slots_ok_def cons_pending_def spsc_inv_def cons_inv_def by fastforce
  then have "h < ?n" using assms(2) unfolding spsc_inv_def ring_inv_def by linarith
  then have h: "h + unat (sp_capacity s) \<le> ?n" by (rule same_slot_before [OF assms(5)])
  have "loaded_ok tr Producer Head Acquire Consumer (\<lambda>j. h < j \<and> j \<le> ?o)"
    using assms(1,3) h unfolding trace_inv_def prod_loaded_def by (auto intro: loaded_weaken)
  then show ?thesis
    using assms(1,4) unfolding trace_inv_def by (intro ordered_by_publication [of tr Consumer Head ReadSlot ?o "cons_pending s"]) simp_all
qed

lemma conflict_append: "j < length tr \<Longrightarrow> conflict n (tr @ xs) i j \<longleftrightarrow> conflict n tr i j"
  by (auto simp: conflict_def nth_append)

lemma conflict_last:
  "conflict n (tr @ [(th, x)]) i (length tr) \<longleftrightarrow>
     (\<exists>w m w' l a th'. event_at tr i (th', a) \<and> th' \<noteq> th \<and> slot_access a = Some (w, m) \<and>
        slot_access x = Some (w', l) \<and> (w \<or> w') \<and> m mod n = l mod n)"
  by (cases "tr ! i") (auto simp: conflict_def event_at_def nth_append split: option.splits)

lemma only_own_accesses:
  "spsc_exec mo c tr s \<Longrightarrow> event_at tr i (th, a) \<Longrightarrow> slot_access a = Some (w, m) \<Longrightarrow>
     (th = Producer \<and> a = WriteSlot m \<and> w) \<or> (th = Consumer \<and> a = ReadSlot m \<and> \<not> w)"
proof (induction arbitrary: i rule: spsc_exec.induct)
  case (exec_more tr s th' b s')
  from exec_more(2,4,5) show ?case by (cases rule: spsc_access.cases) (auto dest: exec_more.IH)
qed simp

lemma conflicts_ordered:
  "spsc_exec mo c tr s \<Longrightarrow> small s \<Longrightarrow> conflict (max 1 (unat c)) tr i j \<Longrightarrow>
   mo = Acquire \<or> fst (tr ! j) = Consumer \<Longrightarrow> happens_before tr i j"
proof (induction rule: spsc_exec.induct)
  case (exec_more tr s th a s')
  let ?c = "max 1 (unat c)"
  have sm: "small s" using ghost_in_mono [OF exec_more(2)] exec_more(4) by (simp add: small_def)
  have inv: "trace_inv mo tr s" "spsc_inv s" using exec_inv [OF exec_more(1) sm] by simp_all
  have cap: "unat (sp_capacity s) = ?c"
    using capacity_reachable [OF exec_reachable [OF exec_more(1)]] capacity_fresh by simp
  have le: "length (ghost_out s) \<le> length (ghost_in s)" "length (ghost_in s) < 2 ^ 64"
    using inv sm by (simp_all add: spsc_inv_def ring_inv_def small_def)
  show ?case
  proof (cases "j < length tr")
    case True
    then show ?thesis
      using exec_more.IH [OF sm] exec_more.prems by (auto simp: conflict_append nth_append intro: happens_before_append)
  next
    case False
    have "length a \<le> 1" using exec_more(2) by (cases rule: spsc_access.cases) simp_all
    moreover have "j < length tr + length a" using exec_more.prems(2) by (simp add: conflict_def)
    ultimately obtain x where x: "a = [x]" "j = length tr"
      using False by (cases a) auto
    then obtain w m w' l b th' where e: "event_at tr i (th', b)" "th' \<noteq> th" "slot_access b = Some (w, m)"
      "slot_access x = Some (w', l)" "m mod ?c = l mod ?c"
      using exec_more.prems(2) by (auto simp: conflict_last)
    from exec_more(2) show ?thesis
    proof (cases rule: spsc_access.cases)
      case (push_write f t)
      have "unat t = length (ghost_in s)"
        using inv(2) push_write le by (simp add: spsc_inv_def prod_inv_def unat_index del: unat_of_nat)
      then have l: "l = length (ghost_in s)" using push_write x e(4) by simp
      have b: "th' = Consumer" "b = ReadSlot m" using only_own_accesses [OF exec_more(1) e(1,3)] e(2) push_write(1) by auto
      have "mo = Acquire" using exec_more.prems(3) push_write(1) x by simp
      then show ?thesis
        using write_ordered [of tr s f t i m "WriteSlot (unat t)"] inv push_write e b l cap x by simp
    next
      case (pop_read h)
      have "unat h = length (ghost_out s)"
        using inv(2) pop_read le by (simp add: spsc_inv_def cons_inv_def unat_index del: unat_of_nat)
      then have l: "l = length (ghost_out s)" using pop_read x e(4) by simp
      have b: "th' = Producer" "b = WriteSlot m" using only_own_accesses [OF exec_more(1) e(1,3)] e(2) pop_read(1) by auto
      then show ?thesis
        using read_ordered [of mo tr s h i m "ReadSlot (unat h)"] inv pop_read e b l cap x by simp
    qed (use x e(4) in simp_all)
  qed
qed (simp add: conflict_def)

text \<open>C4: What the memory orders of the ring buffer achieve, and what they miss. In every execution
  of the two threads (before 2^64 frames), a consumer's read of a slot is ordered after every write
  of the producer to that slot that precedes it. A producer's write to a slot the consumer read
  before is not: since \<^verbatim>\<open>push\<close> loads the read index without acquire, every reuse of a slot is a data
  race in the sense of the C++ standard. With an acquire load in that place, and no other change,
  there is no race.\<close>

theorem slot_reuse_races:
  assumes "spsc_exec mo c tr s" and "length (ghost_in s) < 2 ^ 64" and "conflict (max 1 (unat c)) tr i j"
  shows "data_race (max 1 (unat c)) tr i j \<longleftrightarrow> fst (tr ! j) = Producer \<and> mo \<noteq> Acquire"
proof (cases "fst (tr ! j) = Producer \<and> mo \<noteq> Acquire")
  case True
  have c: "i < j" "j < length tr" "fst (tr ! i) \<noteq> fst (tr ! j)" using assms(3) by (simp_all add: conflict_def)
  have "event_at tr j (Producer, snd (tr ! j))" using True c by (simp add: event_at_def prod_eq_iff)
  then have "happens_before tr i j \<Longrightarrow> \<exists>a. event_at tr i (Producer, a)"
    using nothing_before_producer [OF assms(1)] True by blast
  moreover have "\<not> event_at tr i (Producer, a)" for a using c(3) True by (auto simp: event_at_def)
  ultimately show ?thesis using True assms(3) by (auto simp: data_race_def)
next
  case False
  then have "mo = Acquire \<or> fst (tr ! j) = Consumer" using thread.exhaust by blast
  then have "happens_before tr i j" using conflicts_ordered [OF assms(1) _ assms(3)] assms(2) by (simp add: small_def)
  then show ?thesis using False by (simp add: data_race_def)
qed

text \<open>A ring of one: a frame goes through and a second one takes its slot.\<close>

definition ring1 :: "bt_bus_frame \<Rightarrow> u64 \<Rightarrow> u64 \<Rightarrow> producer \<Rightarrow> consumer \<Rightarrow> bt_bus_frame list \<Rightarrow> bt_bus_frame list \<Rightarrow> spsc" where
  "ring1 b h t p c gi go =
     \<lparr>sp_buf = [b], sp_capacity = 1, sp_head = h, sp_tail = t, sp_dropped = 0, sp_prod = p,
      sp_cons = c, ghost_in = gi, ghost_out = go\<rparr>"

lemma ring1_simps [simp]:
  "sp_prod (ring1 b h t p c gi go) = p" "sp_cons (ring1 b h t p c gi go) = c" "sp_tail (ring1 b h t p c gi go) = t"
  "sp_capacity (ring1 b h t p c gi go) = 1" "sp_head (ring1 b h t p c gi go) = h" "sp_buf (ring1 b h t p c gi go) = [b]"
  "ghost_in (ring1 b h t p c gi go) = gi" "ghost_out (ring1 b h t p c gi go) = go"
  "sp_slot (ring1 b h t p c gi go) k = 0"
  "(ring1 b h t p c gi go)\<lparr>sp_prod := p'\<rparr> = ring1 b h t p' c gi go"
  "(ring1 b h t p c gi go)\<lparr>sp_cons := c'\<rparr> = ring1 b h t p c' gi go"
  "(ring1 b h t p c gi go)\<lparr>sp_buf := [b']\<rparr> = ring1 b' h t p c gi go"
  "(ring1 b h t p c gi go)\<lparr>sp_tail := t'\<rparr> = ring1 b h t' p c gi go"
  "(ring1 b h t p c gi go)\<lparr>sp_head := h'\<rparr> = ring1 b h' t p c gi go"
  "(ring1 b h t p c gi go)\<lparr>ghost_in := gi'\<rparr> = ring1 b h t p c gi' go"
  "(ring1 b h t p c gi go)\<lparr>ghost_out := go'\<rparr> = ring1 b h t p c gi go'"
  by (simp_all add: ring1_def sp_slot_def)

definition reuse_trace :: "memory_order \<Rightarrow> event list" where
  "reuse_trace mo =
     [(Producer, Load Head mo 0), (Producer, WriteSlot 0), (Producer, Store Tail Release 1),
      (Consumer, Load Tail Acquire 1), (Consumer, ReadSlot 0), (Consumer, Store Head Release 1),
      (Producer, Load Head mo 1), (Producer, WriteSlot 1)]"

lemma reuse_exec:
  "spsc_exec mo 1 (reuse_trace mo) (ring1 (qframe 2) 1 1 (P_written (qframe 2) 1) C_idle [qframe 1] [qframe 1])"
proof -
  let ?e = "spsc_exec mo 1" and ?z = zero_frame and ?f = "qframe 1" and ?g = "qframe 2"
  have i: "spsc_init 1 = ring1 ?z 0 0 P_idle C_idle [] []"
    by (simp add: spsc_init_def ring1_def new_Pipeline_def)
  have "?e [] (ring1 ?z 0 0 P_idle C_idle [] [])" using exec_start [of mo 1] unfolding i .
  from exec_more [OF this push_load_head [of _ 0 _ ?f]]
  have "?e [(Producer, Load Head mo 0)] (ring1 ?z 0 0 (P_loaded_head ?f 0) C_idle [] [])" by simp
  from exec_more [OF this push_room [of _ ?f 0]]
  have "?e [(Producer, Load Head mo 0)] (ring1 ?z 0 0 (P_room ?f 0) C_idle [] [])" by simp
  from exec_more [OF this push_write [of _ ?f 0]]
  have "?e [(Producer, Load Head mo 0), (Producer, WriteSlot 0)] (ring1 ?f 0 0 (P_written ?f 0) C_idle [] [])" by simp
  from exec_more [OF this push_publish [of _ ?f 0]]
  have "?e (take 3 (reuse_trace mo)) (ring1 ?f 0 1 P_idle C_idle [?f] [])" by (simp add: reuse_trace_def)
  from exec_more [OF this pop_load_head]
  have "?e (take 3 (reuse_trace mo)) (ring1 ?f 0 1 P_idle (C_loaded_head 0) [?f] [])" by simp
  from exec_more [OF this pop_data [of _ 0 1]]
  have "?e (take 4 (reuse_trace mo)) (ring1 ?f 0 1 P_idle (C_data 0) [?f] [])" by (simp add: reuse_trace_def)
  from exec_more [OF this pop_read [of _ 0]]
  have "?e (take 5 (reuse_trace mo)) (ring1 ?f 0 1 P_idle (C_read 0 ?f) [?f] [])" by (simp add: reuse_trace_def)
  from exec_more [OF this pop_publish [of _ 0 ?f]]
  have "?e (take 6 (reuse_trace mo)) (ring1 ?f 1 1 P_idle C_idle [?f] [?f])" by (simp add: reuse_trace_def)
  from exec_more [OF this push_load_head [of _ 1 _ ?g]]
  have "?e (take 7 (reuse_trace mo)) (ring1 ?f 1 1 (P_loaded_head ?g 1) C_idle [?f] [?f])" by (simp add: reuse_trace_def)
  from exec_more [OF this push_room [of _ ?g 1]]
  have "?e (take 7 (reuse_trace mo)) (ring1 ?f 1 1 (P_room ?g 1) C_idle [?f] [?f])" by simp
  from exec_more [OF this push_write [of _ ?g 1]] show ?thesis by (simp add: reuse_trace_def)
qed

theorem slot_reuse_races_witness:
  "data_race 1 (reuse_trace push_head_order) 4 7 \<and> \<not> data_race 1 (reuse_trace push_head_order) 1 4 \<and>
   \<not> data_race 1 (reuse_trace Acquire) 4 7"
  using slot_reuse_races [OF reuse_exec [of push_head_order], of 4 7]
    slot_reuse_races [OF reuse_exec [of push_head_order], of 1 4] slot_reuse_races [OF reuse_exec [of Acquire], of 4 7]
  by (simp add: conflict_def reuse_trace_def push_head_order_def)

section \<open>Calls end\<close>

text \<open>A thread is between two calls.\<close>

fun idle :: "thread \<Rightarrow> spsc \<Rightarrow> bool" where
  "idle Producer s \<longleftrightarrow> sp_prod s = P_idle"
| "idle Consumer s \<longleftrightarrow> sp_cons s = C_idle"

text \<open>Runs in which thread \<open>th\<close> makes \<open>n\<close> steps and completes \<open>m\<close> calls, the other thread any steps.\<close>

inductive own_steps :: "thread \<Rightarrow> spsc \<Rightarrow> nat \<Rightarrow> nat \<Rightarrow> spsc \<Rightarrow> bool" for th s where
  own_none: "own_steps th s 0 0 s"
| own_step: "own_steps th s n m t \<Longrightarrow> spsc_access push_head_order t th a t' \<Longrightarrow>
    own_steps th s (Suc n) (m + of_bool (idle th t')) t'"
| other_step: "own_steps th s n m t \<Longrightarrow> spsc_access push_head_order t th' a t' \<Longrightarrow> th' \<noteq> th \<Longrightarrow>
    own_steps th s n m t'"

text \<open>How many steps of its call a thread has made.\<close>

fun progress :: "thread \<Rightarrow> spsc \<Rightarrow> nat" where
  "progress Producer s = (case sp_prod s of P_idle \<Rightarrow> 0 | P_loaded_head f h \<Rightarrow> 1 | P_room f t \<Rightarrow> 2 | P_written f t \<Rightarrow> 3)"
| "progress Consumer s = (case sp_cons s of C_idle \<Rightarrow> 0 | C_loaded_head h \<Rightarrow> 1 | C_data h \<Rightarrow> 2 | C_read h f \<Rightarrow> 3)"

lemma progress_own:
  assumes "spsc_access mo s th a s'"
  shows "Suc (progress th s) \<le> 4 * of_bool (idle th s') + progress th s'"
  using assms by (cases rule: spsc_access.cases) simp_all

lemma progress_other:
  assumes "spsc_access mo s th' a s'" and "th' \<noteq> th"
  shows "progress th s' = progress th s"
  using assms by (cases th; cases rule: spsc_access.cases) simp_all

lemma own_steps_bound: "own_steps th s n m t \<Longrightarrow> progress th s + n \<le> 4 * m + progress th t"
proof (induction rule: own_steps.induct)
  case (own_step n m t a t')
  then show ?case using progress_own [OF own_step(2)] by simp
next
  case (other_step n m t th' a t')
  then show ?case using progress_other by metis
qed simp

lemma progress_le: "progress th s \<le> 3"
  by (cases th) (simp_all split: producer.split consumer.split)

lemma own_steps_reachable: "own_steps th s n m t \<Longrightarrow> reachable c s \<Longrightarrow> reachable c t"
  by (induction rule: own_steps.induct) (auto intro: reachable.more)

lemma always_enabled:
  assumes "length (ghost_out s) \<le> length (ghost_in s)"
  shows "\<exists>a s'. spsc_access mo s th a s'"
proof (cases th)
  case Producer
  show ?thesis unfolding Producer by (rule producer_enabled)
next
  case Consumer
  show ?thesis
  proof (cases "sp_cons s")
    case (C_loaded_head h)
    then show ?thesis
      unfolding Consumer using pop_none [OF C_loaded_head order_refl assms]
        pop_data [OF C_loaded_head order_refl assms] by blast
  qed (unfold Consumer, (blast intro: spsc_access.intros)+)
qed

text \<open>C28: The ring buffer is wait-free. Whatever the other thread does, and however stale the indices
  are that a thread reads, a thread that made \<open>n\<close> steps has completed at least \<open>(n - 3) / 4\<close> calls of
  \<^verbatim>\<open>push\<close> or \<^verbatim>\<open>pop\<close>: no call takes more than four steps; and it can always make another step, in every
  state reachable before 2^64 frames were accepted.\<close>

theorem wait_free:
  assumes "reachable c s" and "own_steps th s n m t" and "length (ghost_in t) < 2 ^ 64"
  shows "n \<le> 4 * m + 3 \<and> (idle th s \<and> idle th t \<longrightarrow> n \<le> 4 * m) \<and>
    (\<exists>a t'. spsc_access push_head_order t th a t')"
proof -
  have "length (ghost_out t) \<le> length (ghost_in t)"
    using inv_reachable [OF own_steps_reachable [OF assms(2,1)]] assms(3)
    by (simp add: small_def spsc_inv_def ring_inv_def)
  moreover have "idle th x \<Longrightarrow> progress th x = 0" for x by (cases th) simp_all
  ultimately show ?thesis
    using own_steps_bound [OF assms(2)] progress_le [of th t] always_enabled by fastforce
qed

text \<open>A first push into a ring of two, four steps.\<close>

theorem wait_free_witness:
  "\<exists>t. own_steps Producer (spsc_init 2) 4 1 t \<and> (\<exists>a t'. spsc_access push_head_order t Producer a t')"
proof -
  let ?s = "spsc_init 2" and ?o = push_head_order and ?f = "qframe 1"
  have s: "sp_prod ?s = P_idle" "ghost_in ?s = []" "sp_tail ?s = 0" "sp_capacity ?s = 2"
    by (simp_all add: spsc_init_def new_Pipeline_def word_gt_0)
  let ?t = "?s\<lparr>sp_prod := P_loaded_head ?f 0\<rparr>"
  have "own_steps Producer ?s 1 0 ?t"
    using own_step [OF own_none [of Producer ?s] push_load_head [of ?s 0 ?o ?f]] s by simp
  from own_step [OF this push_room [of _ ?f 0]]
  have "own_steps Producer ?s (Suc 1) 0 (?t\<lparr>sp_prod := P_room ?f 0\<rparr>)"
    using s by (simp add: word_le_nat_alt)
  from own_step [OF this push_write [of _ ?f 0]]
  obtain t where "own_steps Producer ?s (Suc (Suc 1)) 0 t" "sp_prod t = P_written ?f 0" "ghost_in t = []"
    using s by auto
  from own_step [OF this(1) push_publish [OF this(2)]] this(3)
  obtain t where t: "own_steps Producer ?s 4 1 t" "length (ghost_in t) = 1"
    by (auto simp: eval_nat_numeral)
  show ?thesis using wait_free [OF start t(1)] t by auto
qed

end
