(* ===== verification/SpscSize.thy ===== *)
theory SpscSize
  imports SpscRing
begin

text \<open>
  What \<^verbatim>\<open>Pipeline::size\<close> (\<^verbatim>\<open>data/pipeline.cpp\<close>) tells a thread while the two threads of the ring
  buffer run: it loads the read index, later the write index, and subtracts. The consumer's load of
  the read index and the producer's load of the write index are exact; every other load may be
  stale. Between the two loads the other threads go on (the rely of the caller).
\<close>

text \<open>Steps of every thread but the caller.\<close>

definition meanwhile :: "thread option \<Rightarrow> spsc \<Rightarrow> spsc \<Rightarrow> bool" where
  "meanwhile who = (\<lambda>s s'. \<exists>th a. Some th \<noteq> who \<and> spsc_access push_head_order s th a s')\<^sup>*\<^sup>*"

text \<open>The caller loads the read index in the first state, the write index in the second one. A thread
  of the ring buffer calls it between two operations.\<close>

inductive load_size :: "thread option \<Rightarrow> spsc \<Rightarrow> spsc \<Rightarrow> u64 \<Rightarrow> bool" where
  by_consumer: "sp_cons s = C_idle \<Longrightarrow> meanwhile (Some Consumer) s s' \<Longrightarrow>
    length (ghost_out s) \<le> j \<Longrightarrow> j \<le> length (ghost_in s') \<Longrightarrow>
    load_size (Some Consumer) s s' (of_nat j - sp_head s)"
| by_producer: "sp_prod s = P_idle \<Longrightarrow> i \<le> length (ghost_out s) \<Longrightarrow> meanwhile (Some Producer) s s' \<Longrightarrow>
    load_size (Some Producer) s s' (sp_tail s' - of_nat i)"
| by_other: "i \<le> length (ghost_out s) \<Longrightarrow> meanwhile None s s' \<Longrightarrow> j \<le> length (ghost_in s') \<Longrightarrow>
    load_size None s s' (of_nat j - of_nat i)"

text \<open>The number of frames in the buffer.\<close>

definition waiting :: "spsc \<Rightarrow> nat" where
  "waiting s = length (ghost_in s) - length (ghost_out s)"

lemma meanwhile_induct [consumes 1, case_names refl step]:
  assumes "meanwhile who s t" and "P s"
    and "\<And>u v th a. meanwhile who s u \<Longrightarrow> Some th \<noteq> who \<Longrightarrow> spsc_access push_head_order u th a v \<Longrightarrow> P u \<Longrightarrow> P v"
  shows "P t"
  using assms(1) unfolding meanwhile_def
  by (induction rule: rtranclp_induct) (use assms(2,3) in \<open>auto simp: meanwhile_def\<close>)

lemma meanwhile_refl [simp]: "meanwhile who s s"
  by (simp add: meanwhile_def)

lemma meanwhile_next:
  "meanwhile who s u \<Longrightarrow> spsc_access push_head_order u th a v \<Longrightarrow> Some th \<noteq> who \<Longrightarrow> meanwhile who s v"
  unfolding meanwhile_def by (erule rtranclp.rtrancl_into_rtrancl) auto

lemmas meanwhile_step = meanwhile_next [where who = None, OF _ _ option.distinct(2)]

lemma meanwhile_reachable: "meanwhile who s t \<Longrightarrow> reachable c s \<Longrightarrow> reachable c t"
  by (induction rule: meanwhile_induct) (auto intro: more)

lemma only_consumer_pops: "meanwhile (Some Consumer) s t \<Longrightarrow>
    ghost_out t = ghost_out s \<and> sp_head t = sp_head s"
proof (induction rule: meanwhile_induct)
  case (step u v th a)
  then have "th = Producer" using thread.exhaust by auto
  with step(3) have "ghost_out v = ghost_out u \<and> sp_head v = sp_head u" by (cases rule: spsc_access.cases) simp_all
  then show ?case using step by simp
qed simp

lemma ghost_out_mono:
  assumes "meanwhile who s t"
  shows "length (ghost_out s) \<le> length (ghost_out t)"
  using assms
proof (induction rule: meanwhile_induct)
  case (step u v th a)
  from step(3) have "length (ghost_out u) \<le> length (ghost_out v)"
    by (cases rule: spsc_access.cases) simp_all
  then show ?case using step by simp
qed simp

text \<open>A frame goes through an empty ring buffer while somebody else reads the indices.\<close>

definition quiescent :: "spsc \<Rightarrow> nat \<Rightarrow> bool" where
  "quiescent s k \<longleftrightarrow> sp_prod s = P_idle \<and> sp_cons s = C_idle \<and> length (ghost_in s) = k \<and>
     length (ghost_out s) = k \<and> sp_head s = of_nat k \<and> sp_tail s = of_nat k \<and> 0 < sp_capacity s"

lemma one_through:
  assumes "quiescent s k" and "meanwhile None r s" and "Suc k < 2 ^ 64"
  shows "\<exists>t. meanwhile None r t \<and> quiescent t (Suc k)"
proof -
  let ?f = "zero_frame" and ?t = "of_nat k :: u64"
  have q: "sp_prod s = P_idle" "sp_cons s = C_idle" "length (ghost_in s) = k" "length (ghost_out s) = k"
    "sp_head s = ?t" "sp_tail s = ?t" "0 < sp_capacity s"
    using assms(1) by (simp_all add: quiescent_def)
  let ?s1 = "s\<lparr>sp_prod := P_loaded_head ?f ?t\<rparr>"
  let ?s2 = "?s1\<lparr>sp_prod := P_room ?f ?t\<rparr>"
  let ?s3 = "?s2\<lparr>sp_prod := P_written ?f ?t, sp_buf := (sp_buf s)[sp_slot ?s2 ?t := ?f]\<rparr>"
  let ?s4 = "?s3\<lparr>sp_prod := P_idle, sp_tail := ?t + 1, ghost_in := ghost_in s @ [?f]\<rparr>"
  let ?s5 = "?s4\<lparr>sp_cons := C_loaded_head ?t\<rparr>"
  let ?s6 = "?s5\<lparr>sp_cons := C_data ?t\<rparr>"
  have ne: "?t \<noteq> of_nat (Suc k)" using index_inj [of k "Suc k"] assms(3) by simp
  have "meanwhile None r ?s1"
    using meanwhile_step [OF assms(2) push_load_head [of s k _ ?f]] q by simp
  from meanwhile_step [OF this push_room [of _ ?f ?t]] have "meanwhile None r ?s2"
    using q by (simp add: word_le_nat_alt word_gt_0 unat_gt_0)
  from meanwhile_step [OF this push_write [of _ ?f ?t]] have "meanwhile None r ?s3" by simp
  from meanwhile_step [OF this push_publish [of _ ?f ?t]] have "meanwhile None r ?s4" by simp
  from meanwhile_step [OF this pop_load_head] have "meanwhile None r ?s5" using q by simp
  from meanwhile_step [OF this pop_data [of _ ?t "Suc k"]] have "meanwhile None r ?s6" using q ne by simp
  from meanwhile_step [OF this pop_read [of _ ?t]] obtain g where
    "meanwhile None r (?s6\<lparr>sp_cons := C_read ?t g\<rparr>)" by simp
  from meanwhile_step [OF this pop_publish [of _ ?t g]]
  have "meanwhile None r (?s6\<lparr>sp_cons := C_idle, sp_head := ?t + 1, ghost_out := ghost_out s @ [g]\<rparr>)" by simp
  moreover have "quiescent (?s6\<lparr>sp_cons := C_idle, sp_head := ?t + 1, ghost_out := ghost_out s @ [g]\<rparr>) (Suc k)"
    using q by (simp add: quiescent_def add.commute)
  ultimately show ?thesis by blast
qed

lemma any_number_through: "k < 2 ^ 64 \<Longrightarrow> \<exists>t. meanwhile None (spsc_init c) t \<and> quiescent t k"
proof (induction k)
  case 0
  have "quiescent (spsc_init c) 0"
    by (simp add: quiescent_def spsc_init_def new_Pipeline_def word_gt_0)
  then show ?case using meanwhile_refl by blast
next
  case (Suc k)
  then obtain t where "meanwhile None (spsc_init c) t" "quiescent t k" by auto
  then show ?case using one_through Suc.prems by blast
qed

text \<open>C29: What the number of frames reported by \<^verbatim>\<open>size\<close> is worth while both threads run (before 2^64
  frames). To the consumer it is a lower bound of what waits, hence at most the capacity: if it is
  not zero a frame is there. To the producer it is an upper bound: if it is below the capacity there
  is room. To a third thread it says nothing: whatever the capacity, any 64-bit number can come out.\<close>

theorem size_by_caller:
  assumes "reachable c s" and "load_size who s s' n" and "length (ghost_in s') < 2 ^ 64"
  shows "(who = Some Consumer \<longrightarrow> unat n \<le> waiting s' \<and> waiting s' \<le> max 1 (unat c)) \<and>
    (who = Some Producer \<longrightarrow> waiting s' \<le> unat n) \<and>
    (\<exists>t. load_size None (spsc_init c') t m)"
proof -
  obtain t where t: "meanwhile None (spsc_init c') t" "quiescent t (unat m)"
    using any_number_through [of "unat m" c'] unsigned_less [of m] by auto
  have "load_size None (spsc_init c') t (of_nat (unat m) - of_nat 0)"
    using t by (intro by_other) (simp_all add: quiescent_def)
  then have other: "load_size None (spsc_init c') t m" by simp
  have m: "meanwhile who s s'" using assms(2) by cases auto
  have "small s'" using assms(3) by (simp add: small_def)
  then have "spsc_inv s'" using inv_reachable meanwhile_reachable [OF m assms(1)] by blast
  then have i: "length (ghost_out s') \<le> length (ghost_in s')" "sp_head s' = of_nat (length (ghost_out s'))"
    "sp_tail s' = of_nat (length (ghost_in s'))"
    "length (ghost_in s') \<le> length (ghost_out s') + unat (sp_capacity s')"
    by (simp_all add: spsc_inv_def ring_inv_def)
  have sub: "unat (of_nat a - of_nat b :: u64) = a - b" if "b \<le> a" "a \<le> length (ghost_in s')" for a b
    using that assms(3) by (simp add: unat_index flip: of_nat_diff del: unat_of_nat)
  show ?thesis
  proof (intro conjI impI)
    assume "who = Some Consumer"
    with assms(2) obtain j where j: "length (ghost_out s) \<le> j" "j \<le> length (ghost_in s')" "n = of_nat j - sp_head s"
      by cases auto
    have "ghost_out s' = ghost_out s" "sp_head s' = sp_head s"
      using only_consumer_pops [of s s'] m \<open>who = _\<close> by blast+
    then have "unat n = j - length (ghost_out s')" using sub [of "length (ghost_out s')" j] j i(2) by simp
    then show "unat n \<le> waiting s'" using j(2) by (simp add: waiting_def)
    have "unat (sp_capacity s') = max 1 (unat c)"
      using capacity_reachable [OF meanwhile_reachable [OF m assms(1)]] capacity_fresh by simp
    then show "waiting s' \<le> max 1 (unat c)" using i(4) by (simp add: waiting_def)
  next
    assume "who = Some Producer"
    with assms(2) obtain k where k: "k \<le> length (ghost_out s)" "n = sp_tail s' - of_nat k" by cases auto
    then have "unat n = length (ghost_in s') - k"
      using sub [of k "length (ghost_in s')"] ghost_out_mono [OF m] i(1,3) by simp
    then show "waiting s' \<le> unat n" using k(1) ghost_out_mono [OF m] by (simp add: waiting_def)
  next
    show "\<exists>t. load_size None (spsc_init c') t m" using other by blast
  qed
qed

text \<open>The consumer of a ring of two asks, and a frame arrives between the two loads.\<close>

theorem size_by_caller_witness:
  "\<exists>t. load_size (Some Consumer) (spsc_init 2) t 1 \<and> unat (1 :: u64) \<le> waiting t \<and>
     (\<exists>u. load_size None (spsc_init 2) u (- 1))"
proof -
  let ?s = "spsc_init 2" and ?f = "zero_frame" and ?w = "Some Consumer"
  have s: "sp_prod ?s = P_idle" "sp_cons ?s = C_idle" "ghost_in ?s = []" "ghost_out ?s = []" "sp_head ?s = 0"
    "sp_tail ?s = 0" "sp_capacity ?s = 2"
    by (simp_all add: spsc_init_def new_Pipeline_def word_gt_0)
  let ?t = "?s\<lparr>sp_prod := P_loaded_head ?f 0\<rparr>"
  have "meanwhile ?w ?s ?t"
    using meanwhile_next [OF meanwhile_refl push_load_head [of ?s 0 _ ?f], of ?w] s by simp
  from meanwhile_next [OF this push_room [of _ ?f 0]]
  have "meanwhile ?w ?s (?t\<lparr>sp_prod := P_room ?f 0\<rparr>)"
    using s by (simp add: word_le_nat_alt)
  from meanwhile_next [OF this push_write [of _ ?f 0]]
  obtain t where "meanwhile ?w ?s t" "sp_prod t = P_written ?f 0" "ghost_in t = []"
    using s by auto
  from meanwhile_next [OF this(1) push_publish [OF this(2)]] this(3)
  obtain t where t: "meanwhile ?w ?s t" "length (ghost_in t) = 1" by auto
  have "load_size ?w ?s t (of_nat 1 - sp_head ?s)"
    using t s by (intro by_consumer) simp_all
  then have l: "load_size ?w ?s t 1" using s by simp
  from size_by_caller [OF start l, of 2 "- 1"] show ?thesis using t(2) l by auto
qed

end
