(* ===== verification/WorkspaceMaps.thy ===== *)
theory WorkspaceMaps
  imports Workspace
begin

text \<open>
  The abstract object model: a finite map of channels by number, one of nodes by name, and the order
  in which channels and nodes were registered, which is what the handles count. The workspace of
  \<^verbatim>\<open>core/workspace.cpp\<close> with its vectors and linear searches refines it.
\<close>

record view =
  vw_channels :: "u8 \<rightharpoonup> Channel"
  vw_nodes :: "string \<rightharpoonup> Node"
  vw_channel_order :: "u8 list"
  vw_node_order :: "string list"

definition empty_view :: view where
  "empty_view = \<lparr>vw_channels = Map.empty, vw_nodes = Map.empty, vw_channel_order = [], vw_node_order = []\<rparr>"

text \<open>What each call means for the maps. A handle stands for the key registered at its place.\<close>

fun view_call :: "ws_call \<Rightarrow> view \<Rightarrow> view" where
  "view_call (AddChannel k type name) v =
     (if k \<in> dom (vw_channels v) then v
      else v\<lparr>vw_channels := (vw_channels v)(k \<mapsto> new_Channel k type name),
             vw_channel_order := vw_channel_order v @ [k]\<rparr>)"
| "view_call (AddNode k cid script) v =
     (if k \<in> dom (vw_nodes v) then v
      else v\<lparr>vw_nodes := (vw_nodes v)(k \<mapsto> new_Node k cid script), vw_node_order := vw_node_order v @ [k]\<rparr>)"
| "view_call (OnChannel i c) v =
     (let k = vw_channel_order v ! i
      in v\<lparr>vw_channels := (vw_channels v)(k := map_option (channel_do c) (vw_channels v k))\<rparr>)"
| "view_call (OnNode i c) v =
     (let k = vw_node_order v ! i
      in v\<lparr>vw_nodes := (vw_nodes v)(k := map_option (node_do c) (vw_nodes v k))\<rparr>)"
| "view_call ResetAll v = v\<lparr>vw_channels := map_option reset_stats \<circ> vw_channels v\<rparr>"

definition view_of :: "Workspace \<Rightarrow> view" where
  "view_of w = \<lparr>vw_channels = object_at find_channel ws_channels w, vw_nodes = object_at find_node ws_nodes w,
     vw_channel_order = channel_ids w, vw_node_order = node_names w\<rparr>"

interpretation chans: object_registry channel_ids find_channel
  "\<lambda>w k (type, name). add_channel w k type name" ws_channels ch_id "\<lambda>k (type, name). new_Channel k type name"
  by unfold_locales (auto simp: channel_ids_def add_channel_def Let_def split: prod.split)

interpretation nodes: object_registry node_names find_node
  "\<lambda>w k (cid, script). add_node w k cid script" ws_nodes nd_name "\<lambda>k (cid, script). new_Node k cid script"
  by unfold_locales (auto simp: node_names_def add_node_def Let_def split: prod.split)

lemmas channel_view = chans.object_at_add [where a = "(_, _)", unfolded prod.case]
lemmas node_view = nodes.object_at_add [where a = "(_, _)", unfolded prod.case]

lemma other_list [simp]:
  "ws_nodes (snd (add_channel w k t n)) = ws_nodes w"
  by (simp add: add_channel_def Let_def)

lemma view_step:
  assumes "ws_step w c w'" and "ws_inv w"
  shows "view_of w' = view_call c (view_of w)"
proof -
  have d: "distinct (channel_ids w)" "distinct (node_names w)" using assms(2) by (simp_all add: ws_inv_def)
  note ids = channel_ids_step [OF assms(1)] and names = node_names_step [OF assms(1)]
  have in_dom: "k \<in> dom (object_at find_channel ws_channels w) \<longleftrightarrow> find_channel w k \<noteq> None"
    "n \<in> dom (object_at find_node ws_nodes w) \<longleftrightarrow> find_node w n \<noteq> None" for k n
    by (auto simp: object_at_def)
  show ?thesis
  proof (cases c)
    case (AddChannel k t n)
    then have w': "w' = snd (add_channel w k t n)" using assms(1) by (auto elim: ws_stepE)
    show ?thesis
      using AddChannel ids names channel_view [of w k t n] nodes.object_at_same [of w' w] in_dom(1) [of k] w'
      by (auto simp: view_of_def)
  next
    case (AddNode k cid script)
    then have w': "w' = snd (add_node w k cid script)" using assms(1) by (auto elim: ws_stepE)
    show ?thesis
      using AddNode ids names node_view [of w k cid script] chans.object_at_same [of w' w] in_dom(2) [of k] w'
      by (auto simp: view_of_def)
  next
    case (OnChannel i f)
    then have w': "i < length (ws_channels w)"
      "w' = w\<lparr>ws_channels := (ws_channels w)[i := channel_do f (ws_channels w ! i)]\<rparr>"
      using assms(1) by (auto elim: ws_stepE simp: channels_def)
    show ?thesis
      using OnChannel ids names chans.object_at_update [OF d(1) w'(1), of w' "channel_do f"]
        nodes.object_at_same [of w' w] w'(2)
      by (simp add: view_of_def Let_def)
  next
    case (OnNode i f)
    then have w': "i < length (ws_nodes w)" "w' = w\<lparr>ws_nodes := (ws_nodes w)[i := node_do f (ws_nodes w ! i)]\<rparr>"
      using assms(1) by (auto elim: ws_stepE)
    show ?thesis
      using OnNode ids names nodes.object_at_update [OF d(2) w'(1), of w' "node_do f"]
        chans.object_at_same [of w' w] w'(2)
      by (simp add: view_of_def Let_def)
  next
    case ResetAll
    then have w': "w' = reset_all_stats w" using assms(1) by (auto elim: ws_stepE)
    show ?thesis
      using ResetAll ids names chans.object_at_map [of w' reset_stats w] nodes.object_at_same [of w' w] w'
      by (simp add: view_of_def reset_all_stats_def reset_stats_def)
  qed
qed

lemma view_run:
  "ws_run w cs w' \<Longrightarrow> ws_inv w \<Longrightarrow> view_of w' = fold view_call cs (view_of w) \<and> ws_inv w'"
proof (induction rule: ws_run.induct)
  case (ws_more w c w1 cs w2)
  then show ?case using view_step ws_inv_step by simp
qed simp

lemma empty_start: "ws_inv empty_Workspace" "view_of empty_Workspace = empty_view"
  by (auto simp: ws_inv_def totals_ok_def empty_Workspace_def channel_ids_def node_names_def view_of_def
      empty_view_def object_at_def find_channel_def find_node_def)

text \<open>C23: The workspace is a pair of finite maps. After any run of calls on a new workspace, looking up
  a channel number or a node name gives what the same calls give on abstract maps, and the handles
  count the keys in the order of their registration; the next registration of a channel returns a
  handle exactly if the map does not have its number, namely the number of bindings.\<close>

theorem workspace_refines_maps:
  assumes "ws_run empty_Workspace cs w"
  shows "view_of w = fold view_call cs empty_view \<and>
    fst (add_channel w k type name) =
      (if k \<in> dom (vw_channels (fold view_call cs empty_view)) then None
       else Some (card (dom (vw_channels (fold view_call cs empty_view)))))"
proof -
  have v: "view_of w = fold view_call cs empty_view" "ws_inv w"
    using view_run [OF assms] empty_start by simp_all
  then have m: "dom (vw_channels (fold view_call cs empty_view)) = set (channel_ids w)"
    using chans.dom_object_at [of w] by (simp add: view_of_def flip: v(1))
  have "card (set (channel_ids w)) = length (channel_ids w)"
    using v(2) by (simp add: ws_inv_def distinct_card)
  then show ?thesis
    using v(1) m chan.add_handle [of w k "(type, name)"] chan.find_None [of w k] by auto
qed

theorem workspace_refines_maps_witness:
  "\<exists>w. ws_run empty_Workspace [AddChannel 3 BT_BUS_CAN ''body'', OnChannel 0 Rx, AddChannel 3 BT_BUS_LIN ''x''] w \<and>
     map_option ch_rx_count (object_at find_channel ws_channels w 3) = Some 1 \<and>
     fst (add_channel w 4 BT_BUS_LIN ''y'') = Some 1"
proof -
  let ?cs = "[AddChannel 3 BT_BUS_CAN ''body'', OnChannel 0 Rx, AddChannel 3 BT_BUS_LIN ''x'']"
  have "ws_exec_all empty_Workspace ?cs \<noteq> None"
    by (simp add: empty_Workspace_def add_channel_def find_channel_def)
  then obtain w where w: "ws_run empty_Workspace ?cs w" by (auto simp: ws_run_exec)
  have f: "vw_channels (fold view_call ?cs empty_view) = [3 \<mapsto> on_frame_rx (new_Channel 3 BT_BUS_CAN ''body'')]"
    by (simp add: empty_view_def Let_def)
  note r = workspace_refines_maps [OF w, of 4 BT_BUS_LIN "''y''", unfolded f]
  have "object_at find_channel ws_channels w = vw_channels (view_of w)" by (simp add: view_of_def)
  also have "\<dots> = [3 \<mapsto> on_frame_rx (new_Channel 3 BT_BUS_CAN ''body'')]" using r f by metis
  finally have "map_option ch_rx_count (object_at find_channel ws_channels w 3) = Some 1"
    by (simp add: on_frame_rx_def new_Channel_def)
  then show ?thesis using w r by auto
qed

end
