(* ===== verification/CaptureControl.thy ===== *)
theory CaptureControl
  imports Prelude
begin

text \<open>
  The life cycle of the capture thread (\<^verbatim>\<open>data/capture_service.cpp\<close>), step by step: what \<^verbatim>\<open>start\<close> and
  \<^verbatim>\<open>stop\<close> do to the flag \<^verbatim>\<open>running_\<close> and to the thread handle \<^verbatim>\<open>worker_\<close>, interleaved with the threads
  that were started and with each other when several threads control one service. The frames
  a turn of the loop moves are the subject of \<^verbatim>\<open>CaptureService\<close>. Assigning to a handle that still
  has a thread, and destroying one, ends the program (\<^verbatim>\<open>std::terminate\<close>).
\<close>

section \<open>Steps\<close>

text \<open>Where a controlling thread is: between calls, in \<^verbatim>\<open>start\<close> (before the device is opened, the flag
  set, the thread made), in \<^verbatim>\<open>stop\<close> (after the exchange).\<close>

datatype ctl_pc = Ready | Start_device | Start_flag | Start_thread | Stop_join

text \<open>A capture thread is at its loop condition, in the body, or has returned.\<close>

datatype worker = At_test | In_body | Returned

record ctl =
  ct_running :: bool
  ct_open :: bool
  ct_handle :: "nat option"
  ct_workers :: "worker list"
  ct_pc :: "nat \<Rightarrow> ctl_pc"
  ct_terminated :: bool

definition ctl_init :: ctl where
  "ctl_init = \<lparr>ct_running = False, ct_open = False, ct_handle = None, ct_workers = [],
     ct_pc = (\<lambda>_. Ready), ct_terminated = False\<rparr>"

abbreviation goto :: "nat \<Rightarrow> ctl_pc \<Rightarrow> ctl \<Rightarrow> ctl" where
  "goto i p s \<equiv> s\<lparr>ct_pc := (ct_pc s)(i := p)\<rparr>"

text \<open>Who makes a step: a controlling thread, or a capture thread.\<close>

datatype actor = Controller nat | Capture nat

fun may_act :: "nat set \<Rightarrow> actor \<Rightarrow> bool" where
  "may_act cs (Controller i) \<longleftrightarrow> i \<in> cs"
| "may_act cs (Capture w) \<longleftrightarrow> True"

inductive ctl_step :: "actor \<Rightarrow> ctl \<Rightarrow> ctl \<Rightarrow> bool" where
  start_running: "\<not> ct_terminated s \<Longrightarrow> ct_pc s i = Ready \<Longrightarrow> ct_running s \<Longrightarrow> ctl_step (Controller i) s s"
| start_begin: "\<not> ct_terminated s \<Longrightarrow> ct_pc s i = Ready \<Longrightarrow> \<not> ct_running s \<Longrightarrow>
    ctl_step (Controller i) s (goto i Start_device s)"
| start_opened: "\<not> ct_terminated s \<Longrightarrow> ct_pc s i = Start_device \<Longrightarrow>
    ctl_step (Controller i) s (goto i Start_flag (s\<lparr>ct_open := True\<rparr>))"
| start_not_opened: "\<not> ct_terminated s \<Longrightarrow> ct_pc s i = Start_device \<Longrightarrow> \<not> ct_open s \<Longrightarrow>
    ctl_step (Controller i) s (goto i Ready s)"
| start_set: "\<not> ct_terminated s \<Longrightarrow> ct_pc s i = Start_flag \<Longrightarrow>
    ctl_step (Controller i) s (goto i Start_thread (s\<lparr>ct_running := True\<rparr>))"
| start_thread: "\<not> ct_terminated s \<Longrightarrow> ct_pc s i = Start_thread \<Longrightarrow> ct_handle s = None \<Longrightarrow>
    ctl_step (Controller i) s (goto i Ready
      (s\<lparr>ct_handle := Some (length (ct_workers s)), ct_workers := ct_workers s @ [At_test]\<rparr>))"
| start_terminates: "\<not> ct_terminated s \<Longrightarrow> ct_pc s i = Start_thread \<Longrightarrow> ct_handle s = Some w \<Longrightarrow>
    ctl_step (Controller i) s (s\<lparr>ct_workers := ct_workers s @ [At_test], ct_terminated := True\<rparr>)"
| stop_stopped: "\<not> ct_terminated s \<Longrightarrow> ct_pc s i = Ready \<Longrightarrow> \<not> ct_running s \<Longrightarrow> ctl_step (Controller i) s s"
| stop_exchange: "\<not> ct_terminated s \<Longrightarrow> ct_pc s i = Ready \<Longrightarrow> ct_running s \<Longrightarrow>
    ctl_step (Controller i) s (goto i Stop_join (s\<lparr>ct_running := False\<rparr>))"
| stop_not_joinable: "\<not> ct_terminated s \<Longrightarrow> ct_pc s i = Stop_join \<Longrightarrow> ct_handle s = None \<Longrightarrow>
    ctl_step (Controller i) s (goto i Ready s)"
| stop_joined: "\<not> ct_terminated s \<Longrightarrow> ct_pc s i = Stop_join \<Longrightarrow> ct_handle s = Some w \<Longrightarrow>
    ct_workers s ! w = Returned \<Longrightarrow> ctl_step (Controller i) s (goto i Ready (s\<lparr>ct_handle := None\<rparr>))"
| work_turn: "\<not> ct_terminated s \<Longrightarrow> w < length (ct_workers s) \<Longrightarrow> ct_workers s ! w = At_test \<Longrightarrow> ct_running s \<Longrightarrow>
    ctl_step (Capture w) s (s\<lparr>ct_workers := (ct_workers s)[w := In_body]\<rparr>)"
| work_return: "\<not> ct_terminated s \<Longrightarrow> w < length (ct_workers s) \<Longrightarrow> ct_workers s ! w = At_test \<Longrightarrow> \<not> ct_running s \<Longrightarrow>
    ctl_step (Capture w) s (s\<lparr>ct_workers := (ct_workers s)[w := Returned]\<rparr>)"
| work_again: "\<not> ct_terminated s \<Longrightarrow> w < length (ct_workers s) \<Longrightarrow> ct_workers s ! w = In_body \<Longrightarrow>
    ctl_step (Capture w) s (s\<lparr>ct_workers := (ct_workers s)[w := At_test]\<rparr>)"

inductive_cases ctl_stepE: "ctl_step a s s'"

text \<open>Runs in which the threads of \<open>cs\<close> control the service, with the number of their steps.\<close>

inductive ctl_steps :: "nat set \<Rightarrow> ctl \<Rightarrow> nat \<Rightarrow> ctl \<Rightarrow> bool" for cs s where
  no_step: "ctl_steps cs s 0 s"
| next_step: "ctl_steps cs s n t \<Longrightarrow> ctl_step a t u \<Longrightarrow> may_act cs a \<Longrightarrow> ctl_steps cs s (Suc n) u"

text \<open>The destructor: \<^verbatim>\<open>stop\<close> has returned, then the handle is destroyed.\<close>

definition destructor_terminates :: "ctl \<Rightarrow> bool" where
  "destructor_terminates s \<longleftrightarrow> ct_handle s \<noteq> None"

section \<open>Any number of controlling threads\<close>

text \<open>Every capture thread but the one of the handle has returned, until the program ends.\<close>

definition sole :: "ctl \<Rightarrow> bool" where
  "sole s \<longleftrightarrow> (\<forall>w. ct_handle s = Some w \<longrightarrow> w < length (ct_workers s)) \<and>
     (ct_terminated s \<or> (\<forall>w<length (ct_workers s). ct_handle s \<noteq> Some w \<longrightarrow> ct_workers s ! w = Returned))"

lemma sole_update:
  "\<forall>w<length ws. h \<noteq> Some w \<longrightarrow> ws ! w = Returned \<Longrightarrow> v < length ws \<Longrightarrow> ws ! v \<noteq> Returned \<Longrightarrow>
   \<forall>w<length ws. h \<noteq> Some w \<longrightarrow> ws[v := x] ! w = Returned"
  by (auto simp: nth_list_update)

lemma sole_append:
  "\<forall>w<length ws. ws ! w = Returned \<Longrightarrow> w < Suc (length ws) \<Longrightarrow> length ws \<noteq> w \<Longrightarrow> (ws @ [x]) ! w = Returned"
  by (auto simp: nth_append less_Suc_eq)

lemma sole_init: "sole ctl_init"
  by (simp add: sole_def ctl_init_def)

lemma sole_step:
  assumes "ctl_step a s s'" and "sole s"
  shows "sole s'"
  using assms(1)
proof (cases rule: ctl_step.cases)
  case (start_thread i)
  then show ?thesis using assms(2) sole_append [of "ct_workers s" _ At_test] by (simp add: sole_def)
next
  case (start_terminates i w)
  then show ?thesis using assms(2) by (simp add: sole_def less_SucI)
next
  case (work_turn w)
  then show ?thesis using assms(2) sole_update [of "ct_workers s" "ct_handle s" w] by (simp add: sole_def)
next
  case (work_return w)
  then show ?thesis using assms(2) sole_update [of "ct_workers s" "ct_handle s" w] by (simp add: sole_def)
next
  case (work_again w)
  then show ?thesis using assms(2) sole_update [of "ct_workers s" "ct_handle s" w] by (simp add: sole_def)
next
  case (stop_joined i w)
  then show ?thesis using assms(2) by (simp add: sole_def) metis
qed (use assms(2) in \<open>simp_all add: sole_def\<close>)

lemma sole_alive:
  assumes "sole s" and "\<not> ct_terminated s" and "w < length (ct_workers s)" and "ct_workers s ! w \<noteq> Returned"
  shows "ct_handle s = Some w"
  using assms unfolding sole_def by blast

lemma sole_count:
  assumes "sole s" and "\<not> ct_terminated s"
  shows "length (filter (\<lambda>w. w \<noteq> Returned) (ct_workers s)) \<le> 1"
proof -
  have "card {w. w < length (ct_workers s) \<and> ct_workers s ! w \<noteq> Returned} \<le> card {the (ct_handle s)}"
    by (rule card_mono) (use sole_alive [OF assms] in force)+
  then show ?thesis by (simp add: length_filter_conv_card)
qed

lemma sole_steps: "ctl_steps cs s n t \<Longrightarrow> sole s \<Longrightarrow> sole t"
  by (induction rule: ctl_steps.induct) (auto intro: sole_step)

section \<open>One controlling thread\<close>

text \<open>The handle is set between calls exactly while the service runs.\<close>

fun phase_ok :: "ctl_pc \<Rightarrow> bool \<Rightarrow> bool \<Rightarrow> bool" where
  "phase_ok Ready running handle \<longleftrightarrow> running = handle"
| "phase_ok Start_device running handle \<longleftrightarrow> \<not> running \<and> \<not> handle"
| "phase_ok Start_flag running handle \<longleftrightarrow> \<not> running \<and> \<not> handle"
| "phase_ok Start_thread running handle \<longleftrightarrow> running \<and> \<not> handle"
| "phase_ok Stop_join running handle \<longleftrightarrow> \<not> running \<and> handle"

definition ctl_inv :: "ctl \<Rightarrow> bool" where
  "ctl_inv s \<longleftrightarrow> \<not> ct_terminated s \<and> sole s \<and> phase_ok (ct_pc s 0) (ct_running s) (ct_handle s \<noteq> None)"

lemma ctl_inv_init: "ctl_inv ctl_init"
  by (simp add: ctl_inv_def sole_init) (simp add: ctl_init_def)

lemma ctl_inv_step:
  assumes "ctl_step a s s'" and "may_act {0} a" and "ctl_inv s"
  shows "ctl_inv s'"
proof -
  have "sole s'" using sole_step [OF assms(1)] assms(3) by (simp add: ctl_inv_def)
  moreover have "\<not> ct_terminated s' \<and> phase_ok (ct_pc s' 0) (ct_running s') (ct_handle s' \<noteq> None)"
    using assms by (cases rule: ctl_step.cases) (simp_all add: ctl_inv_def)
  ultimately show ?thesis by (simp add: ctl_inv_def)
qed

lemma ctl_inv_steps: "ctl_steps {0} s n t \<Longrightarrow> ctl_inv s \<Longrightarrow> ctl_inv t"
  by (induction rule: ctl_steps.induct) (auto intro: ctl_inv_step)

text \<open>The turns a stopped thread still makes.\<close>

fun turns_left :: "worker \<Rightarrow> nat" where
  "turns_left At_test = 1"
| "turns_left In_body = 2"
| "turns_left Returned = 0"

definition left :: "ctl \<Rightarrow> nat" where
  "left s = (case ct_handle s of None \<Rightarrow> 0 | Some w \<Rightarrow> turns_left (ct_workers s ! w))"

lemma left_bound: "left s \<le> 2"
proof -
  have "turns_left x \<le> 2" for x by (cases x) simp_all
  then show ?thesis by (simp add: left_def split: option.split)
qed

lemma joining_step:
  assumes "ctl_step a s s'" and "may_act {0} a" and "ctl_inv s" and "ct_pc s 0 = Stop_join"
  shows "left s = Suc (left s') \<and> ct_pc s' 0 = Stop_join \<or> left s = 0 \<and> ct_pc s' 0 = Ready"
proof -
  have w: "ct_handle s = Some w" if "w < length (ct_workers s)" "ct_workers s ! w \<noteq> Returned" for w
    using assms(3) that sole_alive by (simp add: ctl_inv_def)
  have i: "\<not> ct_running s" "ct_handle s \<noteq> None" using assms(3,4) by (simp_all add: ctl_inv_def)
  show ?thesis
    using assms(1)
  proof (cases rule: ctl_step.cases)
    case (work_return v)
    then show ?thesis using w [of v] assms(4) by (simp add: left_def)
  next
    case (work_again v)
    then show ?thesis using w [of v] assms(4) by (simp add: left_def)
  qed (use i assms(2,4) in \<open>simp_all add: left_def\<close>)
qed

lemma joining_enabled:
  assumes "ctl_inv s" and "ct_pc s 0 = Stop_join"
  shows "\<exists>a s'. may_act {0} a \<and> ctl_step a s s'"
proof -
  obtain w where w: "ct_handle s = Some w" "w < length (ct_workers s)" "\<not> ct_running s" "\<not> ct_terminated s"
    using assms by (auto simp: ctl_inv_def sole_def)
  show ?thesis
  proof (cases "ct_workers s ! w")
    case At_test
    from work_return [OF w(4,2) this w(3)] show ?thesis using may_act.simps by blast
  next
    case In_body
    from work_again [OF w(4,2) this] show ?thesis using may_act.simps by blast
  next
    case Returned
    from stop_joined [OF w(4) assms(2) w(1) this] show ?thesis using may_act.simps by blast
  qed
qed

text \<open>The steps made while the controlling thread waits in \<^verbatim>\<open>stop\<close>.\<close>

inductive joining :: "ctl \<Rightarrow> nat \<Rightarrow> ctl \<Rightarrow> bool" for s where
  joining_begin: "ct_pc s 0 = Stop_join \<Longrightarrow> joining s 0 s"
| joining_more: "joining s k t \<Longrightarrow> ctl_step a t u \<Longrightarrow> may_act {0} a \<Longrightarrow> ct_pc u 0 = Stop_join \<Longrightarrow>
    joining s (Suc k) u"

lemma joining_inv:
  "joining s k t \<Longrightarrow> ctl_inv s \<Longrightarrow> ctl_inv t \<and> ct_pc t 0 = Stop_join \<and> left s = k + left t"
proof (induction rule: joining.induct)
  case (joining_more k t a u)
  then have "ctl_inv t" "ct_pc t 0 = Stop_join" "left s = k + left t" by simp_all
  then show ?case
    using joining_step [OF joining_more(2,3)] ctl_inv_step [OF joining_more(2,3)] joining_more(4) by auto
qed simp

section \<open>Two controlling threads\<close>

definition two_calls :: "bool \<Rightarrow> bool \<Rightarrow> nat option \<Rightarrow> worker list \<Rightarrow> ctl_pc \<Rightarrow> ctl_pc \<Rightarrow> bool \<Rightarrow> ctl" where
  "two_calls r d h ws p q x = \<lparr>ct_running = r, ct_open = d, ct_handle = h, ct_workers = ws,
     ct_pc = (\<lambda>_. Ready)(0 := p, 1 := q), ct_terminated = x\<rparr>"

lemma two_calls_simps [simp]:
  "ct_running (two_calls r d h ws p q x) = r" "ct_handle (two_calls r d h ws p q x) = h"
  "ct_workers (two_calls r d h ws p q x) = ws" "ct_terminated (two_calls r d h ws p q x) = x"
  "ct_pc (two_calls r d h ws p q x) 0 = p" "ct_pc (two_calls r d h ws p q x) (Suc 0) = q"
  "goto 0 p' (two_calls r d h ws p q x) = two_calls r d h ws p' q x"
  "goto (Suc 0) q' (two_calls r d h ws p q x) = two_calls r d h ws p q' x"
  "(two_calls r d h ws p q x)\<lparr>ct_running := r'\<rparr> = two_calls r' d h ws p q x"
  "(two_calls r d h ws p q x)\<lparr>ct_open := d'\<rparr> = two_calls r d' h ws p q x"
  "(two_calls r d h ws p q x)\<lparr>ct_handle := h'\<rparr> = two_calls r d h' ws p q x"
  "(two_calls r d h ws p q x)\<lparr>ct_workers := ws'\<rparr> = two_calls r d h ws' p q x"
  "(two_calls r d h ws p q x)\<lparr>ct_terminated := x'\<rparr> = two_calls r d h ws p q x'"
  by (auto simp: two_calls_def)

lemma two_calls_init: "ctl_init = two_calls False False None [] Ready Ready False"
  by (auto simp: ctl_init_def two_calls_def)

lemma by_two: "ctl_steps {0, 1} s n t \<Longrightarrow> ctl_step (Controller i) t u \<Longrightarrow> i < 2 \<Longrightarrow> ctl_steps {0, 1} s (Suc n) u"
  by (erule next_step) auto

lemma first_started:
  assumes "0 \<in> cs"
  shows "\<exists>n. ctl_steps cs ctl_init n (two_calls True True None [] Start_thread Ready False)"
proof -
  let ?r = "ctl_steps cs ctl_init"
  have one: "?r n t \<Longrightarrow> ctl_step (Controller 0) t u \<Longrightarrow> ?r (Suc n) u" for n t u
    using next_step [of cs ctl_init n t "Controller 0" u] assms may_act.simps(1) [of cs 0] by blast
  have "?r 0 (two_calls False False None [] Ready Ready False)" using no_step two_calls_init by metis
  from one [OF this start_begin]
  have "?r 1 (two_calls False False None [] Start_device Ready False)" by simp
  from one [OF this start_opened]
  have "?r (Suc 1) (two_calls False True None [] Start_flag Ready False)" by simp
  from one [OF this start_set] show ?thesis by auto
qed

text \<open>Both start: the second thread that is made is assigned to the handle of the first.\<close>

lemma two_starts: "\<exists>n t. ctl_steps {0, 1} ctl_init n t \<and> ct_terminated t"
proof -
  let ?r = "ctl_steps {0, 1} ctl_init"
  have "?r 0 (two_calls False False None [] Ready Ready False)" using no_step two_calls_init by metis
  from by_two [OF this start_begin [of _ 0]]
  have "?r 1 (two_calls False False None [] Start_device Ready False)" by simp
  from by_two [OF this start_begin [of _ 1]]
  have "?r (Suc 1) (two_calls False False None [] Start_device Start_device False)" by simp
  from by_two [OF this start_opened [of _ 0]]
  have "?r (Suc (Suc 1)) (two_calls False True None [] Start_flag Start_device False)" by simp
  from by_two [OF this start_opened [of _ 1]] obtain n where
    "?r n (two_calls False True None [] Start_flag Start_flag False)" by auto
  from by_two [OF this start_set [of _ 0]] obtain n where
    "?r n (two_calls True True None [] Start_thread Start_flag False)" by auto
  from by_two [OF this start_set [of _ 1]] obtain n where
    "?r n (two_calls True True None [] Start_thread Start_thread False)" by auto
  from by_two [OF this start_thread [of _ 0]] obtain n where
    "?r n (two_calls True True (Some 0) [At_test] Ready Start_thread False)" by auto
  from by_two [OF this start_terminates [of _ 1 0]] show ?thesis by fastforce
qed

text \<open>One starts, the other stops before the thread is made: the handle is never joined.\<close>

lemma start_and_stop:
  "\<exists>n t. ctl_steps {0, 1} ctl_init n t \<and> ct_pc t 0 = Ready \<and> ct_pc t 1 = Ready \<and> \<not> ct_running t \<and>
     destructor_terminates t"
proof -
  let ?r = "ctl_steps {0, 1} ctl_init"
  obtain n where "?r n (two_calls True True None [] Start_thread Ready False)"
    using first_started [of "{0, 1}"] by auto
  from by_two [OF this stop_exchange [of _ 1]] obtain n where
    "?r n (two_calls False True None [] Start_thread Stop_join False)" by auto
  from by_two [OF this stop_not_joinable [of _ 1]] obtain n where
    "?r n (two_calls False True None [] Start_thread Ready False)" by auto
  from by_two [OF this start_thread [of _ 0]] obtain n where
    "?r n (two_calls False True (Some 0) [At_test] Ready Ready False)" by auto
  then show ?thesis by (intro exI conjI, assumption) (simp_all add: destructor_terminates_def)
qed

section \<open>The property\<close>

text \<open>C5: The life cycle of the capture thread. For any number of controlling threads at most one
  capture thread has not returned (the ring buffer has one producer), as long as the program has not
  been ended. Under one controlling thread, whatever it calls and however the capture threads are
  scheduled, the program is never ended by the handle, after a return of \<^verbatim>\<open>stop\<close> all capture threads
  have returned and the service can be destroyed or started again, and \<^verbatim>\<open>stop\<close> waits for at most two
  steps of the thread and is never stuck. Two controlling threads have runs in which two calls of
  \<^verbatim>\<open>start\<close> end the program, and runs in which a \<^verbatim>\<open>stop\<close> during a \<^verbatim>\<open>start\<close> leaves a thread that is not
  joined when all calls have returned and the service is not running, so that its destructor would
  end the program. Nothing is said of how long \<^verbatim>\<open>stop\<close> waits there.\<close>

theorem capture_thread_life:
  assumes "ctl_steps {0} ctl_init n s"
  shows "\<not> ct_terminated s \<and> length (filter (\<lambda>w. w \<noteq> Returned) (ct_workers s)) \<le> 1 \<and>
    (ctl_steps cs ctl_init l v \<and> \<not> ct_terminated v \<longrightarrow>
       length (filter (\<lambda>w. w \<noteq> Returned) (ct_workers v)) \<le> 1) \<and>
    (ct_pc s 0 = Ready \<and> \<not> ct_running s \<longrightarrow>
       list_all (\<lambda>w. w = Returned) (ct_workers s) \<and> \<not> destructor_terminates s) \<and>
    (joining s k t \<longrightarrow> k \<le> 2 \<and> (\<exists>a u. may_act {0} a \<and> ctl_step a t u)) \<and>
    (\<exists>m u. ctl_steps {0, 1} ctl_init m u \<and> ct_terminated u) \<and>
    (\<exists>m u. ctl_steps {0, 1} ctl_init m u \<and> ct_pc u 0 = Ready \<and> ct_pc u 1 = Ready \<and> \<not> ct_running u \<and>
       destructor_terminates u)"
proof -
  have i: "ctl_inv s" using ctl_inv_steps [OF assms ctl_inv_init] .
  then have h: "w < length (ct_workers s) \<Longrightarrow> ct_workers s ! w \<noteq> Returned \<Longrightarrow> ct_handle s = Some w" for w
    using sole_alive by (simp add: ctl_inv_def)
  have "length (filter (\<lambda>w. w \<noteq> Returned) (ct_workers s)) \<le> 1"
    using sole_count i by (simp add: ctl_inv_def)
  moreover have "list_all (\<lambda>w. w = Returned) (ct_workers s) \<and> \<not> destructor_terminates s"
    if "ct_pc s 0 = Ready" "\<not> ct_running s"
    using i that h by (auto simp: ctl_inv_def destructor_terminates_def list_all_length)
  moreover have "k \<le> 2 \<and> (\<exists>a u. may_act {0} a \<and> ctl_step a t u)" if "joining s k t"
    using joining_inv [OF that i] left_bound [of s] joining_enabled by simp
  moreover have "\<not> ct_terminated s" using i by (simp add: ctl_inv_def)
  moreover have "length (filter (\<lambda>w. w \<noteq> Returned) (ct_workers v)) \<le> 1"
    if "ctl_steps cs ctl_init l v" "\<not> ct_terminated v"
    using sole_count sole_steps [OF that(1) sole_init] that(2) by simp
  ultimately show ?thesis using two_starts start_and_stop by blast
qed

text \<open>A start, a turn of the loop in progress, a stop, a second step of the thread.\<close>

theorem capture_thread_life_witness:
  "\<exists>n s t. ctl_steps {0} ctl_init n s \<and> joining s 1 t \<and> (\<exists>a u. may_act {0} a \<and> ctl_step a t u)"
proof -
  let ?r = "ctl_steps {0} ctl_init"
  have one: "?r n t \<Longrightarrow> ctl_step a t u \<Longrightarrow> may_act {0} a \<Longrightarrow> ?r (Suc n) u" for n t a u
    by (erule next_step)
  obtain n where "?r n (two_calls True True None [] Start_thread Ready False)"
    using first_started [of "{0}"] by auto
  from one [OF this start_thread [of _ 0]] obtain n where
    "?r n (two_calls True True (Some 0) [At_test] Ready Ready False)" by auto
  from one [OF this work_turn [of _ 0]] obtain n where
    "?r n (two_calls True True (Some 0) [In_body] Ready Ready False)" by auto
  let ?s = "two_calls False True (Some 0) [In_body] Stop_join Ready False"
  from one [OF \<open>?r n (two_calls True True (Some 0) [In_body] Ready Ready False)\<close> stop_exchange [of _ 0]]
  have s: "?r (Suc n) ?s" by simp
  have "joining ?s 1 (two_calls False True (Some 0) [At_test] Stop_join Ready False)"
    using joining_more [OF joining_begin work_again [of ?s 0]] by simp
  moreover from this have "\<exists>a u. may_act {0} a \<and>
      ctl_step a (two_calls False True (Some 0) [At_test] Stop_join Ready False) u"
    using capture_thread_life [OF s, where k = 1] by meson
  ultimately show ?thesis using s by meson
qed

end
