(* ===== verification/CaptureThreads.thy ===== *)
theory CaptureThreads
  imports CaptureControl SpscRaces CaptureService "HOL-Library.Sublist"
begin

text \<open>
  The capture service at work, all threads at once (\<^verbatim>\<open>data/capture_service.cpp\<close> over
  \<^verbatim>\<open>data/pipeline.cpp\<close>): any number of controlling threads call \<^verbatim>\<open>start\<close> and \<^verbatim>\<open>stop\<close>, the capture
  threads that exist read batches from the device and push them frame by frame, with the counters
  updated between the calls, and one consumer pops. Every access to something shared is a step:
  the steps of the handle and the flag are those of \<^verbatim>\<open>CaptureControl\<close>, the steps of the ring buffer
  those of \<^verbatim>\<open>SpscRing\<close>, where a capture thread brings its own place in \<^verbatim>\<open>push\<close>. That there is only
  one producer is not assumed here: it follows. The device may deliver any batch of at most the
  requested size. The handle is a plain object, and calls of two controllers race for it; its reads
  and writes are taken to be atomic.
\<close>

section \<open>States and steps\<close>

text \<open>Where a capture thread is in the body of its loop: before the read, at the loop over the rest of
  the batch, in \<^verbatim>\<open>push\<close>, after it with its result, before the count of the frame.\<close>

datatype turn =
    T_read
  | T_loop "bt_bus_frame list"
  | T_push producer "bt_bus_frame list"
  | T_pushed bool "bt_bus_frame list"
  | T_offer "bt_bus_frame list"

record sys =
  sy_ctl :: ctl
  sy_turn :: "nat \<Rightarrow> turn"
  sy_ring :: spsc
  sy_offered :: u64
  sy_pushed :: u64
  sy_poll_cycles :: u64
  ghost_read :: "bt_bus_frame list"

definition sys_init :: "u64 \<Rightarrow> sys" where
  "sys_init n = \<lparr>sy_ctl = ctl_init, sy_turn = (\<lambda>_. T_read), sy_ring = spsc_init n, sy_offered = 0,
     sy_pushed = 0, sy_poll_cycles = 0, ghost_read = []\<rparr>"

definition in_body :: "nat \<Rightarrow> ctl \<Rightarrow> bool" where
  "in_body w c \<longleftrightarrow> \<not> ct_terminated c \<and> w < length (ct_workers c) \<and> ct_workers c ! w = In_body"

abbreviation goto_turn :: "nat \<Rightarrow> turn \<Rightarrow> sys \<Rightarrow> sys" where
  "goto_turn w t y \<equiv> y\<lparr>sy_turn := (sy_turn y)(w := t)\<rparr>"

text \<open>The place in \<^verbatim>\<open>push\<close> before the last step tells its result.\<close>

fun published :: "producer \<Rightarrow> bool" where
  "published (P_written f t) = True"
| "published _ = False"

datatype sys_actor = Service actor | Reader

inductive sys_step :: "sys_actor \<Rightarrow> sys \<Rightarrow> sys \<Rightarrow> bool" where
  control: "ctl_step (Controller i) (sy_ctl y) c \<Longrightarrow>
    sys_step (Service (Controller i)) y (y\<lparr>sy_ctl := c\<rparr>)"
| loop_test: "ctl_step (Capture w) (sy_ctl y) c \<Longrightarrow> ct_workers (sy_ctl y) ! w = At_test \<Longrightarrow>
    sys_step (Service (Capture w)) y (goto_turn w T_read (y\<lparr>sy_ctl := c\<rparr>))"
| read_batch: "in_body w (sy_ctl y) \<Longrightarrow> sy_turn y w = T_read \<Longrightarrow> length batch \<le> kBatchFrames \<Longrightarrow>
    sys_step (Service (Capture w)) y (goto_turn w (T_loop batch) (y\<lparr>ghost_read := ghost_read y @ batch\<rparr>))"
| push_call: "in_body w (sy_ctl y) \<Longrightarrow> sy_turn y w = T_loop (f # fs) \<Longrightarrow>
    spsc_access push_head_order (sy_ring y) Producer a r \<Longrightarrow> sp_prod r = P_loaded_head f h \<Longrightarrow>
    sys_step (Service (Capture w)) y (goto_turn w (T_push (sp_prod r) fs) (y\<lparr>sy_ring := r\<lparr>sp_prod := P_idle\<rparr>\<rparr>))"
| push_step: "in_body w (sy_ctl y) \<Longrightarrow> sy_turn y w = T_push p fs \<Longrightarrow>
    spsc_access push_head_order (sy_ring y\<lparr>sp_prod := p\<rparr>) Producer a r \<Longrightarrow> sp_prod r \<noteq> P_idle \<Longrightarrow>
    sys_step (Service (Capture w)) y (goto_turn w (T_push (sp_prod r) fs) (y\<lparr>sy_ring := r\<lparr>sp_prod := P_idle\<rparr>\<rparr>))"
| push_return: "in_body w (sy_ctl y) \<Longrightarrow> sy_turn y w = T_push p fs \<Longrightarrow>
    spsc_access push_head_order (sy_ring y\<lparr>sp_prod := p\<rparr>) Producer a r \<Longrightarrow> sp_prod r = P_idle \<Longrightarrow>
    sys_step (Service (Capture w)) y (goto_turn w (T_pushed (published p) fs) (y\<lparr>sy_ring := r\<rparr>))"
| count_pushed: "in_body w (sy_ctl y) \<Longrightarrow> sy_turn y w = T_pushed ok fs \<Longrightarrow>
    sys_step (Service (Capture w)) y (goto_turn w (T_offer fs) (y\<lparr>sy_pushed := (if ok then sy_pushed y + 1 else sy_pushed y)\<rparr>))"
| count_offered: "in_body w (sy_ctl y) \<Longrightarrow> sy_turn y w = T_offer fs \<Longrightarrow>
    sys_step (Service (Capture w)) y (goto_turn w (T_loop fs) (y\<lparr>sy_offered := sy_offered y + 1\<rparr>))"
| turn_end: "in_body w (sy_ctl y) \<Longrightarrow> sy_turn y w = T_loop [] \<Longrightarrow> ctl_step (Capture w) (sy_ctl y) c \<Longrightarrow>
    sys_step (Service (Capture w)) y (y\<lparr>sy_ctl := c, sy_poll_cycles := sy_poll_cycles y + 1\<rparr>)"
| consume: "\<not> ct_terminated (sy_ctl y) \<Longrightarrow> spsc_access push_head_order (sy_ring y) Consumer a r \<Longrightarrow>
    sys_step Reader y (y\<lparr>sy_ring := r\<rparr>)"

fun allowed :: "nat set \<Rightarrow> sys_actor \<Rightarrow> bool" where
  "allowed cs (Service a) = may_act cs a"
| "allowed cs Reader = True"

inductive sys_run :: "nat set \<Rightarrow> u64 \<Rightarrow> sys \<Rightarrow> bool" for cs n where
  sys_start: "sys_run cs n (sys_init n)"
| sys_more: "sys_run cs n y \<Longrightarrow> sys_step a y y' \<Longrightarrow> allowed cs a \<Longrightarrow> sys_run cs n y'"

section \<open>The one turn in progress\<close>

text \<open>Between turns, the turn counts as finished.\<close>

definition current :: "ctl \<Rightarrow> (nat \<Rightarrow> turn) \<Rightarrow> turn" where
  "current c ts = (case ct_handle c of
     None \<Rightarrow> T_loop []
   | Some w \<Rightarrow> if ct_workers c ! w = In_body then ts w else T_loop [])"

lemma current_in_body:
  assumes "sole c" and "in_body w c"
  shows "ct_handle c = Some w" "current c ts = ts w"
proof -
  show "ct_handle c = Some w" using assms sole_alive [of c w] by (simp add: in_body_def)
  then show "current c ts = ts w" using assms(2) by (simp add: current_def in_body_def)
qed

lemma current_control:
  assumes "ctl_step (Controller i) c c'" and "sole c"
  shows "current c' ts = current c ts"
  using assms(1)
proof (cases rule: ctl_step.cases)
  case (start_terminates w)
  then show ?thesis using assms(2) by (simp add: current_def sole_def nth_append split: option.split)
qed (simp_all add: current_def nth_append split: option.split)

lemma current_test:
  assumes "ctl_step (Capture w) c c'" and "sole c" and "ct_workers c ! w = At_test"
  shows "current c ts = T_loop []" "current c' (ts(w := T_read)) \<in> {T_loop [], T_read}"
proof -
  have w: "ct_handle c = Some w"
    using assms(1) by (cases rule: ctl_step.cases) (use assms sole_alive in auto)
  then show "current c ts = T_loop []" using assms(3) by (simp add: current_def)
  show "current c' (ts(w := T_read)) \<in> {T_loop [], T_read}"
    using assms(1) by (cases rule: ctl_step.cases) (use w in \<open>simp_all add: current_def\<close>)
qed

lemma current_end:
  assumes "ctl_step (Capture w) c c'" and "sole c" and "in_body w c"
  shows "current c' ts = T_loop []"
  using assms(1) current_in_body(1) [OF assms(2,3)] assms(3)
  by (cases rule: ctl_step.cases) (simp_all add: current_def in_body_def)

section \<open>The invariant\<close>

fun in_push :: "turn \<Rightarrow> producer" where
  "in_push (T_push p fs) = p"
| "in_push _ = P_idle"

fun frame_of :: "producer \<Rightarrow> bt_bus_frame list" where
  "frame_of P_idle = []"
| "frame_of (P_loaded_head f h) = [f]"
| "frame_of (P_room f t) = [f]"
| "frame_of (P_written f t) = [f]"

text \<open>The frames of the batch that \<^verbatim>\<open>push\<close> has not yet decided on.\<close>

fun to_do :: "turn \<Rightarrow> bt_bus_frame list" where
  "to_do T_read = []"
| "to_do (T_loop fs) = fs"
| "to_do (T_push p fs) = frame_of p @ fs"
| "to_do (T_pushed ok fs) = fs"
| "to_do (T_offer fs) = fs"

text \<open>What the two counters of the service still miss.\<close>

fun late_pushed :: "turn \<Rightarrow> u64" where
  "late_pushed (T_pushed ok fs) = of_bool ok"
| "late_pushed _ = 0"

fun late_offered :: "turn \<Rightarrow> u64" where
  "late_offered (T_pushed ok fs) = 1"
| "late_offered (T_offer fs) = 1"
| "late_offered _ = 0"

definition ledger :: "turn \<Rightarrow> spsc \<Rightarrow> u64 \<Rightarrow> u64 \<Rightarrow> bt_bus_frame list \<Rightarrow> bool" where
  "ledger t r pushed offered rd \<longleftrightarrow>
     (\<exists>done. rd = done @ to_do t \<and> subseq (ghost_in r) done \<and>
        sp_dropped r = of_nat (length done - length (ghost_in r)) \<and>
        pushed + late_pushed t = of_nat (length (ghost_in r)) \<and>
        offered + late_offered t = of_nat (length done))"

abbreviation turn_of :: "sys \<Rightarrow> turn" where
  "turn_of y \<equiv> current (sy_ctl y) (sy_turn y)"

definition sys_inv :: "u64 \<Rightarrow> sys \<Rightarrow> bool" where
  "sys_inv n y \<longleftrightarrow> sole (sy_ctl y) \<and> sp_prod (sy_ring y) = P_idle \<and>
     reachable n (sy_ring y\<lparr>sp_prod := in_push (turn_of y)\<rparr>) \<and>
     (\<forall>fs. turn_of y \<noteq> T_push P_idle fs) \<and> length (to_do (turn_of y)) \<le> kBatchFrames \<and>
     ledger (turn_of y) (sy_ring y) (sy_pushed y) (sy_offered y) (ghost_read y)"

lemma fresh_ring: "sp_prod (spsc_init n) = P_idle" "ghost_in (spsc_init n) = []" "sp_dropped (spsc_init n) = 0"
  by (simp_all add: spsc_init_def new_Pipeline_def)

lemma set_same: "sp_prod s = p \<Longrightarrow> s\<lparr>sp_prod := p\<rparr> = s"
  by auto

lemma set_prod_last:
  "s\<lparr>sp_cons := c, sp_prod := p\<rparr> = s\<lparr>sp_prod := p, sp_cons := c\<rparr>"
  "s\<lparr>sp_cons := c, sp_head := h, ghost_out := g, sp_prod := p\<rparr> = s\<lparr>sp_prod := p, sp_cons := c, sp_head := h, ghost_out := g\<rparr>"
  by simp_all

lemma sys_inv_init: "sys_inv n (sys_init n)"
proof -
  have "current ctl_init ts = T_loop []" for ts by (simp add: current_def ctl_init_def)
  then show ?thesis
    using reachable.start [of n] by (simp add: sys_inv_def sys_init_def sole_init ledger_def fresh_ring set_same)
qed

lemma producer_step:
  assumes "spsc_access mo s Producer a r"
  shows "sp_prod r \<noteq> P_idle \<Longrightarrow> ghost_in r = ghost_in s \<and> sp_dropped r = sp_dropped s \<and>
      (sp_prod s \<noteq> P_idle \<longrightarrow> frame_of (sp_prod r) = frame_of (sp_prod s))"
    and "sp_prod r = P_idle \<Longrightarrow> published (sp_prod s) \<Longrightarrow>
      ghost_in r = ghost_in s @ frame_of (sp_prod s) \<and> sp_dropped r = sp_dropped s"
    and "sp_prod r = P_idle \<Longrightarrow> \<not> published (sp_prod s) \<Longrightarrow>
      ghost_in r = ghost_in s \<and> sp_dropped r = sp_dropped s + 1"
  using assms by (cases rule: spsc_access.cases; simp)+

lemma consumer_step:
  assumes "spsc_access mo s Consumer a r"
  shows "spsc_access mo (s\<lparr>sp_prod := p\<rparr>) Consumer a (r\<lparr>sp_prod := p\<rparr>)"
    and "ghost_in r = ghost_in s" "sp_dropped r = sp_dropped s" "sp_prod r = sp_prod s"
proof -
  show "spsc_access mo (s\<lparr>sp_prod := p\<rparr>) Consumer a (r\<lparr>sp_prod := p\<rparr>)"
    using assms
  proof (cases rule: spsc_access.cases)
    case pop_load_head
    then show ?thesis using spsc_access.pop_load_head [of "s\<lparr>sp_prod := p\<rparr>" mo] by (simp add: set_prod_last)
  next
    case (pop_none h j)
    then show ?thesis using spsc_access.pop_none [of "s\<lparr>sp_prod := p\<rparr>" h j mo] by (simp add: set_prod_last)
  next
    case (pop_data h j)
    then show ?thesis using spsc_access.pop_data [of "s\<lparr>sp_prod := p\<rparr>" h j mo] by (simp add: set_prod_last)
  next
    case (pop_read h)
    then show ?thesis using spsc_access.pop_read [of "s\<lparr>sp_prod := p\<rparr>" h mo] by (simp add: sp_slot_def set_prod_last)
  next
    case (pop_publish h f)
    then show ?thesis using spsc_access.pop_publish [of "s\<lparr>sp_prod := p\<rparr>" h f mo] by (simp add: set_prod_last)
  qed
  show "ghost_in r = ghost_in s" "sp_dropped r = sp_dropped s" "sp_prod r = sp_prod s"
    using assms by (cases rule: spsc_access.cases; simp)+
qed

lemma ledger_same:
  "ledger t r p q rd \<Longrightarrow> ghost_in r' = ghost_in r \<Longrightarrow> sp_dropped r' = sp_dropped r \<Longrightarrow> to_do t' = to_do t \<Longrightarrow>
   p' + late_pushed t' = p + late_pushed t \<Longrightarrow> q' + late_offered t' = q + late_offered t \<Longrightarrow> ledger t' r' p' q' rd"
  by (simp add: ledger_def)

lemma ledger_read: "ledger t r p q rd \<Longrightarrow> to_do t = [] \<Longrightarrow> late_pushed t = 0 \<Longrightarrow> late_offered t = 0 \<Longrightarrow>
    ledger (T_loop batch) r p q (rd @ batch)"
  by (simp add: ledger_def)

lemma ledger_published:
  assumes "ledger (T_push pr fs) r p q rd" and "frame_of pr = [f]" and "ghost_in r' = ghost_in r @ [f]"
    and "sp_dropped r' = sp_dropped r"
  shows "ledger (T_pushed True fs) r' p q rd"
proof -
  obtain d where d: "rd = d @ f # fs" "subseq (ghost_in r) d"
    "sp_dropped r = of_nat (length d - length (ghost_in r))" "p = of_nat (length (ghost_in r))" "q = of_nat (length d)"
    using assms(1,2) by (auto simp: ledger_def)
  have "subseq (ghost_in r @ [f]) (d @ [f])" using d(2) by (simp add: subseq_append')
  then show ?thesis
    using d assms(3,4) unfolding ledger_def by (intro exI [of _ "d @ [f]"]) simp
qed

lemma ledger_refused:
  assumes "ledger (T_push pr fs) r p q rd" and "frame_of pr = [f]" and "ghost_in r' = ghost_in r"
    and "sp_dropped r' = sp_dropped r + 1"
  shows "ledger (T_pushed False fs) r' p q rd"
proof -
  obtain d where d: "rd = d @ f # fs" "subseq (ghost_in r) d"
    "sp_dropped r = of_nat (length d - length (ghost_in r))" "p = of_nat (length (ghost_in r))" "q = of_nat (length d)"
    using assms(1,2) by (auto simp: ledger_def)
  have "length (ghost_in r) \<le> length d" using d(2) by (rule list_emb_length)
  then have "length (d @ [f]) - length (ghost_in r) = Suc (length d - length (ghost_in r))" by simp
  moreover have "subseq (ghost_in r) (d @ [f])" using d(2) by (simp add: list_emb_append_mono [of _ _ _ "[]" "[f]", simplified])
  ultimately show ?thesis
    using d assms(3,4) unfolding ledger_def by (intro exI [of _ "d @ [f]"]) simp
qed

text \<open>A turn of the only thread in the body: its place is the current one, and the ring buffer as the
  thread sees it makes a step or stays.\<close>

lemma body_step:
  assumes "sys_inv n y" and "in_body w (sy_ctl y)"
    and "sp_prod r = P_idle" and "reachable n (r\<lparr>sp_prod := in_push t\<rparr>)" and "t \<noteq> T_push P_idle (to_do t)"
    and "length (to_do t) \<le> kBatchFrames" and "ledger t r p q rd"
  shows "sys_inv n (goto_turn w t (y\<lparr>sy_ring := r, sy_pushed := p, sy_offered := q, ghost_read := rd\<rparr>))"
proof -
  have "current (sy_ctl y) ((sy_turn y)(w := t)) = t"
    using current_in_body(2) [of "sy_ctl y" w] assms(1,2) by (simp add: sys_inv_def)
  moreover have "t \<noteq> T_push P_idle fs" for fs using assms(5) by auto
  ultimately show ?thesis using assms(1,3,4,6,7) by (simp add: sys_inv_def)
qed

lemma sys_inv_step:
  assumes "sys_step who y y'" and "sys_inv n y"
  shows "sys_inv n y'"
proof -
  have so: "sole (sy_ctl y)" and pi: "sp_prod (sy_ring y) = P_idle"
    and re: "reachable n (sy_ring y\<lparr>sp_prod := in_push (turn_of y)\<rparr>)"
    and np: "\<And>fs. turn_of y \<noteq> T_push P_idle fs" and small: "length (to_do (turn_of y)) \<le> kBatchFrames"
    and le: "ledger (turn_of y) (sy_ring y) (sy_pushed y) (sy_offered y) (ghost_read y)"
    using assms(2) by (simp_all add: sys_inv_def)
  note here = current_in_body(2) [OF so] and same = set_same [OF pi]
  from assms(1) show ?thesis
  proof (cases rule: sys_step.cases)
    case (control i c)
    then show ?thesis
      using assms(2) sole_step [OF control(3) so] current_control [OF control(3) so] by (simp add: sys_inv_def)
  next
    case (loop_test w c)
    have t: "turn_of y = T_loop []" "turn_of y' = T_loop [] \<or> turn_of y' = T_read"
      using current_test [OF loop_test(3) so loop_test(4)] loop_test(2) by auto
    then have "ledger (turn_of y') (sy_ring y) (sy_pushed y) (sy_offered y) (ghost_read y)"
      using ledger_same [OF le] by auto
    then show ?thesis
      using t re pi sole_step [OF loop_test(3) so] loop_test(2) by (auto simp: sys_inv_def)
  next
    case (read_batch w batch)
    have t: "turn_of y = T_read" using here [OF read_batch(3)] read_batch(4) by simp
    then have "ledger (T_loop batch) (sy_ring y) (sy_pushed y) (sy_offered y) (ghost_read y @ batch)"
      using ledger_read [OF le] by simp
    from body_step [OF assms(2) read_batch(3) pi _ _ _ this] show ?thesis using read_batch(2,5) re t by simp
  next
    case (push_call w f fs a r h)
    have t: "turn_of y = T_loop (f # fs)" using here [OF push_call(3)] push_call(4) by simp
    have "reachable n r" using reachable.more [OF _ push_call(5)] re t same by simp
    moreover have "ledger (T_push (sp_prod r) fs) (r\<lparr>sp_prod := P_idle\<rparr>) (sy_pushed y) (sy_offered y) (ghost_read y)"
      using ledger_same [OF le] producer_step(1) [OF push_call(5)] push_call(6) t by simp
    from body_step [OF assms(2) push_call(3) _ _ _ _ this] calculation show ?thesis
      using push_call(2,6) set_same [OF push_call(6)] small t by simp
  next
    case (push_step w pr fs a r)
    have t: "turn_of y = T_push pr fs" using here [OF push_step(3)] push_step(4) by simp
    then have "pr \<noteq> P_idle" using np by auto
    have "reachable n r" using reachable.more [OF _ push_step(5)] re t by simp
    moreover have "ledger (T_push (sp_prod r) fs) (r\<lparr>sp_prod := P_idle\<rparr>) (sy_pushed y) (sy_offered y) (ghost_read y)"
      using ledger_same [OF le] producer_step(1) [OF push_step(5)] push_step(6) t \<open>pr \<noteq> P_idle\<close> by simp
    from body_step [OF assms(2) push_step(3) _ _ _ _ this] calculation show ?thesis
      using push_step(2,6) small producer_step(1) [OF push_step(5)] t \<open>pr \<noteq> P_idle\<close> by simp
  next
    case (push_return w pr fs a r)
    have t: "turn_of y = T_push pr fs" using here [OF push_return(3)] push_return(4) by simp
    then obtain f where f: "frame_of pr = [f]" using np by (cases pr) auto
    have "reachable n r" using reachable.more [OF _ push_return(5)] re t by simp
    moreover have "ledger (T_pushed (published pr) fs) r (sy_pushed y) (sy_offered y) (ghost_read y)"
      using ledger_published [OF le [unfolded t] f] ledger_refused [OF le [unfolded t] f]
        producer_step(2,3) [OF push_return(5) push_return(6)] f by (cases "published pr") simp_all
    from body_step [OF assms(2) push_return(3,6) _ _ _ this] calculation show ?thesis
      using push_return(2) set_same [OF push_return(6)] small t f by simp
  next
    case (count_pushed w ok fs)
    have t: "turn_of y = T_pushed ok fs" using here [OF count_pushed(3)] count_pushed(4) by simp
    let ?p = "if ok then sy_pushed y + 1 else sy_pushed y"
    have "ledger (T_offer fs) (sy_ring y) ?p (sy_offered y) (ghost_read y)"
      using ledger_same [OF le] t by simp
    from body_step [OF assms(2) count_pushed(3) pi _ _ _ this] show ?thesis using count_pushed(2) re t small by simp
  next
    case (count_offered w fs)
    have t: "turn_of y = T_offer fs" using here [OF count_offered(3)] count_offered(4) by simp
    have "ledger (T_loop fs) (sy_ring y) (sy_pushed y) (sy_offered y + 1) (ghost_read y)"
      using ledger_same [OF le] t by simp
    from body_step [OF assms(2) count_offered(3) pi _ _ _ this] show ?thesis using count_offered(2) re t small by simp
  next
    case (turn_end w c)
    have "turn_of y = T_loop []" using here [OF turn_end(3)] turn_end(4) by simp
    then show ?thesis
      using assms(2) sole_step [OF turn_end(5) so] current_end [OF turn_end(5) so turn_end(3)] turn_end(2)
      by (simp add: sys_inv_def)
  next
    case (consume a r)
    note c = consumer_step [OF consume(4)]
    have "reachable n (r\<lparr>sp_prod := in_push (turn_of y)\<rparr>)" using reachable.more [OF re c(1)] .
    then show ?thesis
      using assms(2) ledger_same [OF le c(2,3)] c(4) consume(2) by (simp add: sys_inv_def)
  qed
qed

lemma sys_inv_run: "sys_run cs n y \<Longrightarrow> sys_inv n y"
  by (induction rule: sys_run.induct) (auto intro: sys_inv_init sys_inv_step)

section \<open>Stopping\<close>

text \<open>The steps a capture thread has still to make before it returns, once the flag is cleared: at
  most four in \<^verbatim>\<open>push\<close> and two for the counters per frame.\<close>

fun push_left :: "producer \<Rightarrow> nat" where
  "push_left P_idle = 4"
| "push_left (P_loaded_head f h) = 3"
| "push_left (P_room f t) = 2"
| "push_left (P_written f t) = 1"

fun turn_cost :: "turn \<Rightarrow> nat" where
  "turn_cost T_read = 2 + 6 * kBatchFrames"
| "turn_cost (T_loop fs) = 1 + 6 * length fs"
| "turn_cost (T_push p fs) = 3 + push_left p + 6 * length fs"
| "turn_cost (T_pushed ok fs) = 3 + 6 * length fs"
| "turn_cost (T_offer fs) = 2 + 6 * length fs"

definition steps_left :: "sys \<Rightarrow> nat" where
  "steps_left y = (case ct_handle (sy_ctl y) of
     None \<Rightarrow> 0
   | Some w \<Rightarrow> (case ct_workers (sy_ctl y) ! w of
       At_test \<Rightarrow> 1 | Returned \<Rightarrow> 0 | In_body \<Rightarrow> 1 + turn_cost (sy_turn y w)))"

lemma turn_cost_le:
  assumes "length (to_do t) \<le> kBatchFrames" and "\<And>fs. t \<noteq> T_push P_idle fs"
  shows "turn_cost t \<le> 3 + 6 * kBatchFrames"
proof (cases t)
  case (T_push p fs)
  then show ?thesis using assms by (cases p) simp_all
qed (use assms(1) in \<open>simp_all add: kBatchFrames_def\<close>)

lemma steps_left_le: "sys_inv n y \<Longrightarrow> steps_left y \<le> 1540"
  using turn_cost_le [of "turn_of y"]
  by (auto simp: steps_left_def sys_inv_def current_def kBatchFrames_def split: option.split worker.split if_splits)

lemma push_left_step:
  assumes "spsc_access mo s Producer a r" and "sp_prod r \<noteq> P_idle"
  shows "push_left (sp_prod s) = Suc (push_left (sp_prod r))"
  using assms by (cases rule: spsc_access.cases) simp_all

lemma push_left_pos: "0 < push_left p"
  by (cases p) simp_all

lemma ctl_part:
  "sys_step a y y' \<Longrightarrow> sy_ctl y' = sy_ctl y \<or> (\<exists>b. a = Service b \<and> ctl_step b (sy_ctl y) (sy_ctl y'))"
  by (cases rule: sys_step.cases) auto

lemma one_controller_run: "sys_run {0} n y \<Longrightarrow> ctl_inv (sy_ctl y)"
proof (induction rule: sys_run.induct)
  case sys_start
  then show ?case using ctl_inv_init by (simp add: sys_init_def)
next
  case (sys_more y a y')
  then show ?case using ctl_part [OF sys_more(2)] ctl_inv_step by auto
qed

text \<open>While the controlling thread waits in \<^verbatim>\<open>stop\<close>, a capture thread's step is one less to go.\<close>

lemma stopping_step:
  assumes "sys_step a y y'" and "allowed {0} a" and "sys_inv n y" and "ctl_inv (sy_ctl y)"
    and "ct_pc (sy_ctl y) 0 = Stop_join" and "ct_pc (sy_ctl y') 0 = Stop_join"
  shows "of_bool (\<exists>w. a = Service (Capture w)) + steps_left y' \<le> steps_left y"
proof -
  have so: "sole (sy_ctl y)" and st: "\<not> ct_running (sy_ctl y)" "ct_handle (sy_ctl y) \<noteq> None"
    and ring: "sp_prod (sy_ring y) = P_idle"
    using assms(3-5) by (simp_all add: ctl_inv_def sys_inv_def)
  have here: "steps_left y = Suc (turn_cost (sy_turn y w))"
    "sy_ctl z = sy_ctl y \<Longrightarrow> steps_left z = Suc (turn_cost (sy_turn z w))" if "in_body w (sy_ctl y)" for w z
    using current_in_body(1) [OF so that] that by (simp_all add: steps_left_def in_body_def)
  from assms(1) show ?thesis
  proof (cases rule: sys_step.cases)
    case (control i c)
    from control(3) have False
      by (cases rule: ctl_step.cases) (use control assms(2,5,6) st in auto)
    then show ?thesis ..
  next
    case (loop_test w c)
    have w: "ct_handle (sy_ctl y) = Some w"
      using loop_test(3) by (cases rule: ctl_step.cases) (use loop_test(4) so sole_alive in auto)
    from loop_test(3) show ?thesis
      by (cases rule: ctl_step.cases) (use loop_test(1,2,4) w st in \<open>simp_all add: steps_left_def\<close>)
  next
    case (push_call w f fs b r h)
    then show ?thesis
      using here [OF push_call(3)] push_left_step [OF push_call(5)] ring by simp
  next
    case (push_step w p fs b r)
    then show ?thesis
      using here [OF push_step(3)] push_left_step [OF push_step(5)] by simp
  next
    case (push_return w p fs b r)
    then show ?thesis
      using here [OF push_return(3)] push_left_pos [of p] by simp
  next
    case (turn_end w c)
    have w: "ct_handle (sy_ctl y) = Some w" using current_in_body(1) [OF so turn_end(3)] .
    from turn_end(5) show ?thesis
      by (cases rule: ctl_step.cases)
         (use turn_end(1-4) w in \<open>simp_all add: steps_left_def in_body_def\<close>)
  next
    case (read_batch w batch)
    then show ?thesis using here [OF read_batch(3)] by simp
  next
    case (count_pushed w ok fs)
    then show ?thesis using here [OF count_pushed(3)] by simp
  next
    case (count_offered w fs)
    then show ?thesis using here [OF count_offered(3)] by simp
  next
    case (consume b r)
    then show ?thesis by (simp add: steps_left_def split: option.split worker.split)
  qed
qed

lemma stopping_enabled:
  assumes "ctl_inv (sy_ctl y)" and "sys_inv n y" and "ct_pc (sy_ctl y) 0 = Stop_join"
  shows "\<exists>a y'. sys_step (Service a) y y' \<and> may_act {0} a"
proof -
  obtain w where w: "ct_handle (sy_ctl y) = Some w" "w < length (ct_workers (sy_ctl y))"
    "\<not> ct_running (sy_ctl y)" "\<not> ct_terminated (sy_ctl y)"
    using assms by (auto simp: ctl_inv_def sole_def)
  show ?thesis
  proof (cases "ct_workers (sy_ctl y) ! w")
    case At_test
    from loop_test [OF work_return [OF w(4,2) this w(3)] this] show ?thesis using may_act.simps by blast
  next
    case Returned
    from control [OF stop_joined [OF w(4) assms(3) w(1) this]] show ?thesis using may_act.simps by blast
  next
    case In_body
    then have b: "in_body w (sy_ctl y)" using w by (simp add: in_body_def)
    have "\<exists>y'. sys_step (Service (Capture w)) y y'"
    proof (cases "sy_turn y w")
      case T_read
      from read_batch [OF b this, of "[]"] show ?thesis by auto
    next
      case (T_loop fs)
      show ?thesis
      proof (cases fs)
        case Nil
        from turn_end [OF b T_loop [unfolded Nil] work_again [OF w(4,2) In_body]] show ?thesis by blast
      next
        case (Cons f fs')
        have "sp_prod (sy_ring y) = P_idle" using assms(2) by (simp add: sys_inv_def)
        from push_call [OF b T_loop [unfolded Cons] push_load_head [OF this, of 0 _ f]] show ?thesis by auto
      qed
    next
      case (T_push p fs)
      obtain a r where "spsc_access push_head_order (sy_ring y\<lparr>sp_prod := p\<rparr>) Producer a r"
        using producer_enabled by blast
      from push_step [OF b T_push this] push_return [OF b T_push this] show ?thesis by blast
    next
      case (T_pushed ok fs)
      from count_pushed [OF b this] show ?thesis by blast
    next
      case (T_offer fs)
      from count_offered [OF b this] show ?thesis by blast
    qed
    then show ?thesis using may_act.simps by blast
  qed
qed

text \<open>Runs while \<^verbatim>\<open>stop\<close> waits for the thread, with the number of steps of capture threads.\<close>

inductive stopping :: "sys \<Rightarrow> nat \<Rightarrow> sys \<Rightarrow> bool" for y where
  stop_waits: "ct_pc (sy_ctl y) 0 = Stop_join \<Longrightarrow> stopping y 0 y"
| stop_waits_on: "stopping y k z \<Longrightarrow> sys_step a z z' \<Longrightarrow> allowed {0} a \<Longrightarrow> ct_pc (sy_ctl z') 0 = Stop_join \<Longrightarrow>
    stopping y (k + of_bool (\<exists>w. a = Service (Capture w))) z'"

lemma stopping_run:
  "stopping y k z \<Longrightarrow> sys_run {0} n y \<Longrightarrow>
     sys_run {0} n z \<and> ct_pc (sy_ctl z) 0 = Stop_join \<and> k + steps_left z \<le> steps_left y"
proof (induction rule: stopping.induct)
  case (stop_waits_on k z a z')
  then have z: "sys_run {0} n z" "ct_pc (sy_ctl z) 0 = Stop_join" "k + steps_left z \<le> steps_left y" by simp_all
  then have "of_bool (\<exists>w. a = Service (Capture w)) + steps_left z' \<le> steps_left z"
    using stopping_step [OF stop_waits_on(2,3) sys_inv_run one_controller_run _ stop_waits_on(4)] by blast
  then show ?case using z sys_more stop_waits_on(2-4) by fastforce
qed simp

text \<open>C6: \<^verbatim>\<open>stop\<close> returns. From the moment one controlling thread has cleared the flag, the capture
  thread makes at most 1540 more steps before it can be joined, however full the ring buffer is and
  whatever the consumer does meanwhile; and until then a step of the capture thread is always
  possible, or the join itself.\<close>

theorem stop_returns:
  assumes "sys_run {0} n y" and "stopping y k z"
  shows "k \<le> 1540 \<and> (\<exists>a z'. sys_step (Service a) z z' \<and> may_act {0} a)"
proof -
  have z: "sys_run {0} n z" "ct_pc (sy_ctl z) 0 = Stop_join" "k + steps_left z \<le> steps_left y"
    using stopping_run [OF assms(2,1)] by simp_all
  then show ?thesis
    using steps_left_le [OF sys_inv_run [OF assms(1)]]
      stopping_enabled [OF one_controller_run [OF z(1)] sys_inv_run [OF z(1)] z(2)] by simp
qed

section \<open>What arrives\<close>

text \<open>C2: The capture chain with all its threads. However the steps of the controlling threads, of
  the capture threads and of the consumer interleave, and however stale the indices are that they
  read (before 2^64 frames): no two capture threads are ever at work at once; the consumer gets the
  first frames that were accepted, in order and untorn, the others wait in the buffer; the accepted
  frames are those the device delivered, in order, less the dropped ones. At every moment accepted and dropped
  frames add up to the offered ones, or to one more (all counters modulo 2^64), and between the turns
  of the loop each counter is exact.\<close>

theorem capture_threads_account:
  assumes "sys_run cs n y" and "length (ghost_in (sy_ring y)) < 2 ^ 64"
  shows "(\<not> ct_terminated (sy_ctl y) \<longrightarrow> length (filter (\<lambda>w. w \<noteq> Returned) (ct_workers (sy_ctl y))) \<le> 1) \<and>
    (\<exists>rest. ghost_in (sy_ring y) = ghost_out (sy_ring y) @ rest \<and> length rest \<le> max 1 (unat n)) \<and>
    subseq (ghost_in (sy_ring y)) (ghost_read y) \<and>
    sy_pushed y + sp_dropped (sy_ring y) - sy_offered y \<in> {0, 1} \<and>
    (In_body \<notin> set (ct_workers (sy_ctl y)) \<longrightarrow>
       sy_offered y = of_nat (length (ghost_read y)) \<and> sy_pushed y = of_nat (length (ghost_in (sy_ring y))) \<and>
       sp_dropped (sy_ring y) = of_nat (length (ghost_read y) - length (ghost_in (sy_ring y))))"
proof -
  let ?t = "turn_of y" and ?r = "sy_ring y"
  have i: "sole (sy_ctl y)" "reachable n (?r\<lparr>sp_prod := in_push ?t\<rparr>)"
    and le: "ledger ?t ?r (sy_pushed y) (sy_offered y) (ghost_read y)"
    using sys_inv_run [OF assms(1)] by (simp_all add: sys_inv_def)
  obtain d where d: "ghost_read y = d @ to_do ?t" "subseq (ghost_in ?r) d"
    "sp_dropped ?r = of_nat (length d - length (ghost_in ?r))"
    "sy_pushed y + late_pushed ?t = of_nat (length (ghost_in ?r))" "sy_offered y + late_offered ?t = of_nat (length d)"
    using le unfolding ledger_def by blast
  have "length (ghost_in ?r) \<le> length d" using d(2) by (rule list_emb_length)
  then have "of_nat (length (ghost_in ?r)) + sp_dropped ?r = (of_nat (length d) :: u64)"
    unfolding d(3) by (simp flip: of_nat_add)
  then have "sy_pushed y + late_pushed ?t + sp_dropped ?r = sy_offered y + late_offered ?t"
    unfolding d(4,5) .
  then have "sy_pushed y + sp_dropped ?r - sy_offered y = late_offered ?t - late_pushed ?t"
    by (simp add: algebra_simps)
  moreover have "late_offered ?t - late_pushed ?t \<in> {0, 1}" by (cases ?t) simp_all
  moreover have "subseq (ghost_in ?r) (ghost_read y)"
    using d(2) unfolding d(1) by (metis list_emb_append_mono append.right_neutral list_emb_Nil)
  moreover have "\<exists>rest. ghost_in ?r = ghost_out ?r @ rest \<and> length rest \<le> max 1 (unat n)"
    using rest_in_buffer [OF i(2)] assms(2) by auto
  moreover have "sy_offered y = of_nat (length (ghost_read y)) \<and> sy_pushed y = of_nat (length (ghost_in ?r)) \<and>
       sp_dropped ?r = of_nat (length (ghost_read y) - length (ghost_in ?r))"
    if "In_body \<notin> set (ct_workers (sy_ctl y))"
  proof -
    have "ct_workers (sy_ctl y) ! w \<noteq> In_body" if "ct_handle (sy_ctl y) = Some w" for w
      using i(1) that \<open>In_body \<notin> _\<close> by (metis sole_def nth_mem)
    then have "?t = T_loop []" by (simp add: current_def split: option.split)
    then show ?thesis using d by simp
  qed
  ultimately show ?thesis using sole_count [OF i(1)] by simp
qed

section \<open>Instances\<close>

definition one_turn :: "ctl \<Rightarrow> turn \<Rightarrow> spsc \<Rightarrow> u64 \<Rightarrow> u64 \<Rightarrow> bt_bus_frame list \<Rightarrow> sys" where
  "one_turn c t r off pushed rd = \<lparr>sy_ctl = c, sy_turn = (\<lambda>_. T_read)(0 := t), sy_ring = r, sy_offered = off,
     sy_pushed = pushed, sy_poll_cycles = 0, ghost_read = rd\<rparr>"

lemma one_turn_simps [simp]:
  "sy_ctl (one_turn c t r off pushed rd) = c" "sy_turn (one_turn c t r off pushed rd) 0 = t"
  "sy_ring (one_turn c t r off pushed rd) = r" "ghost_read (one_turn c t r off pushed rd) = rd"
  "sy_offered (one_turn c t r off pushed rd) = off" "sy_pushed (one_turn c t r off pushed rd) = pushed"
  "goto_turn 0 t' (one_turn c t r off pushed rd) = one_turn c t' r off pushed rd"
  "(one_turn c t r off pushed rd)\<lparr>sy_ctl := c'\<rparr> = one_turn c' t r off pushed rd"
  "(one_turn c t r off pushed rd)\<lparr>sy_ring := r'\<rparr> = one_turn c t r' off pushed rd"
  "(one_turn c t r off pushed rd)\<lparr>sy_offered := o'\<rparr> = one_turn c t r o' pushed rd"
  "(one_turn c t r off pushed rd)\<lparr>sy_pushed := p'\<rparr> = one_turn c t r off p' rd"
  "(one_turn c t r off pushed rd)\<lparr>ghost_read := g\<rparr> = one_turn c t r off pushed g"
  by (auto simp: one_turn_def)

abbreviation working :: ctl where
  "working \<equiv> two_calls True True (Some 0) [In_body] Ready Ready False"

lemma working_in_body [simp]: "in_body 0 working"
  by (simp add: in_body_def)

lemma one_more: "sys_run {0} n y \<Longrightarrow> sys_step a y y' \<Longrightarrow> allowed {0} a \<Longrightarrow> y' = z \<Longrightarrow> sys_run {0} n z"
  using sys_more by blast

lemma ring1_init: "spsc_init 1 = ring1 zero_frame 0 0 P_idle C_idle [] []"
  by (simp add: spsc_init_def ring1_def new_Pipeline_def)

text \<open>A service is started and its thread enters the loop.\<close>

lemma first_turn: "sys_run {0} 1 (one_turn working T_read (ring1 zero_frame 0 0 P_idle C_idle [] []) 0 0 [])"
proof -
  let ?c = "\<lambda>r d h ws p. one_turn (two_calls r d h ws p Ready False) T_read (ring1 zero_frame 0 0 P_idle C_idle [] []) 0 0 []"
  have i: "sys_init 1 = ?c False False None [] Ready"
    by (simp add: sys_init_def one_turn_def two_calls_init ring1_init fun_eq_iff)
  have "sys_run {0} 1 (?c False False None [] Ready)" using sys_start [of "{0}" 1] unfolding i .
  from one_more [OF this control [OF start_begin [of _ 0]]]
  have "sys_run {0} 1 (?c False False None [] Start_device)" by simp
  from one_more [OF this control [OF start_opened [of _ 0]]]
  have "sys_run {0} 1 (?c False True None [] Start_flag)" by simp
  from one_more [OF this control [OF start_set [of _ 0]]]
  have "sys_run {0} 1 (?c True True None [] Start_thread)" by simp
  from one_more [OF this control [OF start_thread [of _ 0]]]
  have "sys_run {0} 1 (?c True True (Some 0) [At_test] Ready)" by simp
  from one_more [OF this loop_test [OF work_turn [of _ 0]]] show ?thesis by simp
qed

text \<open>The thread is in the body of its loop when \<^verbatim>\<open>stop\<close> is called, and makes a step.\<close>

theorem stop_returns_witness:
  "\<exists>y z. sys_run {0} 1 y \<and> stopping y 1 z \<and> (\<exists>a z'. sys_step (Service a) z z' \<and> may_act {0} a)"
proof -
  let ?r = "ring1 zero_frame 0 0 P_idle C_idle [] []" and ?c = "two_calls False True (Some 0) [In_body] Stop_join Ready False"
  let ?y = "one_turn ?c T_read ?r 0 0 []"
  from one_more [OF first_turn control [OF stop_exchange [of _ 0]]]
  have y: "sys_run {0} 1 ?y" by simp
  have "in_body 0 ?c" by (simp add: in_body_def)
  then have "stopping ?y (0 + of_bool (\<exists>w. Service (Capture 0) = Service (Capture w))) (one_turn ?c (T_loop []) ?r 0 0 [])"
    using stop_waits_on [OF stop_waits read_batch [of 0 ?y "[]"]] by simp
  then have "stopping ?y 1 (one_turn ?c (T_loop []) ?r 0 0 [])" by simp
  from y this stop_returns [OF y this] show ?thesis by meson
qed

text \<open>A batch of one frame is read, pushed and counted.\<close>

theorem capture_threads_account_witness:
  "\<exists>y. sys_run {0} 1 y \<and> ghost_read y = [qframe 1] \<and> sy_pushed y = 1 \<and> sy_offered y = 0 \<and>
     sy_pushed y + sp_dropped (sy_ring y) - sy_offered y \<in> {0, 1} \<and>
     (\<exists>rest. [qframe 1] = ghost_out (sy_ring y) @ rest \<and> length rest \<le> 1)"
proof -
  let ?f = "qframe 1" and ?z = zero_frame
  let ?y = "\<lambda>t r. one_turn working t r 0 0 [?f]"
  from one_more [OF first_turn read_batch [of 0 _ "[?f]"]]
  have "sys_run {0} 1 (?y (T_loop [?f]) (ring1 ?z 0 0 P_idle C_idle [] []))" by (simp add: kBatchFrames_def)
  from one_more [OF this push_call [of 0 _ ?f "[]" _ _ 0, OF _ _ push_load_head [of _ 0 _ ?f]]]
  have "sys_run {0} 1 (?y (T_push (P_loaded_head ?f 0) []) (ring1 ?z 0 0 P_idle C_idle [] []))" by simp
  from one_more [OF this push_step [of 0 _ "P_loaded_head ?f 0" "[]", OF _ _ push_room [of _ ?f 0]]]
  have "sys_run {0} 1 (?y (T_push (P_room ?f 0) []) (ring1 ?z 0 0 P_idle C_idle [] []))" by simp
  from one_more [OF this push_step [of 0 _ "P_room ?f 0" "[]", OF _ _ push_write [of _ ?f 0]]]
  have "sys_run {0} 1 (?y (T_push (P_written ?f 0) []) (ring1 ?f 0 0 P_idle C_idle [] []))" by simp
  from one_more [OF this push_return [of 0 _ "P_written ?f 0" "[]", OF _ _ push_publish [of _ ?f 0]]]
  have "sys_run {0} 1 (?y (T_pushed True []) (ring1 ?f 0 1 P_idle C_idle [?f] []))" by simp
  from one_more [OF this count_pushed [of 0 _ True "[]"]]
  have r: "sys_run {0} 1 (one_turn working (T_offer []) (ring1 ?f 0 1 P_idle C_idle [?f] []) 0 1 [?f])" (is "sys_run {0} 1 ?e")
    by simp
  have "length (ghost_in (sy_ring ?e)) < 2 ^ 64" by simp
  from capture_threads_account [OF r this] r show ?thesis
    by (intro exI [of _ ?e]) simp
qed

end
