(* ===== verification/HostApi.thy ===== *)
theory HostApi
  imports UsbLink Bench
begin

text \<open>
  The host's operations as the headers let a client call them: with the arguments that have default
  values left out (no payload, sequence number zero, the standard capacity and traffic). What the defaults mean for the results is stated here.
\<close>

section \<open>Calls with default arguments\<close>

definition encode_cmd_default :: "byte list option \<Rightarrow> nat \<Rightarrow> u16 \<Rightarrow> u16 \<Rightarrow> u32 \<Rightarrow> (nat \<times> byte list option) res" where
  "encode_cmd_default buf cap cmd channel param = encode_cmd buf cap cmd channel param None 0 0"

definition encode_evt_default :: "byte list option \<Rightarrow> nat \<Rightarrow> u16 \<Rightarrow> u16 \<Rightarrow> u32 \<Rightarrow> (nat \<times> byte list option) res" where
  "encode_evt_default buf cap evt channel param = encode_evt buf cap evt channel param None 0 0"

definition encode_data_default ::
  "nat \<Rightarrow> byte list option \<Rightarrow> nat \<Rightarrow> byte list option \<Rightarrow> nat \<Rightarrow> (nat \<times> byte list option) res" where
  "encode_data_default e buf cap frames frame_count = encode_data e buf cap frames frame_count 0"

text \<open>The sequence number is not stored through a null pointer.\<close>

definition decode_data_default ::
  "nat \<Rightarrow> byte list option \<Rightarrow> nat \<Rightarrow> byte list option \<Rightarrow> nat \<Rightarrow> (nat \<times> byte list option) res" where
  "decode_data_default e buf len out max_frames =
     bindr (decode_data e buf len out max_frames) (\<lambda>(n, out, seq). Inr (n, out))"

definition default_Pipeline :: Pipeline where
  "default_Pipeline = new_Pipeline 4096"

definition default_SimUsbDevice :: SimUsbDevice where
  "default_SimUsbDevice = new_SimUsbDevice default_SimConfig"

definition bench_default_rate :: u32 where
  "bench_default_rate = 50000"

section \<open>What they do\<close>

text \<open>Encoding without a payload is encoding an empty one; but a null payload with a length is
  accepted too, and the packet then carries what was in the buffer before.\<close>

lemma encode_cmd_no_payload:
  assumes "cap \<le> length m"
  shows "encode_cmd (Some m) cap cmd ch pa None 0 seq = encode_cmd (Some m) cap cmd ch pa (Some []) 0 seq"
  using assms by (simp add: encode_cmd_def encode_8_spec)

lemma null_payload_sends_stale_bytes:
  assumes "n \<le> 256" and "20 + n \<le> cap" and "cap \<le> length m"
  shows "\<exists>m'. encode_cmd (Some m) cap cmd ch pa None n seq = Inr (20 + n, Some m') \<and>
    take n (drop 20 m') = take n (drop 20 m)"
  using assms encode_8_spec [OF assms(3), of None n BT_PKT_CMD cmd ch pa seq]
  by (auto simp: encode_cmd_def patch_def body_wire_def)

text \<open>A command without payload is twenty bytes that the firmware handles and the host reads back.\<close>

lemma default_command_arrives:
  assumes "cap \<le> length m" and "20 \<le> cap"
  shows "\<exists>m'. encode_cmd_default (Some m) cap cmd ch pa = Inr (20, Some m') \<and>
    usb_protocol_handle_cmd (Some m') 20 = Inr 0 \<and> decode_cmd (Some m') 20 = Inr (Some (cmd, ch, pa))"
proof -
  let ?m' = "patch m 0 (packet_wire BT_PKT_CMD 0 (body_wire cmd ch pa []))"
  have e: "host_sent (encode_cmd (Some m) cap cmd ch pa (Some []) (length ([] :: byte list)) 0) = Some (20, ?m')"
    using host_cmd.enc_wire [of "[]" cap m cmd ch pa 0] assms by simp
  have w: "take 20 ?m' = packet_wire BT_PKT_CMD 0 (body_wire cmd ch pa [])" "length ?m' = length m"
    using host_cmd.enc_prefix [of "[]", OF _ _ _ e] assms by auto
  have "usb_protocol_handle_cmd (Some ?m') 20 = Inr 0"
    using fw_handles_command [of "[]" ?m' 0 cmd ch pa] w assms by simp
  moreover have "received (decode_cmd (Some ?m') 20) = Some (cmd, ch, pa)"
    using host_cmd.roundtrip [OF _ _ e] assms(1) by simp
  ultimately show ?thesis
    using e encode_cmd_no_payload [OF assms(1)] by (auto simp: encode_cmd_default_def host_sent_Some received_Some)
qed

text \<open>The same for an event, on the host's side.\<close>

lemma default_event_arrives:
  assumes "cap \<le> length m" and "20 \<le> cap"
  shows "\<exists>m'. encode_evt_default (Some m) cap evt ch pa = Inr (20, Some m') \<and>
    decode_evt (Some m') 20 = Inr (Some (evt, ch, pa))"
proof -
  let ?m' = "patch m 0 (packet_wire BT_PKT_EVT 0 (body_wire evt ch pa []))"
  have e: "host_sent (encode_evt (Some m) cap evt ch pa (Some []) (length ([] :: byte list)) 0) = Some (20, ?m')"
    using host_evt.enc_wire [of "[]" cap m evt ch pa 0] assms by simp
  have "received (decode_evt (Some ?m') 20) = Some (evt, ch, pa)"
    using host_evt.roundtrip [OF _ _ e] assms(1) by simp
  moreover have "encode_evt (Some m) cap evt ch pa None 0 0 = encode_evt (Some m) cap evt ch pa (Some []) 0 0"
    using assms(1) by (simp add: encode_evt_def encode_8_spec)
  ultimately show ?thesis
    using e by (auto simp: encode_evt_default_def host_sent_Some received_Some)
qed

text \<open>Frames encoded by the host are decoded by the host, byte for byte.\<close>

lemma default_data_roundtrip:
  assumes "cap \<le> length m" and "n * sizeof_frame e = length src" and "0 < n" and "n \<le> 16"
    and "12 + length src \<le> cap" and "length src < 2 ^ 16" and "n \<le> k" and "k * sizeof_frame e \<le> length dst"
    and "0 < sizeof_frame e"
  shows "\<exists>m'. encode_data_default e (Some m) cap (Some src) n = Inr (12 + length src, Some m') \<and>
    decode_data_default e (Some m') (12 + length src) (Some dst) k = Inr (n, Some (src @ drop (length src) dst))"
proof -
  let ?m' = "patch m 0 (packet_wire BT_PKT_DATA 0 src)"
  have "encode_data_default e (Some m) cap (Some src) n = Inr (12 + length src, Some ?m')"
    using encode_data_spec [OF assms(1), of n e src 0] assms(2-5) by (simp add: encode_data_default_def)
  moreover have w: "take (12 + length src) ?m' = packet_wire BT_PKT_DATA 0 src" "length ?m' = length m"
    using patch_prefix [of "packet_wire BT_PKT_DATA 0 src" m] assms(1,5) by (simp_all add: length_patch)
  moreover have "length src div sizeof_frame e = n" "length src mod sizeof_frame e = 0"
    using assms(9) by (simp_all flip: assms(2))
  ultimately show ?thesis
    using decode_data_wire [OF w(1) assms(6) order_refl _ assms(8)] assms(1,3,5,7)
    by (simp add: decode_data_default_def)
qed

text \<open>A new queue of the standard capacity keeps order and contents however long it runs.\<close>

lemma default_pipeline_for_ever:
  "\<exists>os p. pipe_run ops default_Pipeline = Inr (os, p) \<and> accepted ops os = handed_out os @ pl_items p \<and>
     qrun (list_enq 4096) list_deq ops [] = (os, pl_items p)"
proof -
  have c: "max 1 (unat (4096 :: u64)) = 4096" by simp
  from ring_is_queue [of ops 4096, unfolded c] show ?thesis by (auto simp: default_Pipeline_def)
qed

text \<open>The standard generator sends frames on the first four channels, at the rate the benchmark takes
  for its standard.\<close>

lemma default_generator:
  "enabled_channels (sc_channel_mask (sim_cfg default_SimUsbDevice)) = [0, 1, 2, 3]"
  "sc_rate (sim_cfg default_SimUsbDevice) = bench_default_rate"
proof -
  have "enabled_channels 0x0F = [0, 1, 2, 3]" by code_simp
  then show "enabled_channels (sc_channel_mask (sim_cfg default_SimUsbDevice)) = [0, 1, 2, 3]"
    by (simp add: default_SimUsbDevice_def new_SimUsbDevice_def default_SimConfig_def Let_def BT_BUS_MAX_PAYLOAD_def)
  show "sc_rate (sim_cfg default_SimUsbDevice) = bench_default_rate"
    by (simp add: default_SimUsbDevice_def new_SimUsbDevice_def default_SimConfig_def Let_def
        BT_BUS_MAX_PAYLOAD_def bench_default_rate_def)
qed

end
