(* ===== verification/Spec2Isabelle.thy ===== *)
theory Spec2Isabelle
  imports UsbLink BusFrame Doubles Workspace CanDecoder Rbs SpscRing CaptureService DbcText Cli Firmware FpgaTop SpscRaces SpscSize WorkspaceMaps CaptureThreads HostApi
begin

text \<open>
  Verification of the bus test platform.

  The program. A measuring device for automotive buses (CAN, CAN FD, LIN) and the host software
  behind it. Firmware on the device (\<^verbatim>\<open>firmware/\<close>, C) batches captured frames and events into
  packets of a USB protocol and takes commands; host software (\<^verbatim>\<open>software/\<close>, C++) encodes commands,
  decodes packets, moves frames from a capture thread through a lock-free ring buffer to its
  consumers, decodes signals against a database file and simulates the rest of a bus. Both sides
  share the headers in \<^verbatim>\<open>shared/include/bus\<close>. Memory is bytes, integers wrap, and undefined
  behaviour of C and C++ is a value here: a computation that may fault returns \<open>fault + 'a\<close>, one
  that may not return adds \<open>option\<close>.

  Theories and sources.
  \<^item> \<^verbatim>\<open>Prelude\<close>: integers of fixed width, faults, byte buffers with checked loads and stores,
    little-endian encodings. \<^verbatim>\<open>Doubles\<close>: binary64 arithmetic (a sign and an exact rational, rounded
    once per operation). \<^verbatim>\<open>CText\<close>: the part of the C++ library that reads text and prints numbers.
    \<^verbatim>\<open>TimedLoops\<close>: \<^verbatim>\<open>while\<close> loops as partial functions with a total-correctness rule.
  \<^item> \<^verbatim>\<open>BusTypes\<close>, \<^verbatim>\<open>UsbProtocol\<close>: \<^verbatim>\<open>bus_types.h\<close> and \<^verbatim>\<open>usb_protocol.h\<close>, with the memory layout of the frame
    structure for either size of an enumeration.
  \<^item> \<^verbatim>\<open>FwProtocol\<close>: \<^verbatim>\<open>firmware/src/protocol/usb_protocol_handler.c\<close>. \<^verbatim>\<open>Firmware\<close>: the drivers, \<^verbatim>\<open>board.h\<close> and
    \<^verbatim>\<open>main.c\<close>. \<^verbatim>\<open>HostCodec\<close>: \<^verbatim>\<open>software/src/protocol/usb/usb_frame_codec.cpp\<close>. \<^verbatim>\<open>UsbLink\<close>: both ends
    together.
  \<^item> \<^verbatim>\<open>BusFrame\<close>: \<^verbatim>\<open>core/bus_frame.cpp\<close>. \<^verbatim>\<open>Workspace\<close>: \<^verbatim>\<open>core/workspace.cpp\<close>, \<^verbatim>\<open>channel.cpp\<close>, \<^verbatim>\<open>node.cpp\<close>;
    \<^verbatim>\<open>WorkspaceMaps\<close>: the finite maps it implements. \<^verbatim>\<open>Signal\<close>:
    \<^verbatim>\<open>core/signal.h\<close> and the message structure of \<^verbatim>\<open>dbc_parser.h\<close>.
  \<^item> \<^verbatim>\<open>DbcParser\<close>: \<^verbatim>\<open>protocol/dbc/dbc_parser.cpp\<close>; \<^verbatim>\<open>DbcText\<close>: what a database file stands for, and that the
    parser finds it. \<^verbatim>\<open>CanDecoder\<close>: \<^verbatim>\<open>protocol/can/can_decoder.cpp\<close>. \<^verbatim>\<open>Rbs\<close>: \<^verbatim>\<open>engine/rbs/rbs_scheduler.cpp\<close>.
  \<^item> \<^verbatim>\<open>Pipeline\<close>: \<^verbatim>\<open>data/pipeline.cpp\<close> as functions; \<^verbatim>\<open>SpscRing\<close>: the same code as the loads, stores and
    buffer accesses of two threads, each step labelled with its memory accesses; \<^verbatim>\<open>SpscRaces\<close>: the
    executions of these steps under the C++ memory model, and the length of calls; \<^verbatim>\<open>SpscSize\<close>:
    \<^verbatim>\<open>size\<close> called while both threads run. \<^verbatim>\<open>UsbDevices\<close>: \<^verbatim>\<open>hal/usb/usb_device_null.cpp\<close> and
    \<^verbatim>\<open>usb_device_sim.cpp\<close>. \<^verbatim>\<open>CaptureService\<close>: \<^verbatim>\<open>data/capture_service.cpp\<close>;
    \<^verbatim>\<open>CaptureControl\<close>: the life cycle of its thread; \<^verbatim>\<open>CaptureThreads\<close>: controlling threads, capture
    threads and consumer together, down to the accesses to the ring buffer.
  \<^item> \<^verbatim>\<open>Bench\<close>: \<^verbatim>\<open>bench/bench.cpp\<close>. \<^verbatim>\<open>Cli\<close>: \<^verbatim>\<open>software/src/main.cpp\<close>. \<^verbatim>\<open>HostApi\<close>: calls with
    the default arguments of the headers.
  \<^item> The Verilog sources of the FPGA (\<^verbatim>\<open>hardware/fpga/src\<close>), as registers and clock steps
    (\<^verbatim>\<open>Clocked\<close>): \<^verbatim>\<open>TimeSync\<close>: \<^verbatim>\<open>timestamp_engine.v\<close>, \<^verbatim>\<open>pps_sync.v\<close>; \<^verbatim>\<open>ChannelLogic\<close>: \<^verbatim>\<open>hw_filter.v\<close>,
    \<^verbatim>\<open>error_injector.v\<close>, \<^verbatim>\<open>phys_sampler.v\<close>; \<^verbatim>\<open>TxScheduler\<close>: \<^verbatim>\<open>tx_scheduler.v\<close>; \<^verbatim>\<open>FpgaTop\<close>: \<^verbatim>\<open>top.v\<close>.

  Interfaces are locales: \<^verbatim>\<open>LinkInterface\<close> (encoders and decoders of one packet kind), \<^verbatim>\<open>Registry\<close>
  (a list with unique keys and stable handles, and its extension \<open>object_registry\<close>, which is a
  finite map), \<^verbatim>\<open>QueueInterface\<close> (a bounded queue that counts what it refuses), \<^verbatim>\<open>DeviceInterface\<close>
  (the abstract device class), \<open>capture_link\<close> (what the capture service needs of a device) and
  \<open>command_source\<close> (what the firmware's main loop needs of the USB driver). Each is interpreted on
  the code's own functions, where its laws are proved.

  Correspondence. Functions keep their names; a clash takes a prefix (\<open>pl_\<close>, \<open>sim_\<close>, \<open>null_\<close>, \<open>fw_\<close>,
  \<open>host_\<close>). A pointer argument that may be null is an \<open>option\<close>; an out-parameter is part of the
  result. An object that is handed out by pointer and never moved is an index. A clock reading is an
  argument, and so is the schedule of the capture thread. Memory contents nobody wrote (stack
  buffers, padding) are arguments. The size of an enumeration (1 with short enumerations, 4 without)
  is the argument \<open>e\<close>.

  What is shown. The link: events, commands and frames survive it, encoders of the two ends agree
  (and exactly where they do not), parsers and builders stay inside their buffers. The data path:
  the ring buffer refines a bounded queue, also under every interleaving of two threads with stale
  index reads; no call of the ring buffer takes more than four steps, the accesses to its slots race
  exactly where the producer reuses a slot, for want of one acquire load, and the queue length is a
  bound to the two threads only; the capture chain loses no frame unaccounted for on any run; its
  thread is the only producer, which is proved and not assumed, and under one controlling thread it
  stops in a bounded number of steps and is always joined. Time: the scheduler and the traffic
  generator keep their rates exactly; loops that could run for ever are shown to return or, in one
  case, not to. Text: a database file is read as what it states, for any file of that shape, and
  what is read is sane for any text. Signals: extraction is the documented bit slice, except for a
  Motorola signal that runs past the end of a short frame, where the difference is stated. The
  object model refines a pair of finite maps, keeps its keys unique, its handles stable and its
  counters true. The command line program ends with the status it documents, unless the duration of
  a benchmark does not fit in 64 bits. The
  FPGA: every transmit slot keeps its period with a bounded jitter while the tick does not wrap, and
  what the circuits do where they miss their purpose (synchronisation, capture, filters, injectors).
  The last part, below, goes from the text of a database to the values decoded from a frame, and
  shows that any text and any run of the capture chain lead to well-formed frames and values in
  range.

  Bounds. Counters of the ring buffer wrap at 2^64: results on runs say for how many operations they
  hold (fewer than 2^64, or 2^56 poll cycles; for ever, for a queue whose capacity is a power of
  two), and one result shows what goes wrong beyond with capacity three. No fuel is used: a loop
  that may not end is a \<open>partial_function\<close>, and results say that it ends.

  Assumptions on the C++ library, all in \<^verbatim>\<open>CText\<close> and \<^verbatim>\<open>BusFrame\<close>: the C locale, a 64-bit
  \<^verbatim>\<open>unsigned long\<close>, no binary prefix in \<^verbatim>\<open>strtoul\<close>, \<^verbatim>\<open>ERANGE\<close> on inexact results below the normal range, and
  the sign of a NaN is not printed. In \<^verbatim>\<open>SpscRing\<close> an index read may return any value the other
  thread stored before, and never an older one than it stands for; other effects of weak memory on
  the values read are not modelled. What the memory orders of the source leave unordered is the
  subject of \<^verbatim>\<open>SpscRaces\<close>: happens-before there is program order and release-acquire pairs. In \<^verbatim>\<open>CaptureThreads\<close> the reads and
  writes of the thread handle, a plain object, are taken to be atomic.

  Not modelled. The Qt window (\<^verbatim>\<open>ui/\<close>) has no behaviour of its own. Class and function declarations
  of the headers carry no code beyond the functions modelled; accessors that return a member are the
  fields of the records. Tests and test benches. Reading the steady clock is the parameter mentioned
  above. The FPGA and the firmware are not composed: the firmware does not access the register
  interface yet. Of the FPGA, clock domain crossings and metastability are left out (the sources
  leave them to the real design).
\<close>

section \<open>From a database file to decoded signals\<close>

text \<open>A database of messages with their signals, written message by message.\<close>

definition database :: "(message_line \<times> signal_line list) list \<Rightarrow> dbc_line list" where
  "database bs = concat (map (\<lambda>(m, ss). MessageLine m # map SignalLine ss) bs)"

definition block_message :: "message_line \<times> signal_line list \<Rightarrow> DbcMessage" where
  "block_message = (\<lambda>(m, ss). (message_of m)\<lparr>dm_signals := map signal_of ss\<rparr>)"

lemma meaning_signals:
  "meaning (map SignalLine ss @ ls) (ms @ [m]) =
     meaning ls (ms @ [m\<lparr>dm_signals := dm_signals m @ map signal_of ss\<rparr>])"
  by (induction ss arbitrary: m) (simp_all add: add_signal_def)

lemma meaning_database: "meaning (database bs) ms = (True, None, ms @ map block_message bs)"
proof (induction bs arbitrary: ms)
  case (Cons b bs)
  obtain m ss where b: "b = (m, ss)" by (cases b)
  have "meaning (database (b # bs)) ms = meaning (map SignalLine ss @ database bs) (ms @ [message_of m])"
    by (simp add: database_def b)
  then show ?case
    by (simp add: meaning_signals Cons.IH block_message_def b) (simp add: message_of_def)
qed (simp add: database_def)

lemma find_message_distinct:
  "m \<in> set ms \<Longrightarrow> distinct (map dm_id ms) \<Longrightarrow> find_message ms (dm_id m) = Some m"
  by (induction ms) auto

lemma find_message_in: "find_message ms i = Some m \<Longrightarrow> m \<in> set ms"
  by (induction ms) (auto split: if_splits)

text \<open>C9: From the text of a database to physical values. Write down messages with different
  identifiers and their signals as a database file: the parser accepts it, the lookup of a received
  frame's identifier finds the message that was written, and decoding the frame reports, signal by
  signal in the order of the file, the bits of the payload that the written start, length, byte
  order and sign select, scaled by the written factor and offset. (A Motorola signal that runs past
  the end of the frame has the value the decoder gives it, not the documented one.)\<close>

theorem database_decodes_frame:
  assumes "\<forall>(m, ss)\<in>set bs. wf_message m \<and> (\<forall>s\<in>set ss. wf_signal s)"
    and "distinct (map (\<lambda>(m, ss). of_nat (ml_id m) :: u32) bs)"
    and "(m, ss) \<in> set bs" and "wf_frame f" and "f_id f = of_nat (ml_id m)"
  shows "\<exists>ms dm. dbc_parse old (show_database (database bs)) = (True, None, ms) \<and>
     find_message ms (f_id f) = Some dm \<and> dm_name dm = ml_name m \<and>
     decode_frame dm f (Some out) = Inr (True, Some
       (map (\<lambda>s. reported dm (window (f_data f) (f_dlc f)) (signal_of s)) ss))"
proof -
  let ?ms = "map block_message bs" and ?dm = "block_message (m, ss)"
  have "\<forall>l\<in>set (database bs). wf_line l" using assms(1) by (auto simp: database_def)
  then have p: "dbc_parse old (show_database (database bs)) = (True, None, ?ms)"
    by (simp add: dbc_parse_shown meaning_database)
  have d: "map dm_id ?ms = map (\<lambda>(m, ss). of_nat (ml_id m)) bs"
    by (auto simp: block_message_def message_of_def)
  have i: "dm_id ?dm = f_id f" using assms(5) by (simp add: block_message_def message_of_def)
  have f: "find_message ?ms (f_id f) = Some ?dm"
  proof -
    have "?dm \<in> set ?ms" using assms(3) unfolding set_map by (rule imageI)
    moreover have "distinct (map dm_id ?ms)" unfolding d by (rule assms(2))
    ultimately show ?thesis unfolding i [symmetric] by (rule find_message_distinct)
  qed
  have "decode_frame ?dm f (Some out) = Inr (True, Some
       (map (\<lambda>s. reported ?dm (window (f_data f) (f_dlc f)) (signal_of s)) ss))"
    using decode_frame_spec [OF assms(4), of ?dm out]
    by (simp add: block_message_def comp_def)
  moreover have "dm_name ?dm = ml_name m" by (simp add: block_message_def message_of_def)
  ultimately show ?thesis using p f by blast
qed

text \<open>Engine speed 0x4E20 in the first two bytes of a frame, at half a turn per minute and bit.\<close>

definition speed_frame :: bt_bus_frame where
  "speed_frame = zero_frame\<lparr>f_id := 256, f_dlc := 8, f_data := [0x20, 0x4E] @ replicate 62 0\<rparr>"

theorem database_decodes_frame_witness:
  "\<exists>ms dm. dbc_parse [] (show_database (database [(engine_data, [engine_speed])])) = (True, None, ms) \<and>
     find_message ms 256 = Some dm \<and>
     (\<exists>v. decode_frame dm speed_frame (Some []) = Inr (True, Some [v]) \<and>
          sv_signal_name v = ''Speed'' \<and> sv_raw v = 0x4E20)"
proof -
  have w: "wf_message engine_data" "wf_signal engine_speed" "wf_frame speed_frame"
    using wf_sample by (simp_all add: sample_database_def wf_frame_def speed_frame_def zero_frame_def
        BT_BUS_MAX_PAYLOAD_def)
  have f: "f_id speed_frame = of_nat (ml_id engine_data)"
    by (simp add: speed_frame_def engine_data_def)
  obtain ms dm where d: "dbc_parse [] (show_database (database [(engine_data, [engine_speed])])) = (True, None, ms)"
    "find_message ms (f_id speed_frame) = Some dm"
    "decode_frame dm speed_frame (Some []) = Inr (True, Some
       [reported dm (window (f_data speed_frame) (f_dlc speed_frame)) (signal_of engine_speed)])"
    using database_decodes_frame [of "[(engine_data, [engine_speed])]" engine_data "[engine_speed]" speed_frame "[]" "[]"]
      w f by auto
  have "signal_int (signal_of engine_speed) (window (f_data speed_frame) (f_dlc speed_frame)) = 0x4E20"
    by (simp add: signal_int_def raw_spec_def signal_of_def engine_speed_def sig_len_def window_def
        speed_frame_def le_nat_def split: prod.splits)
  then show ?thesis
    using d by (auto simp: reported_def speed_frame_def signal_of_def engine_speed_def split: prod.splits)
qed

section \<open>From the device to decoded signals\<close>

text \<open>C10: The host's data path is type safe from end to end. Parse any text as a database, be it well
  formed or not, and run the capture chain in any way (fewer than 2^56 events): every frame that
  reaches the consumer or waits in the pipeline is well formed, its trace line is produced, and if
  the database has a message for it, decoding reads inside the payload and reports exactly the
  signals of the message in order, each with a value that fits the signal's length and sign.\<close>

theorem data_path_typed:
  assumes "enabled_channels (sc_channel_mask cfg) \<noteq> []" and "256 * length es < 2 ^ 64"
    and "dbc_parse old text = (ok, err, ms)"
  shows "\<exists>c' rd got. cap_run sim_is_open sim_open sim_read_frames es
        (new_Capture (new_SimUsbDevice cfg) (new_Pipeline n)) = Inr (c', rd, got) \<and>
    (\<forall>f\<in>set (got @ pl_items (cs_pipe c')). wf_frame f \<and> (\<exists>t. frame_to_string f = Inr t) \<and>
       (\<forall>dm. find_message ms (f_id f) = Some dm \<longrightarrow> sane_message dm \<and>
          (\<exists>vs. decode_frame dm f (Some out) = Inr (True, Some vs) \<and> list_all2 in_range (dm_signals dm) vs)))"
proof -
  obtain c' rd got where r: "cap_run sim_is_open sim_open sim_read_frames es
        (new_Capture (new_SimUsbDevice cfg) (new_Pipeline n)) = Inr (c', rd, got)"
    "\<forall>f\<in>set (got @ pl_items (cs_pipe c')). wf_frame f \<and> unat (f_dlc f) \<le> 64"
    using sim_capture.fresh_run_typed [OF new_sim_sound [OF assms(1)] assms(2)] by blast
  have sane: "sane_message dm" if "find_message ms i = Some dm" for i dm
    using parse_lines_sane [of "lines_of text" "[]"] assms(3) find_message_in [OF that]
    by (simp add: dbc_parse_def dbc_clear_def)
  have "\<exists>t. frame_to_string f = Inr t" if "wf_frame f" "unat (f_dlc f) \<le> 64" for f
    using trace_line_exists [OF that] .
  moreover have "\<exists>vs. decode_frame dm f (Some out) = Inr (True, Some vs) \<and> list_all2 in_range (dm_signals dm) vs"
    if "wf_frame f" for f dm
    using decode_frame_spec [OF that, of dm out]
    by (auto simp: list_all2_map2 list_all2_same reported_in_range)
  ultimately show ?thesis using r sane by blast
qed

text \<open>The standard generator for a while, a consumer, and the database of engine speeds.\<close>

theorem data_path_typed_witness:
  "\<exists>c' rd got ok err ms. cap_run sim_is_open sim_open sim_read_frames
        [Start 0, Cycle 1000000 1000000, Consume, Cycle 9000000 9000000, Stop]
        (new_Capture (new_SimUsbDevice default_SimConfig) (new_Pipeline 64)) = Inr (c', rd, got) \<and>
     dbc_parse [] (show_database sample_database) = (ok, err, ms) \<and>
     list_all (\<lambda>f. wf_frame f \<and> (\<exists>t. frame_to_string f = Inr t)) (got @ pl_items (cs_pipe c'))"
proof -
  obtain ok err ms where d: "dbc_parse [] (show_database sample_database) = (ok, err, ms)"
    by (cases "dbc_parse [] (show_database sample_database)") auto
  have "enabled_channels 0x0F = [0, 1, 2, 3]" by code_simp
  then have "enabled_channels (sc_channel_mask default_SimConfig) \<noteq> []"
    by (simp add: default_SimConfig_def)
  from data_path_typed [OF this _ d, of "[Start 0, Cycle 1000000 1000000, Consume, Cycle 9000000 9000000, Stop]"]
  show ?thesis unfolding list_all_iff using d by fastforce
qed

end
